(* ===== verification/Prelude.thy ===== *)
theory Prelude
  imports Main "HOL-Library.Word" "HOL-Library.AList"
begin

text \<open>
  Shared vocabulary of the development: bytes and strings, machine integers, durations,
  I/O errors, the outcome of a task that waits on I/O, decimal printing and parsing as the
  Rust standard library does them, and hash maps in iteration order.

  A Rust \<open>String\<close> or \<open>&str\<close> is its UTF-8 byte sequence, a HOL \<open>string\<close> whose characters
  are bytes, so that \<open>as_bytes\<close> is the identity and \<open>==\<close> is byte equality, as in Rust. A
  byte buffer \<open>[u8]\<close> has the same type.
\<close>

named_theorems io_simps \<open>unfolding of the I/O sequencing operators\<close>
named_theorems hm_simps \<open>hash map operations in terms of lookups\<close>

section \<open>Bytes, integers, durations\<close>

type_synonym bytes = string
type_synonym u16 = "16 word"
type_synonym u32 = "32 word"
type_synonym u64 = "64 word"
type_synonym u128 = "128 word"

text \<open>\<open>usize\<close> quantities of the program (limits, permit counts, lengths) are only compared and
  subtracted with \<open>saturating_sub\<close>, which is subtraction on \<open>nat\<close>.\<close>

type_synonym usize = nat

text \<open>A \<open>std::time::Duration\<close> or \<open>Instant\<close> in nanoseconds.\<close>

type_synonym duration = nat
type_synonym instant = nat

abbreviation from_secs :: "nat \<Rightarrow> duration" where
  "from_secs s \<equiv> s * 1000000000"

abbreviation crlf :: bytes where
  "crlf \<equiv> [CHR 0x0D, CHR 0x0A]"

abbreviation newline :: bytes where
  "newline \<equiv> [CHR 0x0A]"

abbreviation dquote :: bytes where
  "dquote \<equiv> [CHR 0x22]"

section \<open>Decimal printing and parsing\<close>

definition digit_char :: "nat \<Rightarrow> char" where
  "digit_char d = char_of (48 + d)"

definition is_digit :: "char \<Rightarrow> bool" where
  "is_digit c \<longleftrightarrow> 48 \<le> (of_char c :: nat) \<and> (of_char c :: nat) \<le> 57"

definition digit_val :: "char \<Rightarrow> nat" where
  "digit_val c = of_char c - 48"

text \<open>\<open>Display\<close> of an unsigned integer.\<close>

fun show_nat :: "nat \<Rightarrow> string" where
  "show_nat n = (if n < 10 then [digit_char n] else show_nat (n div 10) @ [digit_char (n mod 10)])"

declare show_nat.simps [simp del]

definition show_int :: "int \<Rightarrow> string" where
  "show_int i = (if i < 0 then ''-'' @ show_nat (nat (- i)) else show_nat (nat i))"

text \<open>\<open>str::parse::<u16>()\<close>: an optional plus sign, then digits; the invalid digit is noticed
  before the overflow of the same position.\<close>

datatype int_error = Int_Empty | Int_InvalidDigit | Int_PosOverflow

fun parse_digits :: "nat \<Rightarrow> nat \<Rightarrow> string \<Rightarrow> int_error + nat" where
  "parse_digits hi acc [] = Inr acc"
| "parse_digits hi acc (c # cs) =
     (if \<not> is_digit c then Inl Int_InvalidDigit
      else if hi < 10 * acc + digit_val c then Inl Int_PosOverflow
      else parse_digits hi (10 * acc + digit_val c) cs)"

definition parse_unsigned :: "nat \<Rightarrow> string \<Rightarrow> int_error + nat" where
  "parse_unsigned hi s =
     (case s of
        [] \<Rightarrow> Inl Int_Empty
      | [c] \<Rightarrow> if c = CHR ''+'' \<or> c = CHR ''-'' then Inl Int_InvalidDigit else parse_digits hi 0 [c]
      | c # cs \<Rightarrow> if c = CHR ''+'' then parse_digits hi 0 cs else parse_digits hi 0 s)"

definition parse_u16 :: "string \<Rightarrow> int_error + u16" where
  "parse_u16 s = (case parse_unsigned 65535 s of Inl e \<Rightarrow> Inl e | Inr n \<Rightarrow> Inr (of_nat n))"

lemma of_char_digit_char [simp]: "d < 10 \<Longrightarrow> (of_char (digit_char d) :: nat) = 48 + d"
  by (simp add: digit_char_def)

lemma digit_char_eqs [simp]:
  "digit_char 0 = CHR ''0''" "digit_char (Suc 0) = CHR ''1''" "digit_char 1 = CHR ''1''"
  "digit_char 2 = CHR ''2''" "digit_char 3 = CHR ''3''" "digit_char 4 = CHR ''4''"
  "digit_char 5 = CHR ''5''" "digit_char 6 = CHR ''6''" "digit_char 7 = CHR ''7''"
  "digit_char 8 = CHR ''8''" "digit_char 9 = CHR ''9''"
  by code_simp+

lemma is_digit_digit_char [simp]: "d < 10 \<Longrightarrow> is_digit (digit_char d)"
  by (simp add: is_digit_def)

lemma digit_val_digit_char [simp]: "d < 10 \<Longrightarrow> digit_val (digit_char d) = d"
  by (simp add: digit_val_def)

lemma show_nat_nonempty [simp]: "show_nat n \<noteq> []"
  by (subst show_nat.simps) simp

lemma show_nat_digits: "c \<in> set (show_nat n) \<Longrightarrow> is_digit c"
proof (induction n rule: show_nat.induct)
  case (1 n)
  then show ?case
    by (subst (asm) (2) show_nat.simps) (auto split: if_splits)
qed

lemma parse_digits_append:
  "parse_digits hi acc (xs @ ys) =
     (case parse_digits hi acc xs of Inl e \<Rightarrow> Inl e | Inr n \<Rightarrow> parse_digits hi n ys)"
  by (induction xs arbitrary: acc) auto

lemma parse_digits_show_nat: "n \<le> hi \<Longrightarrow> parse_digits hi 0 (show_nat n) = Inr n"
proof (induction n rule: show_nat.induct)
  case (1 n)
  show ?case
  proof (cases "n < 10")
    case True
    with "1.prems" show ?thesis by (subst show_nat.simps) simp
  next
    case False
    with "1.prems" have "parse_digits hi 0 (show_nat (n div 10)) = Inr (n div 10)"
      by (intro "1.IH") auto
    with False "1.prems" show ?thesis
      by (subst show_nat.simps) (simp add: parse_digits_append)
  qed
qed

lemma sign_not_digit [simp]: "\<not> is_digit (CHR ''+'')" "\<not> is_digit (CHR ''-'')"
  by (simp_all add: is_digit_def)

lemma parse_unsigned_show_nat: "n \<le> hi \<Longrightarrow> parse_unsigned hi (show_nat n) = Inr n"
proof -
  assume le: "n \<le> hi"
  obtain c cs where s: "show_nat n = c # cs" by (cases "show_nat n") auto
  then have d: "is_digit c" using show_nat_digits [of c n] by simp
  then have "c \<noteq> CHR ''+''" and "c \<noteq> CHR ''-''" by auto
  with parse_digits_show_nat [OF le] show ?thesis
    by (cases cs) (auto simp: parse_unsigned_def s)
qed

lemma parse_u16_show_nat: "parse_u16 (show_nat (unat p)) = Inr (p :: u16)"
proof -
  have "unat p \<le> 65535" using unsigned_less [of p, where 'a = nat] by simp
  then show ?thesis by (simp add: parse_u16_def parse_unsigned_show_nat)
qed

lemma parse_digits_bound: "parse_digits hi acc s = Inr n \<Longrightarrow> acc \<le> hi \<Longrightarrow> n \<le> hi"
  by (induction s arbitrary: acc) (auto split: if_splits)

lemma parse_unsigned_bound: "parse_unsigned hi s = Inr n \<Longrightarrow> n \<le> hi"
  by (auto simp: parse_unsigned_def split: list.splits if_splits dest: parse_digits_bound)

lemma show_nat_inj: "show_nat m = show_nat n \<Longrightarrow> m = n"
  by (metis parse_digits_show_nat max.cobounded1 max.cobounded2 sum.inject(2))

section \<open>Errors, outcomes, and sequences of I/O calls\<close>

text \<open>
  \<open>io_error\<close> is \<open>std::io::Error\<close>: the program looks at its kind only to recognise
  \<open>WouldBlock\<close>, and prints the rest. \<open>boxed_error\<close> is \<open>Box<dyn Error>\<close>, one constructor for
  each type the program boxes.
\<close>

datatype io_kind = WouldBlock | OtherKind nat

datatype io_error = Io_Error (err_kind: io_kind) (err_msg: string)

datatype var_error = Var_NotPresent | Var_NotUnicode

datatype boxed_error =
    Proxy_Error string
  | Boxed_Io io_error
  | Boxed_Var var_error
  | Boxed_Msg string

text \<open>
  An \<open>async fn\<close> that performs I/O is a function of what the outside world answers to its
  calls. Its outcome is the value it returns, the error it returns, or \<open>Pending\<close> when the
  answers given so far leave it waiting; beside the outcome it yields the actions it has
  performed, in order.
\<close>

datatype 'a outcome = Ret 'a | Fail boxed_error | Pending

type_synonym ('act, 'a) io = "'a outcome \<times> 'act list"

definition io_ret :: "'a \<Rightarrow> ('act, 'a) io" where
  "io_ret a = (Ret a, [])"

definition io_fail :: "boxed_error \<Rightarrow> ('act, 'a) io" where
  "io_fail e = (Fail e, [])"

definition io_act :: "'act \<Rightarrow> ('act, unit) io" where
  "io_act x = (Ret (), [x])"

definition io_bind :: "('act, 'a) io \<Rightarrow> ('a \<Rightarrow> ('act, 'b) io) \<Rightarrow> ('act, 'b) io" where
  "io_bind m f =
     (case m of
        (Ret a, t) \<Rightarrow> (case f a of (r, t') \<Rightarrow> (r, t @ t'))
      | (Fail e, t) \<Rightarrow> (Fail e, t)
      | (Pending, t) \<Rightarrow> (Pending, t))"

text \<open>The \<open>?\<close> operator on the result of a standard library call.\<close>

definition io_try :: "io_error + 'a \<Rightarrow> ('act, 'a) io" where
  "io_try r = (case r of Inl e \<Rightarrow> io_fail (Boxed_Io e) | Inr a \<Rightarrow> io_ret a)"

text \<open>
  The actions of one connection that the world outside can see: name lookups and connection
  attempts, bytes written to and read from the upstream before the relay starts, bytes the relay
  delivers in either direction, the shutdown of a stream's write half, and the start of a
  detached HTTP server task.
\<close>

datatype sock_addr =
    V4 u32 u16
  | V6 u128 u16 u32 u32

fun is_ipv4 :: "sock_addr \<Rightarrow> bool" where
  "is_ipv4 (V4 ip port) = True"
| "is_ipv4 (V6 ip port flow scope) = False"

fun is_ipv6 :: "sock_addr \<Rightarrow> bool" where
  "is_ipv6 (V4 ip port) = False"
| "is_ipv6 (V6 ip port flow scope) = True"

datatype action =
    Lookup string
  | Connect "sock_addr list" duration
  | Up_Write bytes
  | Up_Read bytes
  | To_Upstream bytes
  | To_Client bytes
  | Shutdown_Upstream
  | Shutdown_Client
  | Serve_Http

lemma io_bind_simps [simp, io_simps]:
  "io_bind (Ret a, t) f = (fst (f a), t @ snd (f a))"
  "io_bind (Fail e, t) f = (Fail e, t)"
  "io_bind (Pending, t) f = (Pending, t)"
  by (simp_all add: io_bind_def split: prod.splits)

lemma io_ret_bind [simp, io_simps]: "io_bind (io_ret a) f = f a"
  by (simp add: io_ret_def)

lemma io_fail_bind [simp, io_simps]: "io_bind (io_fail e) f = io_fail e"
  by (simp add: io_fail_def)

lemma io_act_bind [simp, io_simps]: "io_bind (io_act x) f = (fst (f ()), x # snd (f ()))"
  by (simp add: io_act_def)

lemma io_try_simps [simp, io_simps]:
  "io_try (Inl e) = io_fail (Boxed_Io e)" "io_try (Inr a) = io_ret a"
  by (simp_all add: io_try_def)

lemma fst_io_ret [simp]: "fst (io_ret a) = Ret a" "snd (io_ret a) = []"
  by (simp_all add: io_ret_def)

lemma fst_io_fail [simp]: "fst (io_fail e) = Fail e" "snd (io_fail e) = []"
  by (simp_all add: io_fail_def)

lemma fst_io_bind:
  "fst (io_bind m f) = (case fst m of Ret a \<Rightarrow> fst (f a) | Fail e \<Rightarrow> Fail e | Pending \<Rightarrow> Pending)"
  by (cases m; cases "fst m") simp_all

lemma snd_io_bind:
  "snd (io_bind m f) = snd m @ (case fst m of Ret a \<Rightarrow> snd (f a) | Fail e \<Rightarrow> [] | Pending \<Rightarrow> [])"
  by (cases m; cases "fst m") simp_all

lemma io_bind_assoc: "io_bind (io_bind m f) g = io_bind m (\<lambda>a. io_bind (f a) g)"
  by (rule prod_eqI) (simp_all add: fst_io_bind snd_io_bind split: outcome.splits)

lemma io_bind_eq_Ret:
  "fst (io_bind m f) = Ret b \<longleftrightarrow> (\<exists>a. fst m = Ret a \<and> fst (f a) = Ret b)"
  by (simp add: fst_io_bind split: outcome.splits)

section \<open>Hash maps\<close>

text \<open>
  A \<open>HashMap\<close> is the list of its entries in the order in which iteration visits them, with
  distinct keys. Rust leaves that order open; a theorem about every such list is a theorem
  about every order.
\<close>

type_synonym ('k, 'v) hash_map = "('k \<times> 'v) list"

definition hm_ok :: "('k, 'v) hash_map \<Rightarrow> bool" where
  "hm_ok m \<longleftrightarrow> distinct (map fst m)"

definition hm_get :: "('k, 'v) hash_map \<Rightarrow> 'k \<Rightarrow> 'v option" where
  "hm_get m k = map_of m k"

definition hm_insert :: "'k \<Rightarrow> 'v \<Rightarrow> ('k, 'v) hash_map \<Rightarrow> ('k, 'v) hash_map" where
  "hm_insert k v m = AList.update k v m"

definition hm_keys :: "('k, 'v) hash_map \<Rightarrow> 'k list" where
  "hm_keys m = map fst m"

definition hm_values :: "('k, 'v) hash_map \<Rightarrow> 'v list" where
  "hm_values m = map snd m"

text \<open>
  The interface of a keyed store: what the program relies on when it fills its table of
  upstreams and looks names up in it. \<open>ins_all\<close> is an insertion loop over a list of entries.
\<close>

fun ins_all :: "('k \<Rightarrow> 'v \<Rightarrow> 'm \<Rightarrow> 'm) \<Rightarrow> ('k \<times> 'v) list \<Rightarrow> 'm \<Rightarrow> 'm" where
  "ins_all ins [] m = m"
| "ins_all ins ((k, v) # kvs) m = ins_all ins kvs (ins k v m)"

locale keyed_store =
  fixes get :: "'m \<Rightarrow> 'k \<Rightarrow> 'v option"
    and ins :: "'k \<Rightarrow> 'v \<Rightarrow> 'm \<Rightarrow> 'm"
    and ks :: "'m \<Rightarrow> 'k list"
    and ok :: "'m \<Rightarrow> bool"
  assumes get_ins: "get (ins k v m) k' = (if k' = k then Some v else get m k')"
    and ks_get: "k \<in> set (ks m) \<longleftrightarrow> get m k \<noteq> None"
    and ok_ins: "ok m \<Longrightarrow> ok (ins k v m)"
begin

lemma get_ins_all:
  "get (ins_all ins kvs m) k = (case map_of (rev kvs) k of Some v \<Rightarrow> Some v | None \<Rightarrow> get m k)"
  by (induction kvs arbitrary: m) (auto simp: get_ins map_add_def split: option.splits)

lemma ins_all_keeps: "get m k \<noteq> None \<Longrightarrow> get (ins_all ins kvs m) k \<noteq> None"
  by (simp add: get_ins_all split: option.splits)

lemma ins_all_dom:
  "get (ins_all ins kvs m) k \<noteq> None \<longleftrightarrow> k \<in> fst ` set kvs \<or> get m k \<noteq> None"
proof -
  have "map_of (rev kvs) k = None \<longleftrightarrow> k \<notin> fst ` set kvs"
    by (simp add: map_of_eq_None_iff)
  then show ?thesis by (cases "map_of (rev kvs) k") (simp_all add: get_ins_all)
qed

lemma ok_ins_all: "ok m \<Longrightarrow> ok (ins_all ins kvs m)"
  by (induction kvs arbitrary: m) (auto simp: ok_ins)

lemma ks_ins_all: "set (ks (ins_all ins kvs m)) = fst ` set kvs \<union> set (ks m)"
  using ins_all_dom by (auto simp only: ks_get Un_iff set_eq_iff)

end

interpretation hm: keyed_store hm_get hm_insert hm_keys hm_ok
  by unfold_locales
    (auto simp: hm_get_def hm_insert_def hm_keys_def hm_ok_def update_conv' map_of_eq_None_iff
       distinct_update intro: distinct_update)

lemma hm_get_Nil [simp, hm_simps]: "hm_get [] k = None"
  by (simp add: hm_get_def)

lemma hm_get_Cons [simp, hm_simps]:
  "hm_get ((k', v) # m) k = (if k = k' then Some v else hm_get m k)"
  by (simp add: hm_get_def)

lemma hm_get_map [hm_simps]: "hm_get (map (\<lambda>(k, v). (k, f v)) m) k = map_option f (hm_get m k)"
  by (simp add: hm_get_def map_of_map)

lemma hm_get_in_set: "hm_get m k = Some v \<Longrightarrow> (k, v) \<in> set m"
  by (simp add: hm_get_def map_of_SomeD)

lemma hm_get_iff: "hm_ok m \<Longrightarrow> hm_get m k = Some v \<longleftrightarrow> (k, v) \<in> set m"
  by (simp add: hm_get_def hm_ok_def)

lemma hm_get_values: "hm_get m k = Some v \<Longrightarrow> v \<in> set (hm_values m)"
  by (auto simp: hm_values_def dest: hm_get_in_set intro: rev_image_eqI)

lemma hm_get_perm:
  "hm_ok m \<Longrightarrow> hm_ok m' \<Longrightarrow> set m = set m' \<Longrightarrow> hm_get m = hm_get m'"
  unfolding hm_get_def [abs_def] hm_ok_def by (simp add: map_of_inject_set)

end
