(* ===== verification/Config_Types.thy ===== *)
theory Config_Types
  imports Prelude
begin

text \<open>
  \<open>src/config/types.rs\<close> and \<open>src/config/error.rs\<close>: the configuration as serde fills it from
  YAML, with the default of every field that may be missing, and the loader's error type.

  Each \<open>raw_*\<close> record is what the YAML document holds for a struct: a field whose attribute is
  \<open>serde(default ...)\<close>, or whose type is an \<open>Option\<close>, may be missing, which is \<open>None\<close>. The
  \<open>*_of_raw\<close> functions are what the attributes in \<open>types.rs\<close> prescribe for missing fields. The
  lemmas compare the two defaults of the \<open>via\<close> block: the field attributes, which apply when the
  block is there, and the derived \<open>Default\<close>, which applies when it is not.
\<close>

section \<open>ViaUpstream\<close>

record via_upstream =
  via_headers :: "(string, string) hash_map"
  via_target :: string
  via_connect_timeout :: duration
  via_use_sni_as_target :: bool
  via_target_port :: u16
  via_stats_interval :: duration

definition default_connect_timeout :: duration where
  "default_connect_timeout = from_secs 30"

definition default_target_port :: u16 where
  "default_target_port = 443"

text \<open>The derived \<open>Default\<close>: every field has the default of its type.\<close>

definition via_default :: via_upstream where
  "via_default = \<lparr>via_headers = [], via_target = '''', via_connect_timeout = 0,
     via_use_sni_as_target = False, via_target_port = 0, via_stats_interval = 0\<rparr>"

record raw_via =
  rv_headers :: "(string, string) hash_map option"
  rv_target :: "string option"
  rv_connect_timeout :: "duration option"
  rv_use_sni_as_target :: "bool option"
  rv_target_port :: "u16 option"
  rv_stats_interval :: "duration option"

definition or_else :: "'a option \<Rightarrow> 'a \<Rightarrow> 'a" where
  "or_else x d = (case x of None \<Rightarrow> d | Some a \<Rightarrow> a)"

definition via_of_raw :: "raw_via \<Rightarrow> via_upstream" where
  "via_of_raw r = \<lparr>via_headers = or_else (rv_headers r) [],
     via_target = or_else (rv_target r) '''',
     via_connect_timeout = or_else (rv_connect_timeout r) default_connect_timeout,
     via_use_sni_as_target = or_else (rv_use_sni_as_target r) False,
     via_target_port = or_else (rv_target_port r) default_target_port,
     via_stats_interval = or_else (rv_stats_interval r) 0\<rparr>"

text \<open>The YAML block \<open>via: {}\<close>.\<close>

definition raw_via_empty :: raw_via where
  "raw_via_empty = \<lparr>rv_headers = None, rv_target = None, rv_connect_timeout = None,
     rv_use_sni_as_target = None, rv_target_port = None, rv_stats_interval = None\<rparr>"

section \<open>SniTarget\<close>

datatype sni_target =
    Simple string
  | Extended string "via_upstream option"

fun upstream_name :: "sni_target \<Rightarrow> string" where
  "upstream_name (Simple name) = name"
| "upstream_name (Extended upstream via) = upstream"

fun via_override :: "sni_target \<Rightarrow> via_upstream option" where
  "via_override (Simple name) = None"
| "via_override (Extended upstream via) = via"

datatype raw_sni_target =
    Raw_Simple string
  | Raw_Extended string "raw_via option"

fun sni_target_of_raw :: "raw_sni_target \<Rightarrow> sni_target" where
  "sni_target_of_raw (Raw_Simple name) = Simple name"
| "sni_target_of_raw (Raw_Extended upstream via) = Extended upstream (map_option via_of_raw via)"

section \<open>ServerConfig and BaseConfig\<close>

record server_config =
  sc_listen :: "string list"
  sc_protocol :: "string option"
  sc_tls :: "bool option"
  sc_sni :: "(string, sni_target) hash_map option"
  sc_default :: "string option"
  sc_via :: via_upstream
  sc_maxclients :: usize

definition default_maxclients :: usize where
  "default_maxclients = 100"

record raw_server =
  rs_listen :: "string list"
  rs_protocol :: "string option"
  rs_tls :: "bool option"
  rs_sni :: "(string, raw_sni_target) hash_map option"
  rs_default :: "string option"
  rs_via :: "raw_via option"
  rs_maxclients :: "usize option"

definition server_of_raw :: "raw_server \<Rightarrow> server_config" where
  "server_of_raw r = \<lparr>sc_listen = rs_listen r, sc_protocol = rs_protocol r, sc_tls = rs_tls r,
     sc_sni = map_option (map (\<lambda>(k, t). (k, sni_target_of_raw t))) (rs_sni r),
     sc_default = rs_default r,
     sc_via = (case rs_via r of None \<Rightarrow> via_default | Some v \<Rightarrow> via_of_raw v),
     sc_maxclients = or_else (rs_maxclients r) default_maxclients\<rparr>"

record base_config =
  bc_version :: int
  bc_log :: "string option"
  bc_log_format :: "string option"
  bc_servers :: "(string, server_config) hash_map"
  bc_upstream :: "(string, string) hash_map"
  bc_via :: via_upstream

record raw_base =
  rb_version :: int
  rb_log :: "string option"
  rb_log_format :: "string option"
  rb_servers :: "(string, raw_server) hash_map"
  rb_upstream :: "(string, string) hash_map option"
  rb_via :: "raw_via option"

definition base_of_raw :: "raw_base \<Rightarrow> base_config" where
  "base_of_raw r = \<lparr>bc_version = rb_version r, bc_log = rb_log r, bc_log_format = rb_log_format r,
     bc_servers = map (\<lambda>(k, s). (k, server_of_raw s)) (rb_servers r),
     bc_upstream = or_else (rb_upstream r) [],
     bc_via = (case rb_via r of None \<Rightarrow> via_default | Some v \<Rightarrow> via_of_raw v)\<rparr>"

section \<open>ConfigError\<close>

text \<open>A parse error of the YAML library, as the text it displays.\<close>

datatype yaml_error = Yaml_Error string

datatype config_error = IO io_error | Yaml yaml_error | Custom string

fun config_error_display :: "config_error \<Rightarrow> string" where
  "config_error_display (IO e) = ''IO error: '' @ err_msg e"
| "config_error_display (Yaml (Yaml_Error m)) = ''YAML parse error: '' @ m"
| "config_error_display (Custom msg) = msg"

fun config_error_source :: "config_error \<Rightarrow> (io_error + yaml_error) option" where
  "config_error_source (IO e) = Some (Inl e)"
| "config_error_source (Yaml e) = Some (Inr e)"
| "config_error_source (Custom msg) = None"

text \<open>The conversions that \<open>?\<close> applies.\<close>

definition config_error_from_io :: "io_error \<Rightarrow> config_error" where
  "config_error_from_io err = IO err"

definition config_error_from_yaml :: "yaml_error \<Rightarrow> config_error" where
  "config_error_from_yaml err = Yaml err"

lemmas config_error_from [simp] = config_error_from_io_def config_error_from_yaml_def

section \<open>The defaults\<close>

lemma or_else_simps [simp]: "or_else None d = d" "or_else (Some a) d = a"
  by (simp_all add: or_else_def)

lemmas config_defaults = via_of_raw_def raw_via_empty_def via_default_def
  default_connect_timeout_def default_target_port_def default_maxclients_def server_of_raw_def

lemma hm_ok_base_of_raw:
  "hm_ok (bc_servers (base_of_raw r)) \<longleftrightarrow> hm_ok (rb_servers r)"
  by (simp add: base_of_raw_def hm_ok_def comp_def case_prod_unfold)

lemma sni_lookup_of_raw:
  "map_option (\<lambda>m. hm_get m k) (sc_sni (server_of_raw r)) =
     map_option (\<lambda>m. map_option sni_target_of_raw (hm_get m k)) (rs_sni r)"
  by (cases "rs_sni r") (simp_all add: server_of_raw_def hm_get_map)

text \<open>
  A \<open>via\<close> block that is present but empty, at server level or for one SNI name, has the
  documented defaults (30 s connect timeout, port 443) and selects direct forwarding: no static
  target and no SNI target.
\<close>

lemma via_empty_block_defaults:
  "rs_via r = Some raw_via_empty \<Longrightarrow>
     sc_via (server_of_raw r) = \<lparr>via_headers = [], via_target = '''',
       via_connect_timeout = from_secs 30, via_use_sni_as_target = False,
       via_target_port = 443, via_stats_interval = 0\<rparr> \<and>
     via_override (sni_target_of_raw (Raw_Extended u (rs_via r))) = Some (sc_via (server_of_raw r))"
  by (simp add: config_defaults)

definition raw_server_plain :: "raw_via option \<Rightarrow> raw_server" where
  "raw_server_plain v = \<lparr>rs_listen = [''127.0.0.1:8081''], rs_protocol = None, rs_tls = None,
     rs_sni = None, rs_default = Some ''remote'', rs_via = v, rs_maxclients = None\<rparr>"

text \<open>
  A server without any \<open>via\<close> block does not get those defaults: its \<open>via\<close> is the derived
  \<open>Default\<close>, whose connect timeout is zero and whose target port is 0, whatever else the server
  block says.
\<close>

lemma via_missing_block_zero_timeout:
  "sc_via (server_of_raw (r\<lparr>rs_via := None\<rparr>)) = via_default \<and>
   via_connect_timeout (sc_via (server_of_raw (r\<lparr>rs_via := None\<rparr>))) = 0 \<and>
   via_target_port (sc_via (server_of_raw (r\<lparr>rs_via := None\<rparr>))) = 0 \<and>
   via_connect_timeout (sc_via (server_of_raw (r\<lparr>rs_via := Some raw_via_empty\<rparr>))) = from_secs 30"
  by (simp add: config_defaults)

end
