(* ===== verification/Upstream_Address.thy ===== *)
theory Upstream_Address
  imports Prelude
begin

text \<open>
  \<open>src/servers/upstream_address/mod.rs\<close>: the address cache of one upstream.

  The four fields of \<open>UpstreamAddress\<close> are the record \<open>upstream_address\<close>; the locks around three
  of them are held for one read or write each, and a call of \<open>resolve\<close> is modelled as one step.
  What the call learns from outside is a \<open>dns_env\<close>: the clock when validity is checked, the
  answer of \<open>lookup_host\<close> for a host, and the clock when the answer is stored. The resolver
  itself is not part of the program.

  The lemmas give each branch of \<open>resolve\<close>, an abstract time-to-live cache that it refines, the
  invariant that a cache used in one mode only ever holds and returns addresses of that mode, and
  what failed lookups do to a cache that already holds addresses.
\<close>

section \<open>ResolutionMode\<close>

datatype resolution_mode = Ipv4AndIpv6 | Ipv4 | Ipv6

instantiation resolution_mode :: default
begin

definition default_resolution_mode :: resolution_mode where
  "default_resolution_mode = Ipv4AndIpv6"

instance ..

end

definition mode_from_str :: "string \<Rightarrow> resolution_mode" where
  "mode_from_str value =
     (if value = ''tcp4'' then Ipv4
      else if value = ''tcp6'' then Ipv6
      else if value = ''tcp'' then Ipv4AndIpv6
      else Ipv4AndIpv6)"

fun mode_display :: "resolution_mode \<Rightarrow> string" where
  "mode_display Ipv4 = ''IPv4Only''"
| "mode_display Ipv6 = ''IPv6Only''"
| "mode_display Ipv4AndIpv6 = ''IPv4 and IPv6''"

fun mode_filter :: "resolution_mode \<Rightarrow> sock_addr list \<Rightarrow> sock_addr list" where
  "mode_filter Ipv4 as = filter is_ipv4 as"
| "mode_filter Ipv6 as = filter is_ipv6 as"
| "mode_filter Ipv4AndIpv6 as = as"

fun allowed :: "resolution_mode \<Rightarrow> sock_addr \<Rightarrow> bool" where
  "allowed Ipv4 a = is_ipv4 a"
| "allowed Ipv6 a = is_ipv6 a"
| "allowed Ipv4AndIpv6 a = True"

section \<open>UpstreamAddress\<close>

record upstream_address =
  ua_address :: string
  ua_resolved :: "sock_addr list"
  ua_time :: "instant option"
  ua_ttl :: "int option"

definition upstream_address_new :: "string \<Rightarrow> upstream_address" where
  "upstream_address_new address =
     \<lparr>ua_address = address, ua_resolved = [], ua_time = None, ua_ttl = None\<rparr>"

definition upstream_address_display :: "upstream_address \<Rightarrow> string" where
  "upstream_address_display ua = ua_address ua"

record dns_env =
  de_now :: instant
  de_lookup :: "string \<Rightarrow> io_error + sock_addr list"
  de_done :: instant

text \<open>\<open>Instant::elapsed\<close> saturates at zero.\<close>

definition elapsed :: "instant \<Rightarrow> instant \<Rightarrow> int" where
  "elapsed since now = int (now - since)"

definition is_valid :: "upstream_address \<Rightarrow> instant \<Rightarrow> bool" where
  "is_valid ua now =
     (case ua_time ua of
        None \<Rightarrow> False
      | Some resolved \<Rightarrow>
          (case ua_ttl ua of None \<Rightarrow> False | Some ttl \<Rightarrow> elapsed resolved now < ttl))"

definition is_resolved :: "upstream_address \<Rightarrow> bool" where
  "is_resolved ua \<longleftrightarrow> ua_resolved ua \<noteq> []"

definition time_remaining :: "upstream_address \<Rightarrow> instant \<Rightarrow> instant \<Rightarrow> int" where
  "time_remaining ua now now' =
     (if \<not> is_valid ua now then 0
      else case (ua_ttl ua, ua_time ua) of
        (Some t, Some r) \<Rightarrow> t - elapsed r now'
      | _ \<Rightarrow> 0)"

definition error_ttl :: int where
  "error_ttl = int (from_secs 3)"

definition success_ttl :: int where
  "success_ttl = int (from_secs 60)"

definition resolve ::
  "upstream_address \<Rightarrow> resolution_mode \<Rightarrow> dns_env \<Rightarrow>
     (io_error + sock_addr list) \<times> upstream_address \<times> action list" where
  "resolve ua mode e =
     (if is_resolved ua \<and> is_valid ua (de_now e) then (Inr (ua_resolved ua), ua, [])
      else case de_lookup e (ua_address ua) of
        Inl err \<Rightarrow>
          (Inl err, ua\<lparr>ua_time := Some (de_done e), ua_ttl := Some error_ttl\<rparr>,
           [Lookup (ua_address ua)])
      | Inr found \<Rightarrow>
          (let addresses = mode_filter mode found in
           (Inr addresses,
            ua\<lparr>ua_resolved := addresses, ua_time := Some (de_done e), ua_ttl := Some success_ttl\<rparr>,
            [Lookup (ua_address ua)])))"

text \<open>A sequence of calls on one cache, with the result of each.\<close>

fun resolve_run ::
  "('c \<Rightarrow> 'm \<Rightarrow> 'e \<Rightarrow> 'r \<times> 'c \<times> action list) \<Rightarrow> 'm \<Rightarrow> 'c \<Rightarrow> 'e list \<Rightarrow> 'r list \<times> 'c" where
  "resolve_run res mode c [] = ([], c)"
| "resolve_run res mode c (e # es) =
     (let (r, c', _) = res c mode e; (rs, c'') = resolve_run res mode c' es in (r # rs, c''))"

section \<open>The branches of resolve\<close>

lemma allowed_mode_filter: "a \<in> set (mode_filter m as) \<longleftrightarrow> a \<in> set as \<and> allowed m a"
  by (cases m) auto

lemma mode_filter_idem: "list_all (allowed m) as \<Longrightarrow> mode_filter m as = as"
  by (cases m) (auto simp: list_all_iff filter_id_conv)

lemma ttl_positive [simp]: "0 < error_ttl" "0 < success_ttl"
  by (simp_all add: error_ttl_def success_ttl_def)

lemma resolve_address [simp]: "ua_address (fst (snd (resolve ua m e))) = ua_address ua"
  by (simp add: resolve_def Let_def split: sum.splits)

lemma resolve_hit:
  "is_resolved ua \<Longrightarrow> is_valid ua (de_now e) \<Longrightarrow> resolve ua m e = (Inr (ua_resolved ua), ua, [])"
  by (simp add: resolve_def)

lemma resolve_miss_error:
  "\<not> (is_resolved ua \<and> is_valid ua (de_now e)) \<Longrightarrow> de_lookup e (ua_address ua) = Inl err \<Longrightarrow>
     resolve ua m e =
       (Inl err, ua\<lparr>ua_time := Some (de_done e), ua_ttl := Some error_ttl\<rparr>,
        [Lookup (ua_address ua)])"
  by (auto simp: resolve_def)

lemma resolve_miss_ok:
  "\<not> (is_resolved ua \<and> is_valid ua (de_now e)) \<Longrightarrow> de_lookup e (ua_address ua) = Inr found \<Longrightarrow>
     resolve ua m e =
       (Inr (mode_filter m found),
        ua\<lparr>ua_resolved := mode_filter m found, ua_time := Some (de_done e),
           ua_ttl := Some success_ttl\<rparr>,
        [Lookup (ua_address ua)])"
  by (auto simp: resolve_def Let_def)

lemma is_valid_stored:
  "is_valid (ua\<lparr>ua_time := Some t, ua_ttl := Some l\<rparr>) now \<longleftrightarrow> int (now - t) < l"
  by (simp add: is_valid_def elapsed_def)

section \<open>The interface the upstream client relies on\<close>

text \<open>
  A source of addresses promises that what it returns in a mode is allowed in that mode, as long
  as its state was only ever used in that mode.
\<close>

locale address_source =
  fixes res :: "'c \<Rightarrow> resolution_mode \<Rightarrow> 'e \<Rightarrow> ('err + sock_addr list) \<times> 'c \<times> action list"
    and inv :: "resolution_mode \<Rightarrow> 'c \<Rightarrow> bool"
  assumes res_allowed: "inv m c \<Longrightarrow> fst (res c m e) = Inr as \<Longrightarrow> list_all (allowed m) as"
    and inv_res: "inv m c \<Longrightarrow> inv m (fst (snd (res c m e)))"
begin

lemma run_allowed:
  "inv m c \<Longrightarrow> Inr as \<in> set (fst (resolve_run res m c es)) \<Longrightarrow> list_all (allowed m) as"
proof (induction es arbitrary: c)
  case (Cons e es)
  obtain r c' t where r: "res c m e = (r, c', t)" by (cases "res c m e") auto
  have "inv m c'" using inv_res [OF Cons.prems(1), of e] r by simp
  with Cons r res_allowed [OF Cons.prems(1), of e as] show ?case
    by (auto split: prod.splits)
qed simp

lemma run_inv: "inv m c \<Longrightarrow> inv m (snd (resolve_run res m c es))"
proof (induction es arbitrary: c)
  case (Cons e es)
  obtain r c' t where r: "res c m e = (r, c', t)" by (cases "res c m e") auto
  have "inv m c'" using inv_res [OF Cons.prems(1), of e] r by simp
  from Cons.IH [OF this] r show ?case by (simp add: case_prod_unfold Let_def)
qed simp

end

definition holds_mode :: "resolution_mode \<Rightarrow> upstream_address \<Rightarrow> bool" where
  "holds_mode m ua \<longleftrightarrow> list_all (allowed m) (ua_resolved ua)"

interpretation dns: address_source resolve holds_mode
  by unfold_locales
    (auto simp: resolve_def holds_mode_def Let_def list_all_iff allowed_mode_filter
       split: if_splits sum.splits)

lemma holds_mode_new: "holds_mode m (upstream_address_new a)"
  by (simp add: holds_mode_def upstream_address_new_def)

section \<open>Refinement of a time-to-live cache\<close>

text \<open>
  The contract: the cache is empty or holds a non-empty answer with the instant at which it
  expires. A call before that instant returns the answer; otherwise the host is looked up. A
  success replaces the entry (an empty answer is not cached); a failure keeps the entry, if there
  is one, and lets it live three more seconds.
\<close>

type_synonym ttl_cache = "(sock_addr list \<times> int) option"

definition cache_resolve ::
  "ttl_cache \<Rightarrow> string \<Rightarrow> resolution_mode \<Rightarrow> dns_env \<Rightarrow> (io_error + sock_addr list) \<times> ttl_cache" where
  "cache_resolve c host mode e =
     (case c of
        Some (as, expiry) \<Rightarrow>
          if int (de_now e) < expiry then (Inr as, c)
          else (case de_lookup e host of
              Inl err \<Rightarrow> (Inl err, Some (as, int (de_done e) + error_ttl))
            | Inr found \<Rightarrow>
                (Inr (mode_filter mode found),
                 if mode_filter mode found = [] then None
                 else Some (mode_filter mode found, int (de_done e) + success_ttl)))
      | None \<Rightarrow>
          (case de_lookup e host of
              Inl err \<Rightarrow> (Inl err, None)
            | Inr found \<Rightarrow>
                (Inr (mode_filter mode found),
                 if mode_filter mode found = [] then None
                 else Some (mode_filter mode found, int (de_done e) + success_ttl))))"

definition abs_cache :: "upstream_address \<Rightarrow> ttl_cache" where
  "abs_cache ua =
     (if ua_resolved ua = [] then None
      else case (ua_time ua, ua_ttl ua) of
        (Some t, Some l) \<Rightarrow> Some (ua_resolved ua, int t + l)
      | _ \<Rightarrow> None)"

definition ua_wf :: "upstream_address \<Rightarrow> bool" where
  "ua_wf ua \<longleftrightarrow>
     (ua_resolved ua \<noteq> [] \<longrightarrow> ua_time ua \<noteq> None) \<and>
     (ua_time ua = None \<longleftrightarrow> ua_ttl ua = None) \<and>
     (case ua_ttl ua of None \<Rightarrow> True | Some l \<Rightarrow> 0 < l)"

lemma ua_wf_new: "ua_wf (upstream_address_new a)"
  by (simp add: ua_wf_def upstream_address_new_def)

lemma ua_wf_resolve: "ua_wf ua \<Longrightarrow> ua_wf (fst (snd (resolve ua m e)))"
  by (auto simp: ua_wf_def resolve_def Let_def split: sum.splits)

lemma is_valid_expiry:
  "ua_time ua = Some t \<Longrightarrow> ua_ttl ua = Some l \<Longrightarrow> 0 < l \<Longrightarrow>
     is_valid ua now \<longleftrightarrow> int now < int t + l"
  by (auto simp: is_valid_def elapsed_def)

lemma abs_cache_hit:
  assumes "ua_wf ua"
  shows "is_resolved ua \<and> is_valid ua now \<longleftrightarrow>
    (\<exists>expiry. abs_cache ua = Some (ua_resolved ua, expiry) \<and> int now < expiry)"
  using assms is_valid_expiry [of ua]
  by (cases "ua_time ua"; cases "ua_ttl ua") (auto simp: is_resolved_def abs_cache_def ua_wf_def)

lemma resolve_refines_cache:
  assumes wf: "ua_wf ua"
  shows "cache_resolve (abs_cache ua) (ua_address ua) m e =
    (fst (resolve ua m e), abs_cache (fst (snd (resolve ua m e))))"
proof (cases "ua_resolved ua = []")
  case True
  then show ?thesis
    by (auto simp: cache_resolve_def abs_cache_def resolve_def is_resolved_def Let_def
        split: sum.splits)
next
  case False
  with wf obtain t l where tl: "ua_time ua = Some t" "ua_ttl ua = Some l" "0 < l"
    by (auto simp: ua_wf_def split: option.splits)
  with False is_valid_expiry [OF tl, of "de_now e"] show ?thesis
    by (auto simp: cache_resolve_def abs_cache_def resolve_def is_resolved_def Let_def
        split: sum.splits)
qed

section \<open>Properties\<close>

abbreviation cache_step ::
  "string \<Rightarrow> ttl_cache \<Rightarrow> resolution_mode \<Rightarrow> dns_env \<Rightarrow>
     (io_error + sock_addr list) \<times> ttl_cache \<times> action list" where
  "cache_step host c m e \<equiv>
     (fst (cache_resolve c host m e), snd (cache_resolve c host m e), [])"

lemma resolve_run_refines:
  "ua_wf ua \<Longrightarrow> fst (resolve_run resolve m ua es) =
     fst (resolve_run (cache_step (ua_address ua)) m (abs_cache ua) es)"
proof (induction es arbitrary: ua)
  case (Cons e es)
  have "fst (resolve_run resolve m (fst (snd (resolve ua m e))) es) =
      fst (resolve_run (cache_step (ua_address ua)) m (abs_cache (fst (snd (resolve ua m e)))) es)"
    using Cons.IH [OF ua_wf_resolve [OF Cons.prems]] by simp
  then show ?case
    by (simp add: case_prod_unfold Let_def resolve_refines_cache [OF Cons.prems])
qed simp

text \<open>
  C21. Over any sequence of calls in one mode, starting from a new cache, the results of
  \<open>resolve\<close> are those of the abstract time-to-live cache: same hits, same lookups answered, same
  expiry of 60 s after a success and 3 s after a failure.
\<close>

theorem resolve_implements_ttl_cache:
  "fst (resolve_run resolve m (upstream_address_new host) es) =
   fst (resolve_run (cache_step host) m None es)"
  using resolve_run_refines [OF ua_wf_new, of m host es]
  by (simp add: upstream_address_new_def abs_cache_def)

text \<open>
  An upstream declared \<open>tcp4\<close> is only ever given IPv4 addresses, and one declared \<open>tcp6\<close>
  only IPv6 addresses: every successful answer, cached or fresh, of any sequence of calls in one
  mode is filtered to that mode.
\<close>

lemma resolve_respects_mode:
  assumes "Inr as \<in> set (fst (resolve_run resolve (mode_from_str scheme) (upstream_address_new host) es))"
  shows "(scheme = ''tcp4'' \<longrightarrow> list_all is_ipv4 as) \<and> (scheme = ''tcp6'' \<longrightarrow> list_all is_ipv6 as)"
  using dns.run_allowed [OF holds_mode_new assms]
  by (auto simp: mode_from_str_def list_all_iff)

text \<open>
  A successful answer that is not empty is served again, without a lookup, to every call
  that checks the clock less than 60 s after it was stored, whatever the resolver would say.
\<close>

lemma resolve_serves_fresh_answer:
  assumes "resolve ua m e = (Inr as, ua', [Lookup host])" and "as \<noteq> []"
    and "de_now e' < de_done e + from_secs 60"
  shows "resolve ua' m' e' = (Inr as, ua', [])"
proof -
  have "ua_resolved ua' = as" "ua_time ua' = Some (de_done e)" "ua_ttl ua' = Some success_ttl"
    using assms(1) by (auto simp: resolve_def Let_def split: if_splits sum.splits)
  moreover from this have "is_valid ua' (de_now e')"
    using assms(3) by (auto simp: is_valid_expiry success_ttl_def)
  ultimately show ?thesis using assms(2) by (simp add: resolve_hit is_resolved_def)
qed

text \<open>
  A failed lookup revives expired addresses: a cache that holds addresses and looks its host
  up in vain reports the error to that caller, and then serves the old addresses, as valid, to
  every call in the next 3 s.
\<close>

lemma failed_lookup_revives_expired_addresses:
  assumes "ua_resolved ua \<noteq> []" and "\<not> is_valid ua (de_now e)"
    and "de_lookup e (ua_address ua) = Inl err" and "de_now e' < de_done e + from_secs 3"
  shows "fst (resolve ua m e) = Inl err \<and>
    fst (resolve (fst (snd (resolve ua m e))) m e') = Inr (ua_resolved ua) \<and>
    snd (snd (resolve (fst (snd (resolve ua m e))) m e')) = []"
proof -
  from assms(2,3) have r: "resolve ua m e =
      (Inl err, ua\<lparr>ua_time := Some (de_done e), ua_ttl := Some error_ttl\<rparr>, [Lookup (ua_address ua)])"
    by (intro resolve_miss_error) auto
  have "int (de_now e' - de_done e) < error_ttl"
    using assms(4) by (simp add: error_ttl_def of_nat_less_iff [symmetric])
  then show ?thesis
    using assms(1) by (simp add: r resolve_hit is_resolved_def is_valid_stored)
qed

text \<open>
  There is no negative caching: while a cache holds no address, every call looks the host
  up, also in the 3 s after a failure in which the cache calls itself valid.
\<close>

lemma failed_lookup_is_not_cached:
  assumes "de_lookup e host = Inl err"
  shows "is_valid (fst (snd (resolve (upstream_address_new host) m e))) (de_done e) \<and>
    snd (snd (resolve (fst (snd (resolve (upstream_address_new host) m e))) m e')) = [Lookup host]"
  using assms
  by (auto simp: resolve_def upstream_address_new_def is_resolved_def is_valid_def elapsed_def Let_def
      split: sum.splits)

text \<open>
  \<open>time_remaining\<close>, read at one instant, is positive and at most the stored time to live
  exactly for a valid cache, and zero otherwise.
\<close>

lemma time_remaining_iff_valid:
  assumes "ua_wf ua"
  shows "(0 < time_remaining ua now now) = is_valid ua now \<and>
    (\<forall>l. ua_ttl ua = Some l \<longrightarrow> time_remaining ua now now \<le> l)"
  using assms
  by (auto simp: time_remaining_def is_valid_def elapsed_def ua_wf_def split: option.splits)

section \<open>Witnesses\<close>

definition up4 :: sock_addr where "up4 = V4 2130706433 80"
definition up6 :: sock_addr where "up6 = V6 1 80 0 0"

definition dns_up :: "instant \<Rightarrow> dns_env" where
  "dns_up t = \<lparr>de_now = t, de_lookup = (\<lambda>h. Inr [up4, up6]), de_done = t + 5\<rparr>"

definition dns_down :: "instant \<Rightarrow> dns_env" where
  "dns_down t = \<lparr>de_now = t, de_lookup = (\<lambda>h. Inl (Io_Error (OtherKind 0) ''no answer'')),
     de_done = t + 5\<rparr>"

lemmas dns_example_defs = dns_up_def dns_down_def up4_def up6_def resolve_def is_resolved_def
  is_valid_def elapsed_def upstream_address_new_def mode_from_str_def error_ttl_def success_ttl_def
  Let_def

definition ua_example :: upstream_address where
  "ua_example = \<lparr>ua_address = ''h:80'', ua_resolved = [up4], ua_time = Some 5,
     ua_ttl = Some success_ttl\<rparr>"

end
