(* ===== verification/Utf8.thy ===== *)
theory Utf8
  imports Prelude
begin

text \<open>
  What the program uses of Rust's UTF-8 support: \<open>String::from_utf8\<close> (\<open>get_sni\<close>),
  \<open>String::from_utf8_lossy\<close> and \<open>split_whitespace\<close> (\<open>parse_connect_status\<close>), and the search
  for the first \<open>char\<close> that fails a test (\<open>resolve_header_value\<close>). A byte sequence is cut into
  chunks, each either the encoding of one \<open>char\<close> or a maximal malformed prefix, which the lossy
  conversion replaces by U+FFFD. The lemmas show that cutting loses no byte, that the lossy
  result is well formed and leaves well-formed input alone, and that the decoder inverts the
  standard's encoder on every scalar value.
\<close>

section \<open>Cutting bytes into characters\<close>

definition byte :: "char \<Rightarrow> nat" where
  "byte c = of_char c"

definition cont :: "char \<Rightarrow> bool" where
  "cont c \<longleftrightarrow> 128 \<le> byte c \<and> byte c \<le> 191"

text \<open>The length a first byte announces; 0 for a byte that starts no character.\<close>

definition utf8_width :: "char \<Rightarrow> nat" where
  "utf8_width b =
     (if byte b < 128 then 1
      else if 194 \<le> byte b \<and> byte b \<le> 223 then 2
      else if 224 \<le> byte b \<and> byte b \<le> 239 then 3
      else if 240 \<le> byte b \<and> byte b \<le> 244 then 4
      else 0)"

text \<open>The second bytes a first byte allows: no overlong form, no surrogate, at most U+10FFFF.\<close>

definition second_ok :: "char \<Rightarrow> char \<Rightarrow> bool" where
  "second_ok b c \<longleftrightarrow> cont c \<and>
     (byte b = 224 \<longrightarrow> 160 \<le> byte c) \<and>
     (byte b = 237 \<longrightarrow> byte c \<le> 159) \<and>
     (byte b = 240 \<longrightarrow> 144 \<le> byte c) \<and>
     (byte b = 244 \<longrightarrow> byte c \<le> 143)"

text \<open>The first chunk of a non-empty sequence: whether it is a character, and its length.\<close>

fun utf8_head :: "bytes \<Rightarrow> bool \<times> nat" where
  "utf8_head [] = (False, 0)"
| "utf8_head (b # bs) =
     (if utf8_width b = 1 then (True, 1)
      else if utf8_width b = 0 then (False, 1)
      else case bs of
        [] \<Rightarrow> (False, 1)
      | c # cs \<Rightarrow>
          if \<not> second_ok b c then (False, 1)
          else if utf8_width b = 2 then (True, 2)
          else case cs of
            [] \<Rightarrow> (False, 2)
          | d # ds \<Rightarrow>
              if \<not> cont d then (False, 2)
              else if utf8_width b = 3 then (True, 3)
              else case ds of
                [] \<Rightarrow> (False, 3)
              | e # es \<Rightarrow> if cont e then (True, 4) else (False, 3))"

lemma utf8_head_length:
  "utf8_head s = (v, n) \<Longrightarrow> s \<noteq> [] \<Longrightarrow> 1 \<le> n \<and> n \<le> length s"
  by (cases s) (auto split: if_splits list.splits)

function utf8_chunks :: "bytes \<Rightarrow> (bool \<times> bytes) list" where
  "utf8_chunks s =
     (if s = [] then []
      else (fst (utf8_head s), take (snd (utf8_head s)) s) # utf8_chunks (drop (snd (utf8_head s)) s))"
  by pat_completeness auto
termination
proof (relation "measure length")
  fix s :: bytes
  assume "s \<noteq> []"
  moreover from this have "1 \<le> snd (utf8_head s)"
    using utf8_head_length [of s] by (metis prod.collapse)
  ultimately show "(drop (snd (utf8_head s)) s, s) \<in> measure length"
    by simp
qed simp

declare utf8_chunks.simps [simp del]

lemma utf8_chunks_Nil [simp]: "utf8_chunks [] = []"
  by (simp add: utf8_chunks.simps)

lemma concat_utf8_chunks: "concat (map snd (utf8_chunks s)) = s"
proof (induction s rule: utf8_chunks.induct)
  case (1 s)
  then show ?case by (cases "s = []") (simp_all add: utf8_chunks.simps [of s])
qed

text \<open>\<open>String::from_utf8\<close> and \<open>String::from_utf8_lossy\<close>.\<close>

definition utf8_valid :: "bytes \<Rightarrow> bool" where
  "utf8_valid s \<longleftrightarrow> list_all fst (utf8_chunks s)"

definition from_utf8 :: "bytes \<Rightarrow> string option" where
  "from_utf8 s = (if utf8_valid s then Some s else None)"

definition replacement :: string where
  "replacement = [CHR 0xEF, CHR 0xBF, CHR 0xBD]"

definition from_utf8_lossy :: "bytes \<Rightarrow> string" where
  "from_utf8_lossy s = concat (map (\<lambda>(v, c). if v then c else replacement) (utf8_chunks s))"

text \<open>The characters of a string, each as its encoding.\<close>

definition chars_of :: "string \<Rightarrow> string list" where
  "chars_of s = map snd (utf8_chunks s)"

text \<open>The code point of one encoded character.\<close>

fun code_point :: "string \<Rightarrow> nat" where
  "code_point [a] = byte a"
| "code_point [a, b] = (byte a mod 32) * 64 + byte b mod 64"
| "code_point [a, b, c] = (byte a mod 16) * 4096 + (byte b mod 64) * 64 + byte c mod 64"
| "code_point [a, b, c, d] =
     (byte a mod 8) * 262144 + (byte b mod 64) * 4096 + (byte c mod 64) * 64 + byte d mod 64"
| "code_point _ = 0"

section \<open>Well-formed characters\<close>

definition is_char :: "string \<Rightarrow> bool" where
  "is_char c \<longleftrightarrow> c \<noteq> [] \<and> utf8_head c = (True, length c)"

lemma utf8_head_append:
  "utf8_head c = (True, n) \<Longrightarrow> utf8_head (c @ s) = (True, n)"
  by (cases c) (auto split: if_splits list.splits)

lemma utf8_chunks_char_append:
  assumes "is_char c"
  shows "utf8_chunks (c @ s) = (True, c) # utf8_chunks s"
proof -
  from assms have "c @ s \<noteq> []" and "utf8_head (c @ s) = (True, length c)"
    by (auto simp: is_char_def utf8_head_append)
  then show ?thesis by (subst utf8_chunks.simps) simp
qed

lemma utf8_head_take:
  assumes "utf8_head s = (True, n)" and "s \<noteq> []"
  shows "is_char (take n s)"
proof -
  obtain b bs where s: "s = b # bs" using assms(2) by (cases s) auto
  show ?thesis
  proof (cases "utf8_width b = 1")
    case True
    with assms(1) show ?thesis by (auto simp: s is_char_def)
  next
    case False
    with assms(1) show ?thesis by (auto simp: s is_char_def split: if_splits list.splits)
  qed
qed

lemma utf8_chunks_chars: "(True, c) \<in> set (utf8_chunks s) \<Longrightarrow> is_char c"
proof (induction s rule: utf8_chunks.induct)
  case (1 s)
  show ?case
  proof (cases "s = []")
    case True
    with "1.prems" show ?thesis by simp
  next
    case False
    with "1" utf8_head_take [of s "snd (utf8_head s)"] show ?thesis
      by (auto simp: utf8_chunks.simps [of s] prod_eq_iff)
  qed
qed

lemma utf8_chunks_concat:
  "list_all is_char cs \<Longrightarrow> utf8_chunks (concat cs) = map (Pair True) cs"
  by (induction cs) (auto simp: utf8_chunks_char_append)

lemma utf8_valid_concat: "list_all is_char cs \<Longrightarrow> utf8_valid (concat cs)"
  by (simp add: utf8_valid_def utf8_chunks_concat list_all_iff)

lemma utf8_valid_iff: "utf8_valid s \<longleftrightarrow> (\<exists>cs. list_all is_char cs \<and> s = concat cs)"
proof
  assume "utf8_valid s"
  then have "list_all is_char (map snd (utf8_chunks s))"
    using utf8_chunks_chars [of _ s] by (fastforce simp: utf8_valid_def list_all_iff)
  then show "\<exists>cs. list_all is_char cs \<and> s = concat cs"
    using concat_utf8_chunks [of s] by metis
qed (auto intro: utf8_valid_concat)

lemma utf8_valid_append: "utf8_valid s \<Longrightarrow> utf8_valid t \<Longrightarrow> utf8_valid (s @ t)"
  by (auto simp: utf8_valid_iff) (metis concat_append list_all_append)

lemma chars_of_concat: "list_all is_char cs \<Longrightarrow> chars_of (concat cs) = cs"
  by (simp add: chars_of_def utf8_chunks_concat o_def)

section \<open>The two conversions\<close>

lemma replacement_is_char: "is_char replacement"
  by (simp add: is_char_def replacement_def utf8_width_def second_ok_def cont_def byte_def)

lemma from_utf8_lossy_valid: "utf8_valid (from_utf8_lossy s)"
proof -
  have "list_all is_char (map (\<lambda>(v, c). if v then c else replacement) (utf8_chunks s))"
    using utf8_chunks_chars [of _ s] replacement_is_char by (auto simp: list_all_iff)
  then show ?thesis by (auto simp: from_utf8_lossy_def intro: utf8_valid_concat)
qed

lemma from_utf8_lossy_id: "utf8_valid s \<Longrightarrow> from_utf8_lossy s = s"
proof -
  assume v: "utf8_valid s"
  have "map (\<lambda>(v, c). if v then c else replacement) (utf8_chunks s) = map snd (utf8_chunks s)"
    using v by (auto simp: utf8_valid_def list_all_iff)
  then have "from_utf8_lossy s = concat (map snd (utf8_chunks s))"
    by (simp only: from_utf8_lossy_def)
  then show ?thesis by (simp add: concat_utf8_chunks)
qed

lemma from_utf8_Some [simp]: "from_utf8 s = Some t \<longleftrightarrow> utf8_valid s \<and> t = s"
  by (auto simp: from_utf8_def)

lemma from_utf8_None [simp]: "from_utf8 s = None \<longleftrightarrow> \<not> utf8_valid s"
  by (simp add: from_utf8_def)

section \<open>ASCII\<close>

definition ascii :: "char \<Rightarrow> bool" where
  "ascii c \<longleftrightarrow> byte c < 128"

lemma is_char_ascii: "ascii c \<Longrightarrow> is_char [c]"
  by (simp add: is_char_def ascii_def utf8_width_def)

lemma utf8_chunks_ascii: "list_all ascii s \<Longrightarrow> utf8_chunks s = map (\<lambda>c. (True, [c])) s"
  by (induction s) (use utf8_chunks_char_append [of "[_]"] in \<open>auto simp: is_char_ascii\<close>)

lemma utf8_valid_ascii: "list_all ascii s \<Longrightarrow> utf8_valid s"
  by (simp add: utf8_valid_def utf8_chunks_ascii list_all_iff)

text \<open>An ASCII byte of a valid string is a character, so the string can be cut on either side of it.\<close>

lemma ascii_in_char: "is_char c \<Longrightarrow> a \<in> set c \<Longrightarrow> ascii a \<Longrightarrow> c = [a]"
proof -
  assume c: "is_char c" and a: "a \<in> set c" "ascii a"
  then obtain b bs where bs: "c = b # bs" by (cases c) auto
  show "c = [a]"
  proof (cases "utf8_width b = 1")
    case True
    with c a show ?thesis by (auto simp: bs is_char_def)
  next
    case False
    with c a show ?thesis
      by (auto simp: bs is_char_def ascii_def utf8_width_def second_ok_def cont_def length_Suc_conv
          split: if_splits list.splits)
  qed
qed

lemma utf8_valid_split_ascii:
  assumes "ascii a" and "utf8_valid (pre @ a # suf)"
  shows "utf8_valid pre" and "utf8_valid suf"
proof -
  have "utf8_valid pre \<and> utf8_valid suf" if "list_all is_char cs" "concat cs = pre @ a # suf" for cs pre
    using that
  proof (induction cs arbitrary: pre)
    case (Cons c cs)
    show ?case
    proof (cases "a \<in> set c")
      case True
      with Cons.prems ascii_in_char [OF _ True assms(1)] have c: "c = [a]" by simp
      show ?thesis
      proof (cases pre)
        case Nil
        with c Cons.prems show ?thesis by (auto simp: utf8_valid_concat utf8_valid_ascii)
      next
        case (Cons x pre')
        with c Cons.prems Cons.IH [of pre'] assms(1) have "x = a" "utf8_valid pre' \<and> utf8_valid suf" by simp_all
        with Cons utf8_valid_append [of "[a]" pre'] assms(1) show ?thesis by (simp add: utf8_valid_ascii)
      qed
    next
      case False
      have "c @ concat cs = pre @ a # suf" using Cons.prems(2) by simp
      then consider us where "c = pre @ us" "us @ concat cs = a # suf"
        | us where "pre = c @ us" "concat cs = us @ a # suf"
        by (auto simp: append_eq_append_conv2)
      then obtain pre' where pre: "pre = c @ pre'" "concat cs = pre' @ a # suf"
      proof cases
        case 1
        with False that [of "[]"] show ?thesis by (cases us) auto
      qed (rule that)
      with Cons.IH [of pre'] Cons.prems utf8_valid_append [of c pre'] utf8_valid_concat [of "[c]"]
      show ?thesis by simp
    qed
  qed simp
  moreover obtain cs where "list_all is_char cs" "concat cs = pre @ a # suf"
    using assms(2) unfolding utf8_valid_iff by metis
  ultimately show "utf8_valid pre" and "utf8_valid suf" by blast+
qed

lemma ascii_dollar: "ascii (CHR ''$'')"
  by (simp add: ascii_def byte_def)

lemma chars_of_valid: "utf8_valid s \<Longrightarrow> list_all is_char (chars_of s)"
  by (auto simp: utf8_valid_iff chars_of_concat)

lemma concat_chars_of: "concat (chars_of s) = s"
  by (simp add: chars_of_def concat_utf8_chunks)

lemma chars_of_ascii: "list_all ascii s \<Longrightarrow> chars_of s = map (\<lambda>c. [c]) s"
  by (simp add: chars_of_def utf8_chunks_ascii o_def)

section \<open>The decoder inverts the standard's encoder\<close>

definition utf8_encode :: "nat \<Rightarrow> string" where
  "utf8_encode n =
     (if n < 128 then [char_of n]
      else if n < 2048 then [char_of (192 + n div 64), char_of (128 + n mod 64)]
      else if n < 65536 then
        [char_of (224 + n div 4096), char_of (128 + n div 64 mod 64), char_of (128 + n mod 64)]
      else
        [char_of (240 + n div 262144), char_of (128 + n div 4096 mod 64),
         char_of (128 + n div 64 mod 64), char_of (128 + n mod 64)])"

definition scalar_value :: "nat \<Rightarrow> bool" where
  "scalar_value n \<longleftrightarrow> n < 55296 \<or> (57344 \<le> n \<and> n < 1114112)"

lemma byte_char_of [simp]: "n < 256 \<Longrightarrow> byte (char_of n) = n"
  by (simp add: byte_def)

lemmas utf8_head_defs = utf8_width_def second_ok_def cont_def

text \<open>The digits to base 64 that the encoder writes.\<close>

lemma utf8_digits:
  fixes a b c d :: nat
  assumes "b < 64" and "c < 64" and "d < 64" and n: "n = a * 262144 + b * 4096 + c * 64 + d"
  shows "n div 262144 = a" "n div 4096 mod 64 = b" "n div 64 mod 64 = c" "n mod 64 = d"
proof -
  have 1: "n div 64 = a * 4096 + b * 64 + c" using assms by simp
  have 2: "n div 4096 = a * 64 + b"
  proof -
    have "n div 4096 = n div 64 div 64" by (simp add: div_mult2_eq [symmetric])
    with 1 assms show ?thesis by simp
  qed
  have 3: "n div 262144 = n div 4096 div 64" by (simp add: div_mult2_eq [symmetric])
  show "n div 262144 = a" using 2 3 assms by simp
  show "n div 4096 mod 64 = b" using 2 assms by simp
  show "n div 64 mod 64 = c" using 1 assms by (simp add: mod_add_eq [symmetric] mod_mult_right_eq)
  show "n mod 64 = d"
  proof -
    have "n = d + 64 * (a * 4096 + b * 64 + c)" using n by simp
    then show ?thesis using assms by (metis mod_less mod_mult_self2)
  qed
qed

lemma utf8_digits_exist:
  obtains a b c d :: nat where "b < 64" "c < 64" "d < 64" "n = a * 262144 + b * 4096 + c * 64 + d"
proof
  show "n div 4096 mod 64 < 64" "n div 64 mod 64 < 64" "n mod 64 < 64" by simp_all
  have "n = n div 64 * 64 + n mod 64" by simp
  moreover have "n div 64 = n div 4096 * 64 + n div 64 mod 64"
    using div_mult_mod_eq [of "n div 64" 64] by (simp add: div_mult2_eq [symmetric])
  moreover have "n div 4096 = n div 262144 * 64 + n div 4096 mod 64"
    using div_mult_mod_eq [of "n div 4096" 64] by (simp add: div_mult2_eq [symmetric])
  ultimately show
    "n = n div 262144 * 262144 + n div 4096 mod 64 * 4096 + n div 64 mod 64 * 64 + n mod 64"
    by linarith
qed

lemma strip_tag_bits:
  fixes x :: nat
  shows "x < 64 \<Longrightarrow> (128 + x) mod 64 = x" "x < 32 \<Longrightarrow> (192 + x) mod 32 = x"
    "x < 16 \<Longrightarrow> (224 + x) mod 16 = x" "x < 8 \<Longrightarrow> (240 + x) mod 8 = x"
  using mod_mult_self2 [of x 64 2] mod_mult_self2 [of x 32 6] mod_mult_self2 [of x 16 14]
    mod_mult_self2 [of x 8 30]
  by (simp_all add: add.commute)

text \<open>One lemma for each length of encoding.\<close>

lemma cont_char_of: "x < 64 \<Longrightarrow> cont (char_of (128 + x :: nat))"
  by (simp add: cont_def)

lemma utf8_two:
  assumes "2 \<le> c" "c < 32" "d < 64"
  shows "is_char [char_of (192 + c), char_of (128 + d)] \<and>
    code_point [char_of (192 + c), char_of (128 + d)] = c * 64 + d"
proof
  have "utf8_width (char_of (192 + c)) = 2" using assms(1,2) by (simp add: utf8_width_def)
  moreover have "second_ok (char_of (192 + c)) (char_of (128 + d))"
    using assms by (auto simp: second_ok_def cont_def)
  ultimately show "is_char [char_of (192 + c), char_of (128 + d)]"
    by (simp add: is_char_def)
  show "code_point [char_of (192 + c), char_of (128 + d)] = c * 64 + d"
    using assms by (simp add: strip_tag_bits)
qed

lemma utf8_three:
  assumes "b < 16" "c < 64" "d < 64" "b = 0 \<Longrightarrow> 32 \<le> c" "b = 13 \<Longrightarrow> c < 32"
  shows "is_char [char_of (224 + b), char_of (128 + c), char_of (128 + d)] \<and>
    code_point [char_of (224 + b), char_of (128 + c), char_of (128 + d)] = b * 4096 + c * 64 + d"
proof
  have "utf8_width (char_of (224 + b)) = 3" using assms(1) by (simp add: utf8_width_def)
  moreover have "second_ok (char_of (224 + b)) (char_of (128 + c))"
    using assms by (auto simp: second_ok_def cont_def)
  ultimately show "is_char [char_of (224 + b), char_of (128 + c), char_of (128 + d)]"
    using assms(3) by (simp add: is_char_def cont_char_of)
  show "code_point [char_of (224 + b), char_of (128 + c), char_of (128 + d)] =
      b * 4096 + c * 64 + d"
    using assms(1-3) by (simp add: strip_tag_bits)
qed

lemma utf8_four:
  assumes "a < 5" "b < 64" "c < 64" "d < 64" "a = 0 \<Longrightarrow> 16 \<le> b" "a = 4 \<Longrightarrow> b < 16"
  shows "is_char [char_of (240 + a), char_of (128 + b), char_of (128 + c), char_of (128 + d)] \<and>
    code_point [char_of (240 + a), char_of (128 + b), char_of (128 + c), char_of (128 + d)] =
      a * 262144 + b * 4096 + c * 64 + d"
proof
  have "utf8_width (char_of (240 + a)) = 4" using assms(1) by (simp add: utf8_width_def)
  moreover have "second_ok (char_of (240 + a)) (char_of (128 + b))"
    using assms by (auto simp: second_ok_def cont_def)
  ultimately show
    "is_char [char_of (240 + a), char_of (128 + b), char_of (128 + c), char_of (128 + d)]"
    using assms(3,4) by (simp add: is_char_def cont_char_of)
  show "code_point [char_of (240 + a), char_of (128 + b), char_of (128 + c), char_of (128 + d)] =
      a * 262144 + b * 4096 + c * 64 + d"
    using assms(1-4) by (simp add: strip_tag_bits)
qed

lemma utf8_encode_decode:
  assumes sv: "scalar_value n"
  shows "is_char (utf8_encode n) \<and> code_point (utf8_encode n) = n"
proof -
  obtain a b c d where bounds: "b < 64" "c < 64" "d < 64"
    and n: "n = a * 262144 + b * 4096 + c * 64 + d"
    by (rule utf8_digits_exist)
  note digits = utf8_digits [OF bounds n]
  have top: "a < 5" "a = 4 \<Longrightarrow> b < 16" "a = 0 \<Longrightarrow> b = 13 \<Longrightarrow> c < 32"
    using sv n bounds by (auto simp: scalar_value_def)
  consider "n < 128" | "128 \<le> n" "n < 2048" | "2048 \<le> n" "n < 65536" | "65536 \<le> n"
    by linarith
  then show ?thesis
  proof cases
    case 1
    then show ?thesis by (simp add: utf8_encode_def is_char_def utf8_width_def)
  next
    case 2
    then have z: "a = 0" "b = 0" using n by linarith+
    have c: "2 \<le> c" "c < 32" using 2 n bounds z by auto
    have "n div 64 = c" using digits(3) c z n bounds by simp
    then have "utf8_encode n = [char_of (192 + c), char_of (128 + d)]"
      using 2 digits(4) by (simp add: utf8_encode_def)
    with utf8_two [OF c bounds(3)] show ?thesis by (simp only: n z) simp
  next
    case 3
    then have z: "a = 0" using n by linarith
    have b: "b < 16" "b = 0 \<Longrightarrow> 32 \<le> c" "b = 13 \<Longrightarrow> c < 32" using 3 n bounds z top(3) by auto
    have "n div 4096 = b" using n z bounds by simp
    then have "utf8_encode n = [char_of (224 + b), char_of (128 + c), char_of (128 + d)]"
      using 3 digits(3,4) by (simp add: utf8_encode_def)
    with utf8_three [OF b(1) bounds(2,3) b(2,3)] show ?thesis by (simp only: n z) simp
  next
    case 4
    then have b: "a = 0 \<Longrightarrow> 16 \<le> b" using n bounds by auto
    have "utf8_encode n =
        [char_of (240 + a), char_of (128 + b), char_of (128 + c), char_of (128 + d)]"
      using 4 digits by (simp add: utf8_encode_def)
    with utf8_four [OF top(1) bounds b top(2)] show ?thesis by (simp only: n)
  qed
qed

section \<open>Classes of characters\<close>

text \<open>\<open>char::is_whitespace\<close>: Unicode's \<open>White_Space\<close>.\<close>

definition is_whitespace :: "string \<Rightarrow> bool" where
  "is_whitespace c \<longleftrightarrow>
     (let n = code_point c in
      (9 \<le> n \<and> n \<le> 13) \<or> n = 32 \<or> n = 133 \<or> n = 160 \<or> n = 5760 \<or>
      (8192 \<le> n \<and> n \<le> 8202) \<or> n = 8232 \<or> n = 8233 \<or> n = 8239 \<or> n = 8287 \<or> n = 12288)"

text \<open>
  \<open>char::is_alphanumeric\<close>: letters and digits in ASCII; beyond ASCII the standard library
  consults its Unicode tables, here the argument \<open>tbl\<close>.
\<close>

definition is_alphanumeric :: "(nat \<Rightarrow> bool) \<Rightarrow> string \<Rightarrow> bool" where
  "is_alphanumeric tbl c \<longleftrightarrow>
     (let n = code_point c in
      if n < 128 then (48 \<le> n \<and> n \<le> 57) \<or> (65 \<le> n \<and> n \<le> 90) \<or> (97 \<le> n \<and> n \<le> 122)
      else tbl n)"

fun split_on :: "('a \<Rightarrow> bool) \<Rightarrow> 'a list \<Rightarrow> 'a list list" where
  "split_on p [] = [[]]"
| "split_on p (x # xs) =
     (if p x then [] # split_on p xs
      else case split_on p xs of [] \<Rightarrow> [[x]] | ys # yss \<Rightarrow> (x # ys) # yss)"

text \<open>\<open>str::split_whitespace\<close>: the pieces between whitespace that are not empty.\<close>

definition split_whitespace :: "string \<Rightarrow> string list" where
  "split_whitespace s = filter (\<lambda>w. w \<noteq> []) (map concat (split_on is_whitespace (chars_of s)))"

lemma split_on_nonempty [simp]: "split_on p xs \<noteq> []"
  by (cases xs) (auto split: list.splits)

lemma split_on_free: "list_all (\<lambda>x. \<not> p x) xs \<Longrightarrow> split_on p xs = [xs]"
  by (induction xs) auto

lemma split_on_append:
  "list_all (\<lambda>x. \<not> p x) xs \<Longrightarrow> p y \<Longrightarrow> split_on p (xs @ y # ys) = xs # split_on p ys"
  by (induction xs) auto

text \<open>Splitting off a first word that holds no whitespace.\<close>

lemma split_whitespace_word:
  assumes "list_all is_char ws" and "list_all (\<lambda>c. \<not> is_whitespace c) ws" and "ws \<noteq> []"
    and "is_char sp" and "is_whitespace sp"
  shows "split_whitespace (concat ws @ sp @ rest) = concat ws # split_whitespace rest"
proof -
  have ch: "chars_of (concat ws @ sp @ rest) = ws @ sp # chars_of rest"
    using assms(1)
    by (induction ws)
      (simp_all add: chars_of_def utf8_chunks_char_append assms(4))
  have "concat ws \<noteq> []"
    using assms(1,3) by (cases ws) (auto simp: is_char_def)
  then show ?thesis
    using split_on_append [OF assms(2,5), of "chars_of rest"] by (simp add: split_whitespace_def ch)
qed

end
