(* ===== verification/Http_Connect.thy ===== *)
theory Http_Connect
  imports Utf8 "HOL-Library.Sublist"
begin

text \<open>
  \<open>src/upstreams/proxy_to_upstream/http.rs\<close>: the CONNECT handshake with an upstream proxy.

  The request is built from the target and the configured headers, whose values may name an
  environment variable; it is written in a loop over partial writes, and the response is read in
  a loop over partial reads until its blank line arrives or the 16384-byte buffer is full. A
  socket is a list of events, one for each iteration of a loop: what \<open>writable\<close> or \<open>readable\<close> and the
  following \<open>try_write\<close> or \<open>try_read\<close> answer. When the list ends, the task is still waiting, which
  is the outcome \<open>Pending\<close>. The lemmas show what is written, that the read loop cannot outrun its
  buffer and ends within 16384 bytes, which status codes open the tunnel, and that the parser
  reads back every status it is given.
\<close>

section \<open>Header values\<close>

text \<open>\<open>std::env::var\<close> and the Unicode table behind \<open>char::is_alphanumeric\<close> are arguments.\<close>

type_synonym env_vars = "string \<Rightarrow> var_error + string"

text \<open>The slices \<open>prefix\<close> (here \<open>pre\<close>), \<open>var_name\<close> and \<open>suffix\<close> of the value, if it has a placeholder.\<close>

definition split_placeholder :: "(nat \<Rightarrow> bool) \<Rightarrow> string \<Rightarrow> (string \<times> string \<times> string) option" where
  "split_placeholder tbl value =
     (case dropWhile (\<lambda>c. c \<noteq> CHR ''$'') value of
        [] \<Rightarrow> None
      | dollar # after_dollar \<Rightarrow>
          (let name_len = length (concat (takeWhile (\<lambda>c. is_alphanumeric tbl c \<or> c = ''_'')
                             (chars_of after_dollar))) in
           if name_len = 0 then None
           else Some (takeWhile (\<lambda>c. c \<noteq> CHR ''$'') value, take name_len after_dollar,
             drop name_len after_dollar)))"

definition resolve_header_value ::
  "(nat \<Rightarrow> bool) \<Rightarrow> env_vars \<Rightarrow> string \<Rightarrow> boxed_error + string" where
  "resolve_header_value tbl env value =
     (case split_placeholder tbl value of
        None \<Rightarrow> Inr value
      | Some (pre, var_name, suf) \<Rightarrow>
          (case env var_name of
             Inr v \<Rightarrow> Inr (pre @ v @ suf)
           | Inl e \<Rightarrow> Inl (Boxed_Var e)))"

section \<open>The request\<close>

fun push_headers ::
  "(nat \<Rightarrow> bool) \<Rightarrow> env_vars \<Rightarrow> string \<Rightarrow> (string, string) hash_map \<Rightarrow> boxed_error + string" where
  "push_headers tbl env buf [] = Inr buf"
| "push_headers tbl env buf ((name, value) # hs) =
     (case resolve_header_value tbl env value of
        Inl e \<Rightarrow> Inl e
      | Inr v \<Rightarrow> push_headers tbl env (buf @ name @ '': '' @ v @ crlf) hs)"

definition connect_request ::
  "(nat \<Rightarrow> bool) \<Rightarrow> env_vars \<Rightarrow> string \<Rightarrow> (string, string) hash_map \<Rightarrow> boxed_error + string" where
  "connect_request tbl env target headers =
     (case push_headers tbl env (''CONNECT '' @ target @ '' HTTP/1.1'' @ crlf) headers of
        Inl e \<Rightarrow> Inl e
      | Inr buf \<Rightarrow> Inr (buf @ crlf))"

section \<open>The write loop\<close>

text \<open>
  One iteration: \<open>writable\<close> fails, or \<open>try_write\<close> takes \<open>n\<close> bytes, would block, or fails. A
  socket takes at most what it is offered, which \<open>min\<close> states.
\<close>

datatype write_event =
    Writable_Err io_error
  | Try_Write nat
  | Write_Err io_error

fun write_loop :: "bytes \<Rightarrow> nat \<Rightarrow> write_event list \<Rightarrow> (action, unit) io" where
  "write_loop buf written [] = (if written < length buf then (Pending, []) else io_ret ())"
| "write_loop buf written (ev # evs) =
     (if written < length buf then
        (case ev of
           Writable_Err e \<Rightarrow> io_fail (Boxed_Io e)
         | Try_Write n \<Rightarrow>
             (let k = min n (length buf - written) in
              if k = 0 then io_ret ()
              else io_bind (io_act (Up_Write (take k (drop written buf))))
                     (\<lambda>_. write_loop buf (written + k) evs))
         | Write_Err e \<Rightarrow>
             (if err_kind e = WouldBlock then write_loop buf written evs
              else io_fail (Boxed_Io e)))
      else io_ret ())"

section \<open>The read loop\<close>

text \<open>
  One iteration: \<open>readable\<close> fails, or \<open>try_read\<close> finds bytes (none at end of stream), would block,
  or fails. Of the bytes available a read takes what fits in the rest of the buffer.
\<close>

datatype read_event =
    Readable_Err io_error
  | Try_Read bytes
  | Read_Err io_error

definition inbufs_len :: nat where
  "inbufs_len = 16384"

text \<open>\<open>windows(4).any(|w| w == b"\r\n\r\n")\<close>.\<close>

fun has_blank_line :: "bytes \<Rightarrow> bool" where
  "has_blank_line (a # b # c # d # s) =
     ([a, b, c, d] = crlf @ crlf \<or> has_blank_line (b # c # d # s))"
| "has_blank_line _ = False"

text \<open>The status code: the second word of the response.\<close>

fun int_error_display :: "int_error \<Rightarrow> string" where
  "int_error_display Int_Empty = ''cannot parse integer from empty string''"
| "int_error_display Int_InvalidDigit = ''invalid digit found in string''"
| "int_error_display Int_PosOverflow = ''number too large to fit in target type''"

definition parse_connect_status :: "bytes \<Rightarrow> boxed_error + u16" where
  "parse_connect_status buf =
     (let text = from_utf8_lossy buf in
      case split_whitespace text of
        _ # status_str # _ \<Rightarrow>
          (case parse_u16 status_str of
             Inr n \<Rightarrow> Inr n
           | Inl e \<Rightarrow> Inl (Proxy_Error (''malformed CONNECT response status '' @ [CHR 0x27] @
                          status_str @ [CHR 0x27] @ '': '' @ int_error_display e)))
      | _ \<Rightarrow> Inl (Proxy_Error ''malformed CONNECT response: no status code''))"

definition lift_err :: "boxed_error + 'a \<Rightarrow> (action, 'a) io" where
  "lift_err r = (case r of Inl e \<Rightarrow> io_fail e | Inr a \<Rightarrow> io_ret a)"

text \<open>The accumulated bytes are \<open>inbufs[..total]\<close>; the loop returns the status and them.\<close>

fun read_loop :: "bytes \<Rightarrow> read_event list \<Rightarrow> (action, u16 \<times> bytes) io" where
  "read_loop acc [] = (Pending, [])"
| "read_loop acc (Readable_Err e # evs) = io_fail (Boxed_Io e)"
| "read_loop acc (Try_Read avail # evs) =
     (let d = take (inbufs_len - length acc) avail in
      if d = [] then
        io_fail (Proxy_Error ''upstream proxy closed connection before sending CONNECT response'')
      else io_bind (io_act (Up_Read d)) (\<lambda>_.
        if has_blank_line (acc @ d) then
          io_bind (lift_err (parse_connect_status (acc @ d))) (\<lambda>status. io_ret (status, acc @ d))
        else if inbufs_len \<le> length (acc @ d) then
          io_fail (Proxy_Error ''CONNECT response header too large'')
        else read_loop (acc @ d) evs))"
| "read_loop acc (Read_Err e # evs) =
     (if err_kind e = WouldBlock then read_loop acc evs else io_fail (Boxed_Io e))"

section \<open>The handshake\<close>

definition check_status :: "u16 \<Rightarrow> (action, unit) io" where
  "check_status status =
     (if 200 \<le> status \<and> status \<le> 299 then io_ret ()
      else if status = 403 then
        io_fail (Proxy_Error ''Got: ERR_ACCESS_DENIED. Proxy requires authentication.'')
      else if status = 502 then io_fail (Proxy_Error ''Got: 502 Bad Gateway.'')
      else if status = 503 then io_fail (Proxy_Error ''Got: 503 Service Unavailable.'')
      else io_fail (Proxy_Error (''upstream proxy returned status '' @ show_nat (unat status))))"

definition http_connect ::
  "(nat \<Rightarrow> bool) \<Rightarrow> env_vars \<Rightarrow> string \<Rightarrow> (string, string) hash_map \<Rightarrow>
     write_event list \<Rightarrow> read_event list \<Rightarrow> (action, unit) io" where
  "http_connect tbl env target headers wevs revs =
     io_bind (lift_err (connect_request tbl env target headers)) (\<lambda>buf.
     io_bind (write_loop buf 0 wevs) (\<lambda>_.
     io_bind (read_loop [] revs) (\<lambda>(status, inbufs).
     check_status status)))"

section \<open>What is sent\<close>

definition up_written :: "action list \<Rightarrow> bytes" where
  "up_written t = concat (map (\<lambda>a. case a of Up_Write b \<Rightarrow> b | _ \<Rightarrow> []) t)"

definition up_read :: "action list \<Rightarrow> bytes" where
  "up_read t = concat (map (\<lambda>a. case a of Up_Read b \<Rightarrow> b | _ \<Rightarrow> []) t)"

lemma up_written_simps [simp]:
  "up_written [] = []" "up_written (Up_Write b # t) = b @ up_written t"
  "up_written (Up_Read b # t) = up_written t" "up_written (t @ t') = up_written t @ up_written t'"
  by (simp_all add: up_written_def)

lemma up_read_simps [simp]:
  "up_read [] = []" "up_read (Up_Read b # t) = b @ up_read t"
  "up_read (Up_Write b # t) = up_read t" "up_read (t @ t') = up_read t @ up_read t'"
  by (simp_all add: up_read_def)

lemma lift_err_simps [simp]: "lift_err (Inl e) = io_fail e" "lift_err (Inr a) = io_ret a"
  by (simp_all add: lift_err_def)

lemma snd_lift_err [simp]: "snd (lift_err r) = []"
  by (cases r) simp_all

fun header_line :: "string \<times> string \<Rightarrow> string" where
  "header_line (name, v) = name @ '': '' @ v @ crlf"

text \<open>The headers with their values resolved, or the first error.\<close>

fun resolved_headers ::
  "(nat \<Rightarrow> bool) \<Rightarrow> env_vars \<Rightarrow> (string, string) hash_map \<Rightarrow> boxed_error + (string \<times> string) list" where
  "resolved_headers tbl env [] = Inr []"
| "resolved_headers tbl env ((name, value) # hs) =
     (case resolve_header_value tbl env value of
        Inl e \<Rightarrow> Inl e
      | Inr v \<Rightarrow> map_sum id (Cons (name, v)) (resolved_headers tbl env hs))"

lemma push_headers_eq:
  "push_headers tbl env buf hs =
     map_sum id (\<lambda>rs. buf @ concat (map header_line rs)) (resolved_headers tbl env hs)"
proof (induction hs arbitrary: buf)
  case (Cons h hs)
  obtain n v where h: "h = (n, v)" by (cases h)
  show ?case
    by (cases "resolve_header_value tbl env v"; cases "resolved_headers tbl env hs")
      (simp_all add: h Cons.IH)
qed simp

lemma connect_request_eq:
  "connect_request tbl env target hs =
     map_sum id (\<lambda>rs. ''CONNECT '' @ target @ '' HTTP/1.1'' @ crlf @ concat (map header_line rs) @ crlf)
       (resolved_headers tbl env hs)"
  by (cases "resolved_headers tbl env hs") (simp_all add: connect_request_def push_headers_eq)

text \<open>The request in one piece.\<close>

definition request_text :: "string \<Rightarrow> (string \<times> string) list \<Rightarrow> bytes" where
  "request_text target rs =
     ''CONNECT '' @ target @ '' HTTP/1.1'' @ crlf @ concat (map header_line rs) @ crlf"

section \<open>The write loop\<close>

lemma take_drop_step: "take k (drop w xs) @ drop (w + k) xs = drop w xs"
  by (metis append_take_drop_id drop_drop add.commute)

lemma write_loop_prefix:
  "prefix (up_written (snd (write_loop buf written evs))) (drop written buf)"
proof (induction evs arbitrary: written)
  case (Cons ev evs)
  show ?case
  proof (cases "written < length buf \<and> (\<exists>n. ev = Try_Write n \<and> n \<noteq> 0)")
    case True
    then obtain n where ev: "ev = Try_Write n" and lt: "n \<noteq> 0" "written < length buf" by auto
    let ?k = "min n (length buf - written)"
    have "prefix (take ?k (drop written buf) @ up_written (snd (write_loop buf (written + ?k) evs)))
        (take ?k (drop written buf) @ drop (written + ?k) buf)"
      using Cons.IH by simp
    then show ?thesis using ev lt by (simp add: Let_def take_drop_step)
  next
    case False
    with Cons.IH show ?thesis by (auto simp: Let_def split: write_event.splits)
  qed
qed auto

text \<open>Unless a write takes nothing, the loop returns only when everything is written.\<close>

lemma write_loop_complete:
  "Try_Write 0 \<notin> set evs \<Longrightarrow> fst (write_loop buf written evs) = Ret () \<Longrightarrow>
     up_written (snd (write_loop buf written evs)) = drop written buf"
proof (induction evs arbitrary: written)
  case (Cons ev evs)
  show ?case
  proof (cases "written < length buf \<and> (\<exists>n. ev = Try_Write n)")
    case True
    then obtain n where ev: "ev = Try_Write n" and lt: "written < length buf" by auto
    let ?k = "min n (length buf - written)"
    have k: "?k \<noteq> 0" using Cons.prems(1) ev lt by (cases n) auto
    have "up_written (snd (write_loop buf (written + ?k) evs)) = drop (written + ?k) buf"
      using Cons.prems ev lt k by (intro Cons.IH) (auto simp: Let_def)
    with k ev lt show ?thesis by (simp add: Let_def take_drop_step)
  next
    case False
    with Cons show ?thesis by (auto simp: Let_def split: write_event.splits if_splits)
  qed
qed (simp split: if_splits)

section \<open>The read loop\<close>

lemma read_loop_step:
  assumes "d = take (inbufs_len - length acc) avail"
    and "d \<noteq> []" and "\<not> has_blank_line (acc @ d)" and "\<not> inbufs_len \<le> length (acc @ d)"
  shows "read_loop acc (Try_Read avail # evs) =
    (fst (read_loop (acc @ d) evs), Up_Read d # snd (read_loop (acc @ d) evs))"
  unfolding read_loop.simps Let_def assms(1) [symmetric]
  using assms(2-4) by (simp del: length_append)

text \<open>What a returning read loop has seen.\<close>

lemma read_loop_Ret:
  "length acc \<le> inbufs_len \<Longrightarrow> fst (read_loop acc evs) = Ret (status, buf) \<Longrightarrow>
     buf = acc @ up_read (snd (read_loop acc evs)) \<and> length buf \<le> inbufs_len \<and>
     has_blank_line buf \<and> parse_connect_status buf = Inr status"
proof (induction acc evs rule: read_loop.induct)
  case (3 acc avail evs)
  let ?d = "take (inbufs_len - length acc) avail"
  have len: "length (acc @ ?d) \<le> inbufs_len" using "3.prems"(1) by simp
  show ?case
  proof (cases "?d = [] \<or> has_blank_line (acc @ ?d)")
    case True
    with "3.prems" len show ?thesis
      by (cases "parse_connect_status (acc @ ?d)") (auto simp: Let_def)
  next
    case False
    with "3.prems" have lt: "\<not> inbufs_len \<le> length (acc @ ?d)"
      and ret: "fst (read_loop (acc @ ?d) evs) = Ret (status, buf)"
      by (auto simp: Let_def split: if_splits)
    from False have ne: "?d \<noteq> []" "\<not> has_blank_line (acc @ ?d)" by auto
    note ih = "3.IH" [OF refl ne lt len ret]
    have up: "up_read (snd (read_loop acc (Try_Read avail # evs))) =
        ?d @ up_read (snd (read_loop (acc @ ?d) evs))"
      by (simp only: read_loop_step [OF refl ne lt] snd_conv up_read_simps)
    show ?thesis unfolding up append_assoc [symmetric] by (rule ih)
  qed
qed (auto split: if_splits)

text \<open>Every read consumes at least one byte, so 16384 of them end the loop.\<close>

fun reads :: "read_event list \<Rightarrow> nat" where
  "reads [] = 0"
| "reads (Try_Read d # evs) = Suc (reads evs)"
| "reads (_ # evs) = reads evs"

lemma read_loop_ends:
  "length acc < inbufs_len \<Longrightarrow> inbufs_len \<le> length acc + reads evs \<Longrightarrow>
     fst (read_loop acc evs) \<noteq> Pending"
proof (induction acc evs rule: read_loop.induct)
  case (3 acc avail evs)
  let ?d = "take (inbufs_len - length acc) avail"
  show ?case
  proof (cases "?d = [] \<or> has_blank_line (acc @ ?d) \<or> inbufs_len \<le> length (acc @ ?d)")
    case True
    then show ?thesis
      by (cases "parse_connect_status (acc @ ?d)") (auto simp: Let_def)
  next
    case False
    then have d: "?d \<noteq> []" "\<not> has_blank_line (acc @ ?d)" "\<not> inbufs_len \<le> length (acc @ ?d)" by auto
    then have "1 \<le> length ?d" by (cases ?d) auto
    then have "inbufs_len \<le> length (acc @ ?d) + reads evs"
      using "3.prems"(2) by (simp del: length_take)
    moreover have "length (acc @ ?d) < inbufs_len" using d(3) by linarith
    ultimately have "fst (read_loop (acc @ ?d) evs) \<noteq> Pending" by (intro "3.IH" [OF refl d])
    then show ?thesis unfolding read_loop_step [OF refl d] fst_conv .
  qed
qed auto

text \<open>The result does not depend on how the response is cut into reads.\<close>

lemma read_loop_chunks:
  assumes "\<forall>d \<in> set ds. d \<noteq> []" and "ds \<noteq> []" and "has_blank_line (acc @ concat ds)"
    and "\<And>p. strict_prefix p (acc @ concat ds) \<Longrightarrow> \<not> has_blank_line p"
    and "length (acc @ concat ds) \<le> inbufs_len"
  shows "fst (read_loop acc (map Try_Read ds @ evs)) =
    fst (io_bind (lift_err (parse_connect_status (acc @ concat ds)))
           (\<lambda>status. io_ret (status, acc @ concat ds)))"
  using assms
proof (induction ds arbitrary: acc)
  case (Cons d ds)
  have d: "d \<noteq> []" "take (inbufs_len - length acc) d = d"
    using Cons.prems(1,5) by auto
  show ?case
  proof (cases "ds = []")
    case True
    with Cons.prems(3) d show ?thesis by (simp add: Let_def)
  next
    case False
    have ne: "concat ds \<noteq> []" using False Cons.prems(1) by (cases ds) auto
    then have sp: "strict_prefix (acc @ d) (acc @ concat (d # ds))"
      by (simp add: strict_prefix_def)
    then have nb: "\<not> has_blank_line (acc @ d)" by (rule Cons.prems(4))
    moreover have "length (acc @ d) < inbufs_len"
      using Cons.prems(5) ne by (cases "concat ds") auto
    ultimately have "fst (read_loop acc (map Try_Read (d # ds) @ evs)) =
        fst (read_loop (acc @ d) (map Try_Read ds @ evs))"
      using d by (simp add: Let_def)
    also have "\<dots> = fst (io_bind (lift_err (parse_connect_status ((acc @ d) @ concat ds)))
           (\<lambda>status. io_ret (status, (acc @ d) @ concat ds)))"
      by (rule Cons.IH) (use Cons.prems False in auto)
    finally show ?thesis by simp
  qed
qed simp

section \<open>The status line\<close>

lemma digit_ascii: "is_digit c \<Longrightarrow> ascii c"
  by (simp add: is_digit_def ascii_def byte_def)

lemma digit_not_whitespace: "is_digit c \<Longrightarrow> \<not> is_whitespace [c]"
  by (auto simp: is_digit_def is_whitespace_def byte_def Let_def)

lemma split_whitespace_ascii_word:
  assumes "list_all ascii w" and "list_all (\<lambda>c. \<not> is_whitespace [c]) w" and "w \<noteq> []"
  shows "split_whitespace (w @ '' '' @ rest) = w # split_whitespace rest"
proof -
  have "is_char '' ''" "is_whitespace '' ''"
    by (simp_all add: is_char_def utf8_width_def byte_def is_whitespace_def Let_def)
  moreover have "concat (map (\<lambda>c. [c]) w) = w" by (induction w) auto
  ultimately show ?thesis
    using split_whitespace_word [of "map (\<lambda>c. [c]) w" "'' ''" rest] assms
    by (simp add: list_all_iff is_char_ascii)
qed

lemma from_utf8_lossy_ascii_append:
  "list_all ascii a \<Longrightarrow> from_utf8_lossy (a @ s) = a @ from_utf8_lossy s"
  by (induction a)
    (use utf8_chunks_char_append [of "[_]"] in \<open>auto simp: from_utf8_lossy_def is_char_ascii\<close>)

lemma parse_connect_status_line:
  assumes "list_all ascii v" and "list_all (\<lambda>c. \<not> is_whitespace [c]) v" and "v \<noteq> []"
  shows "parse_connect_status (v @ '' '' @ show_nat (unat status) @ '' '' @ rest) = Inr status"
proof -
  let ?d = "show_nat (unat status)"
  have d: "list_all ascii ?d" "list_all (\<lambda>c. \<not> is_whitespace [c]) ?d"
    using show_nat_digits [of _ "unat status"]
    by (auto simp: list_all_iff digit_ascii digit_not_whitespace)
  have "list_all ascii (v @ '' '' @ ?d @ '' '')"
    using assms(1) d(1) by (simp add: ascii_def byte_def)
  from from_utf8_lossy_ascii_append [OF this, of rest]
  have "from_utf8_lossy (v @ '' '' @ ?d @ '' '' @ rest) =
      v @ '' '' @ ?d @ '' '' @ from_utf8_lossy rest" by simp
  then show ?thesis
    using split_whitespace_ascii_word [OF assms]
      split_whitespace_ascii_word [OF d] parse_u16_show_nat [of status]
    by (simp add: parse_connect_status_def Let_def)
qed

section \<open>Header values\<close>

lemma parse_http_line:
  "parse_connect_status (''HTTP/1.1 '' @ show_nat (unat status) @ '' '' @ rest) = Inr status"
proof -
  have "list_all ascii ''HTTP/1.1''" "list_all (\<lambda>c. \<not> is_whitespace [c]) ''HTTP/1.1''"
    by (simp_all add: ascii_def byte_def is_whitespace_def Let_def)
  from parse_connect_status_line [OF this, of status rest] show ?thesis by simp
qed

lemma resolve_header_value_plain:
  "CHR ''$'' \<notin> set value \<Longrightarrow> resolve_header_value tbl env value = Inr value"
proof -
  assume "CHR ''$'' \<notin> set value"
  then have "dropWhile (\<lambda>c. c \<noteq> CHR ''$'') value = []" by auto
  then show ?thesis by (simp add: resolve_header_value_def split_placeholder_def del: dropWhile_eq_Nil_conv)
qed

definition name_char :: "(nat \<Rightarrow> bool) \<Rightarrow> string \<Rightarrow> bool" where
  "name_char tbl c \<longleftrightarrow> is_alphanumeric tbl c \<or> c = ''_''"

lemma chars_of_concat_append:
  "list_all is_char cs \<Longrightarrow> chars_of (concat cs @ s) = cs @ chars_of s"
  by (induction cs) (simp_all add: chars_of_def utf8_chunks_char_append)

lemma resolve_header_value_first:
  assumes "CHR ''$'' \<notin> set pre" and "list_all is_char ns" and "list_all (name_char tbl) ns"
    and "takeWhile (name_char tbl) (chars_of suf) = []"
  shows "resolve_header_value tbl env (pre @ ''$'' @ concat ns @ suf) =
    (if ns = [] then Inr (pre @ ''$'' @ suf)
     else case env (concat ns) of
       Inr v \<Rightarrow> Inr (pre @ v @ suf)
     | Inl e \<Rightarrow> Inl (Boxed_Var e))"
proof -
  let ?p = "\<lambda>c. c \<noteq> CHR ''$''"
  have tw: "takeWhile ?p (pre @ ''$'' @ concat ns @ suf) = pre"
    and dw: "dropWhile ?p (pre @ ''$'' @ concat ns @ suf) = CHR ''$'' # concat ns @ suf"
    using assms(1) by (auto simp: takeWhile_append dropWhile_append)
  have "(\<lambda>c. is_alphanumeric tbl c \<or> c = ''_'') = name_char tbl"
    by (simp add: name_char_def fun_eq_iff)
  moreover have "takeWhile (name_char tbl) (chars_of (concat ns @ suf)) = ns"
    using assms(3,4) by (simp add: chars_of_concat_append [OF assms(2)] takeWhile_append list_all_iff)
  moreover have "concat ns = [] \<longleftrightarrow> ns = []"
    using assms(2) by (cases ns) (auto simp: is_char_def)
  ultimately show ?thesis
    unfolding resolve_header_value_def split_placeholder_def tw dw by (simp add: Let_def split: sum.splits)
qed

text \<open>The slices of a valid string begin and end at character boundaries: they are valid strings.\<close>

lemma split_placeholder_valid:
  assumes "utf8_valid value" and "split_placeholder tbl value = Some (pre, name, suf)"
  shows "value = pre @ ''$'' @ name @ suf \<and> name \<noteq> [] \<and> utf8_valid pre \<and> utf8_valid name \<and> utf8_valid suf"
proof -
  obtain dollar after where dw: "dropWhile (\<lambda>c. c \<noteq> CHR ''$'') value = dollar # after"
    using assms(2) by (auto simp: split_placeholder_def split: list.splits)
  let ?p = "\<lambda>c. is_alphanumeric tbl c \<or> c = ''_''"
  let ?ns = "takeWhile ?p (chars_of after)" and ?rest = "dropWhile ?p (chars_of after)"
  let ?pre = "takeWhile (\<lambda>c. c \<noteq> CHR ''$'') value"
  have v: "value = ?pre @ CHR ''$'' # after"
    using dw unfolding dropWhile_eq_Cons_conv by blast
  then have "utf8_valid (?pre @ CHR ''$'' # after)" using assms(1) by simp
  note parts = utf8_valid_split_ascii [OF ascii_dollar this]
  then have chars: "list_all is_char (?ns @ ?rest)"
    using chars_of_valid by simp
  have "after = concat ?ns @ concat ?rest"
    by (metis concat_chars_of concat_append takeWhile_dropWhile_id)
  moreover have "utf8_valid (concat ?ns)" "utf8_valid (concat ?rest)"
    using chars by (simp_all only: list_all_append utf8_valid_concat)
  moreover have "pre = takeWhile (\<lambda>c. c \<noteq> CHR ''$'') value" "name = take (length (concat ?ns)) after"
    "suf = drop (length (concat ?ns)) after" "length (concat ?ns) \<noteq> 0"
    using assms(2) by (auto simp: split_placeholder_def dw Let_def split: if_splits)
  moreover have "concat ?ns = take (length (concat ?ns)) after \<and> concat ?rest = drop (length (concat ?ns)) after"
    using \<open>after = concat ?ns @ concat ?rest\<close> [symmetric] unfolding append_eq_conv_conj .
  ultimately have eqs: "pre = ?pre" "name = concat ?ns" "suf = concat ?rest" and "after = name @ suf" "name \<noteq> []"
    by (simp_all only: length_0_conv simp_thms)
  moreover have "value = pre @ ''$'' @ name @ suf"
    using v unfolding eqs(1) [symmetric] \<open>after = name @ suf\<close> by simp
  moreover have "utf8_valid pre" "utf8_valid name" "utf8_valid suf"
    using parts(1) \<open>utf8_valid (concat ?ns)\<close> \<open>utf8_valid (concat ?rest)\<close> by (simp_all only: eqs)
  ultimately show ?thesis by blast
qed

lemma resolve_header_value_valid:
  assumes "utf8_valid value" and "\<And>name v. env name = Inr v \<Longrightarrow> utf8_valid v"
    and "resolve_header_value tbl env value = Inr r"
  shows "utf8_valid r"
proof (cases "split_placeholder tbl value")
  case (Some s)
  obtain pre name suf where s: "s = (pre, name, suf)" by (cases s)
  with split_placeholder_valid [OF assms(1)] Some assms(2,3) show ?thesis
    by (auto simp: resolve_header_value_def split: sum.splits intro!: utf8_valid_append)
qed (use assms in \<open>simp add: resolve_header_value_def\<close>)

text \<open>
  C33. The strings of the handshake stay strings. The slices that are cut out of a header value lie at
  character boundaries, so that slicing cannot panic, and they make up the value; and the request is
  valid UTF-8 whenever the target, the header names and values and the values of environment
  variables are.
\<close>

theorem connect_request_is_a_string:
  assumes "utf8_valid target" and "\<forall>(n, v) \<in> set headers. utf8_valid n \<and> utf8_valid v"
    and "\<forall>n v. env n = Inr v \<longrightarrow> utf8_valid v"
  shows "(\<forall>(n, value) \<in> set headers. \<forall>pre name suf. split_placeholder tbl value = Some (pre, name, suf) \<longrightarrow>
      value = pre @ ''$'' @ name @ suf \<and> utf8_valid pre \<and> utf8_valid name \<and> utf8_valid suf) \<and>
    (\<forall>req. connect_request tbl env target headers = Inr req \<longrightarrow> utf8_valid req)"
proof -
  have literals: "utf8_valid '': ''" "utf8_valid crlf" "utf8_valid ''CONNECT ''" "utf8_valid '' HTTP/1.1''"
    by (simp_all add: utf8_valid_ascii ascii_def byte_def)
  have "utf8_valid (concat (map header_line rs))"
    if "resolved_headers tbl env hs = Inr rs" "\<forall>(n, v) \<in> set hs. utf8_valid n \<and> utf8_valid v" for hs rs
    using that
  proof (induction hs arbitrary: rs)
    case (Cons h hs)
    obtain n v where h: "h = (n, v)" by (cases h)
    from Cons.prems obtain r rs' where r: "resolve_header_value tbl env v = Inr r"
      and rs: "resolved_headers tbl env hs = Inr rs'" "rs = (n, r) # rs'"
      by (cases "resolved_headers tbl env hs") (auto simp: h split: sum.splits)
    have "utf8_valid r" by (rule resolve_header_value_valid [OF _ _ r]) (use Cons.prems assms(3) h in auto)
    moreover have "utf8_valid n" "utf8_valid (concat (map header_line rs'))"
      using Cons.IH [OF rs(1)] Cons.prems by (auto simp: h)
    ultimately show ?case
      unfolding rs(2) list.map concat.simps header_line.simps by (intro utf8_valid_append literals)
  qed (simp add: utf8_valid_ascii)
  note lines = this
  have "utf8_valid req" if req: "connect_request tbl env target headers = Inr req" for req
  proof -
    obtain rs where rs: "resolved_headers tbl env headers = Inr rs"
      and eq: "req = ''CONNECT '' @ target @ '' HTTP/1.1'' @ crlf @ concat (map header_line rs) @ crlf"
      using req by (cases "resolved_headers tbl env headers") (auto simp: connect_request_eq)
    show ?thesis
      unfolding eq by (intro utf8_valid_append literals assms(1) lines [OF rs assms(2)])
  qed
  moreover have "v = pre @ ''$'' @ name @ suf \<and> utf8_valid pre \<and> utf8_valid name \<and> utf8_valid suf"
    if "(n, v) \<in> set headers" "split_placeholder tbl v = Some (pre, name, suf)" for n v pre name suf
    using split_placeholder_valid [OF _ that(2)] that(1) assms(2) by auto
  ultimately show ?thesis by blast
qed

section \<open>The handshake as a whole\<close>

lemma write_loop_no_read [simp]: "up_read (snd (write_loop buf written evs)) = []"
  by (induction evs arbitrary: written) (auto simp: Let_def split: write_event.splits)

lemma read_loop_no_write [simp]: "up_written (snd (read_loop acc evs)) = []"
proof (induction acc evs rule: read_loop.induct)
  case (3 acc avail evs)
  then show ?case
    by (cases "parse_connect_status (acc @ take (inbufs_len - length acc) avail)")
      (auto simp: Let_def)
qed auto

lemma check_status_Ret: "fst (check_status status) = Ret () \<longleftrightarrow> 200 \<le> status \<and> status \<le> 299"
  by (auto simp: check_status_def)

lemma snd_check_status [simp]: "snd (check_status status) = []"
  by (simp add: check_status_def)

lemma check_status_no_pending [simp]: "fst (check_status status) \<noteq> Pending"
  by (simp add: check_status_def)

lemma http_connect_unfold:
  "connect_request tbl env target hs = Inr req \<Longrightarrow> http_connect tbl env target hs wevs revs =
     io_bind (write_loop req 0 wevs) (\<lambda>_. io_bind (read_loop [] revs) (\<lambda>(status, _). check_status status))"
  by (simp add: http_connect_def)

text \<open>The write loop ends once it has been given enough writes that take something.\<close>

fun writes :: "write_event list \<Rightarrow> nat" where
  "writes [] = 0"
| "writes (Try_Write n # evs) = Suc (writes evs)"
| "writes (_ # evs) = writes evs"

lemma write_loop_ends:
  "length buf \<le> written + writes evs \<Longrightarrow> fst (write_loop buf written evs) \<noteq> Pending"
proof (induction evs arbitrary: written)
  case (Cons ev evs)
  show ?case
  proof (cases "written < length buf \<and> (\<exists>n. ev = Try_Write n \<and> n \<noteq> 0)")
    case True
    then obtain n where ev: "ev = Try_Write n" and lt: "n \<noteq> 0" "written < length buf" by auto
    let ?k = "min n (length buf - written)"
    have "1 \<le> ?k" using lt by linarith
    moreover have "length buf \<le> written + Suc (writes evs)" using Cons.prems ev by simp
    ultimately have "length buf \<le> (written + ?k) + writes evs" by linarith
    from Cons.IH [OF this] ev lt show ?thesis by (simp add: Let_def)
  next
    case False
    with Cons show ?thesis by (auto simp: Let_def split: write_event.splits)
  qed
qed simp

text \<open>What a handshake has written and read, first at any moment, then when it has succeeded.\<close>

lemma http_connect_sent:
  "case resolved_headers tbl env hs of
     Inl e \<Rightarrow> http_connect tbl env target hs wevs revs = io_fail e
   | Inr rs \<Rightarrow> prefix (up_written (snd (http_connect tbl env target hs wevs revs))) (request_text target rs)"
proof (cases "resolved_headers tbl env hs")
  case (Inr rs)
  then have req: "connect_request tbl env target hs = Inr (request_text target rs)"
    by (simp add: connect_request_eq request_text_def)
  have "up_written (snd (http_connect tbl env target hs wevs revs)) =
      up_written (snd (write_loop (request_text target rs) 0 wevs))"
    by (auto simp: http_connect_unfold [OF req] snd_io_bind split: outcome.splits prod.splits)
  with Inr write_loop_prefix [of "request_text target rs" 0 wevs] show ?thesis by simp
qed (simp add: http_connect_def connect_request_eq)

lemma http_connect_Ret:
  assumes "fst (http_connect tbl env target hs wevs revs) = Ret ()"
  shows "\<exists>rs status. resolved_headers tbl env hs = Inr rs \<and>
    prefix (up_written (snd (http_connect tbl env target hs wevs revs))) (request_text target rs) \<and>
    (Try_Write 0 \<notin> set wevs \<longrightarrow>
       up_written (snd (http_connect tbl env target hs wevs revs)) = request_text target rs) \<and>
    length (up_read (snd (http_connect tbl env target hs wevs revs))) \<le> inbufs_len \<and>
    has_blank_line (up_read (snd (http_connect tbl env target hs wevs revs))) \<and>
    parse_connect_status (up_read (snd (http_connect tbl env target hs wevs revs))) = Inr status \<and>
    200 \<le> status \<and> status \<le> 299"
proof -
  obtain rs where rs: "resolved_headers tbl env hs = Inr rs"
    using assms http_connect_sent [where tbl = tbl and env = env and hs = hs and target = target and wevs = wevs and revs = revs]
    by (cases "resolved_headers tbl env hs") auto
  then have req: "connect_request tbl env target hs = Inr (request_text target rs)"
    by (simp add: connect_request_eq request_text_def)
  note unf = http_connect_unfold [OF req]
  from assms obtain status buf where w: "fst (write_loop (request_text target rs) 0 wevs) = Ret ()"
    and r: "fst (read_loop [] revs) = Ret (status, buf)" and c: "fst (check_status status) = Ret ()"
    by (auto simp: unf io_bind_eq_Ret split: prod.splits)
  have "snd (http_connect tbl env target hs wevs revs) =
      snd (write_loop (request_text target rs) 0 wevs) @ snd (read_loop [] revs)"
    using w r by (simp add: unf snd_io_bind)
  then show ?thesis
    using read_loop_Ret [OF _ r] write_loop_complete [OF _ w] write_loop_prefix [of "request_text target rs" 0 wevs] c rs
    by (auto simp: check_status_Ret)
qed

section \<open>Properties\<close>

text \<open>
  C12. When the handshake succeeds, the proxy has been sent the request and nothing else: the request
  line for the target, the configured headers with their values resolved, in order, and a blank
  line. It has been sent all of it unless a write was accepted with zero bytes, which ends the write
  loop early; then it has been sent an initial part. What has been read of its answer fits the
  16384-byte buffer, contains the blank line that ends a response header, and carries a status
  code from 200 to 299.
\<close>

theorem http_connect_success:
  assumes "fst (http_connect tbl env target hs wevs revs) = Ret ()"
  shows "\<exists>rs status. resolved_headers tbl env hs = Inr rs \<and>
    prefix (up_written (snd (http_connect tbl env target hs wevs revs))) (request_text target rs) \<and>
    (Try_Write 0 \<notin> set wevs \<longrightarrow>
       up_written (snd (http_connect tbl env target hs wevs revs)) = request_text target rs) \<and>
    length (up_read (snd (http_connect tbl env target hs wevs revs))) \<le> inbufs_len \<and>
    has_blank_line (up_read (snd (http_connect tbl env target hs wevs revs))) \<and>
    parse_connect_status (up_read (snd (http_connect tbl env target hs wevs revs))) = Inr status \<and>
    200 \<le> status \<and> status \<le> 299"
  using assms by (rule http_connect_Ret)

text \<open>
  C29. The handshake cannot be kept waiting by a peer that keeps the socket busy: with as many
  writes as the request has bytes and 16384 reads, in any mixture with \<open>WouldBlock\<close>, it has
  returned or failed.
\<close>

theorem http_connect_terminates:
  assumes "connect_request tbl env target hs = Inr req"
    and "length req \<le> writes wevs" and "inbufs_len \<le> reads revs"
  shows "fst (http_connect tbl env target hs wevs revs) \<noteq> Pending"
  using write_loop_ends [of req 0 wevs] read_loop_ends [of "[]" revs] assms
  by (auto simp: http_connect_unfold fst_io_bind inbufs_len_def split: outcome.splits)


text \<open>
  C32. Every status code comes back from the parser: for a response that starts with a protocol
  version, a space, the decimal digits of a \<open>u16\<close> and a space, whatever bytes follow, be they
  valid UTF-8 or not, the parsed status is that number; and the tunnel opens exactly for 200 to
  299.
\<close>

theorem parse_connect_status_roundtrip:
  "parse_connect_status (''HTTP/1.1 '' @ show_nat (unat status) @ '' '' @ rest) = Inr status \<and>
   (fst (check_status status) = Ret ()) = (200 \<le> unat status \<and> unat status \<le> 299)"
proof -
  have "parse_connect_status (''HTTP/1.1 '' @ show_nat (unat status) @ '' '' @ rest) = Inr status"
    by (rule parse_http_line)
  moreover have "200 \<le> status \<and> status \<le> 299 \<longleftrightarrow> 200 \<le> unat status \<and> unat status \<le> 299"
    by (simp add: word_le_nat_alt)
  ultimately show ?thesis by (simp add: check_status_Ret)
qed

text \<open>
  Only the first placeholder of a header value is resolved: the variable's value replaces
  \<open>$NAME\<close>, and everything after the name is kept as it is, further placeholders included. A dollar
  sign that no name follows ends the search.
\<close>

lemma header_value_resolves_first_placeholder_only:
  assumes "CHR ''$'' \<notin> set pre" and "list_all is_char ns" and "list_all (name_char tbl) ns"
    and "takeWhile (name_char tbl) (chars_of suf) = []"
  shows "resolve_header_value tbl env (pre @ ''$'' @ concat ns @ suf) =
    (if ns = [] then Inr (pre @ ''$'' @ suf)
     else case env (concat ns) of
       Inr v \<Rightarrow> Inr (pre @ v @ suf)
     | Inl e \<Rightarrow> Inl (Boxed_Var e))"
  using assms by (rule resolve_header_value_first)

text \<open>
  The target is copied into the request without any check: a target that contains a line
  break ends the request line early, and what follows the break is sent as a header line of its
  own, before the configured headers.
\<close>

lemma connect_target_can_inject_headers:
  assumes "resolved_headers tbl env hs = Inr rs"
  shows "connect_request tbl env (host @ '' HTTP/1.1'' @ crlf @ header_line (name, v) @ junk) hs =
    Inr (''CONNECT '' @ host @ '' HTTP/1.1'' @ crlf @ header_line (name, v) @
      junk @ '' HTTP/1.1'' @ crlf @ concat (map header_line rs) @ crlf)"
  using assms by (simp add: connect_request_eq)

text \<open>
  A write that takes zero bytes counts as the end of the request: the handshake goes on to
  read, and succeeds on a positive response although nothing was sent.
\<close>

lemma zero_write_skips_the_request:
  assumes "connect_request tbl env target hs = Inr req" and "fst (read_loop [] revs) = Ret (200, buf)"
  shows "fst (http_connect tbl env target hs (Try_Write 0 # wevs) revs) = Ret () \<and>
    up_written (snd (http_connect tbl env target hs (Try_Write 0 # wevs) revs)) = []"
proof -
  have "req \<noteq> []" using assms(1) by (cases "resolved_headers tbl env hs") (auto simp: connect_request_eq)
  then show ?thesis
    using assms by (simp add: http_connect_unfold fst_io_bind snd_io_bind check_status_Ret)
qed

section \<open>Witnesses\<close>

definition no_table :: "nat \<Rightarrow> bool" where
  "no_table n = False"

definition env_pw :: env_vars where
  "env_pw v = (if v = ''PW'' then Inr ''abc'' else Inl Var_NotPresent)"

definition ok_response :: bytes where
  "ok_response = ''HTTP/1.1 200 OK'' @ crlf @ crlf"

lemma ok_response_status: "parse_connect_status ok_response = Inr 200"
  using parse_http_line [of 200 "''OK'' @ crlf @ crlf"]
  by (simp add: ok_response_def show_nat.simps)

lemma resolve_pw: "resolve_header_value no_table env_pw ''Basic $PW'' = Inr ''Basic abc''"
  by code_simp

lemma ok_response_read: "read_loop [] [Try_Read ok_response] = (Ret (200, ok_response), [Up_Read ok_response])"
proof -
  have "has_blank_line ok_response" and "length ok_response \<le> inbufs_len" and "ok_response \<noteq> []"
    by (simp_all add: ok_response_def inbufs_len_def)
  then show ?thesis by (simp add: Let_def ok_response_status)
qed

definition request_a443 :: bytes where
  "request_a443 = ''CONNECT a:443 HTTP/1.1'' @ crlf @ ''Proxy-Authorization: Basic abc'' @ crlf @ crlf"

lemma request_a443:
  "connect_request no_table env_pw ''a:443'' [(''Proxy-Authorization'', ''Basic $PW'')] = Inr request_a443"
  by (simp add: connect_request_eq resolve_pw request_a443_def)

lemma request_a443_written:
  "write_loop request_a443 0 [Try_Write 7, Write_Err (Io_Error WouldBlock ''''), Try_Write 100] =
     (Ret (), [Up_Write (take 7 request_a443), Up_Write (drop 7 request_a443)])"
  by (simp add: request_a443_def Let_def)

lemma connect_a443:
  "http_connect no_table env_pw ''a:443'' [(''Proxy-Authorization'', ''Basic $PW'')]
     [Try_Write 7, Write_Err (Io_Error WouldBlock ''''), Try_Write 100] [Try_Read ok_response] =
   (Ret (), [Up_Write (take 7 request_a443), Up_Write (drop 7 request_a443), Up_Read ok_response])"
  by (simp only: http_connect_unfold [OF request_a443] request_a443_written ok_response_read)
    (simp add: check_status_def)

theorem http_connect_success_witness:
  "\<exists>rs status. resolved_headers no_table env_pw [(''Proxy-Authorization'', ''Basic $PW'')] = Inr rs \<and>
     up_written (snd (http_connect no_table env_pw ''a:443'' [(''Proxy-Authorization'', ''Basic $PW'')]
       [Try_Write 7, Write_Err (Io_Error WouldBlock ''''), Try_Write 100] [Try_Read ok_response])) =
       request_text ''a:443'' rs \<and>
     200 \<le> (status :: u16) \<and> status \<le> 299"
proof -
  let ?hs = "[(''Proxy-Authorization'', ''Basic $PW'')]"
  let ?w = "[Try_Write 7, Write_Err (Io_Error WouldBlock ''''), Try_Write 100]"
  have "fst (http_connect no_table env_pw ''a:443'' ?hs ?w [Try_Read ok_response]) = Ret ()"
    by (simp add: connect_a443)
  from http_connect_success [OF this] show ?thesis by auto
qed

theorem http_connect_terminates_witness:
  "fst (http_connect no_table env_pw ''a:443'' [(''Proxy-Authorization'', ''Basic $PW'')]
     (replicate 100 (Try_Write 1)) (replicate inbufs_len (Try_Read ''x''))) \<noteq> Pending"
proof (rule http_connect_terminates [OF request_a443])
  have w: "writes (replicate n (Try_Write 1)) = n" for n by (induction n) auto
  show "length request_a443 \<le> writes (replicate 100 (Try_Write 1))"
    by (simp only: w) (simp add: request_a443_def)
  have "reads (replicate n (Try_Read ''x'')) = n" for n by (induction n) auto
  then show "inbufs_len \<le> reads (replicate inbufs_len (Try_Read ''x''))" by simp
qed


theorem connect_request_is_a_string_witness:
  "utf8_valid request_a443"
proof -
  have "utf8_valid ''a:443''" "utf8_valid ''Proxy-Authorization''" "utf8_valid ''Basic $PW''" "utf8_valid ''abc''"
    by (simp_all add: utf8_valid_ascii ascii_def byte_def)
  then have "\<forall>(n, v) \<in> set [(''Proxy-Authorization'', ''Basic $PW'')]. utf8_valid n \<and> utf8_valid v"
    and "\<forall>n v. env_pw n = Inr v \<longrightarrow> utf8_valid v"
    by (auto simp: env_pw_def)
  from connect_request_is_a_string [OF \<open>utf8_valid ''a:443''\<close> this, of no_table] request_a443
  show ?thesis by blast
qed

end
