(* ===== verification/Relay.thy ===== *)
theory Relay
  imports Prelude "HOL-Library.Sublist"
begin

text \<open>
  \<open>src/upstreams/proxy_to_upstream/relay.rs\<close>: the bidirectional copy between client and upstream.

  Each direction is a \<open>copier\<close>: its running total, the shared counter the statistics task reads,
  and its result once it has returned. One event is one iteration of the loop of \<open>copy_counted\<close>:
  what \<open>read\<close> answers and, if it brings data, how \<open>write_all\<close> ends. \<open>relay\<close> runs both
  directions as the scheduler interleaves them, with the ticks of the statistics task in
  between. The lemmas show that the two directions do not influence each other, that what is
  delivered is an initial part of what was read, in order, that counters and totals agree at
  every moment, and that every direction ends with exactly one shutdown of its writer.
\<close>

section \<open>copy\_counted\<close>

record copier =
  cp_total :: u64
  cp_counter :: u64
  cp_result :: "u64 option"

definition copier_new :: copier where
  "copier_new = \<lparr>cp_total = 0, cp_counter = 0, cp_result = None\<rparr>"

text \<open>\<open>write_all\<close> delivers everything, or fails after some of the bytes.\<close>

datatype write_all_result = All_Written | Write_Failed nat

datatype copy_event =
    Copy_Read_Err io_error
  | Copy_Read bytes write_all_result

definition copy_buf_len :: nat where
  "copy_buf_len = 16 * 1024"

text \<open>
  One iteration of the loop; a copier that has returned does nothing more. The first two
  arguments say what a delivery and a shutdown of this direction's writer look like from outside.
\<close>

definition copy_counted_step ::
  "(bytes \<Rightarrow> action) \<Rightarrow> action \<Rightarrow> copier \<Rightarrow> copy_event \<Rightarrow> copier \<times> action list" where
  "copy_counted_step deliver shut c ev =
     (if cp_result c \<noteq> None then (c, [])
      else case ev of
        Copy_Read_Err e \<Rightarrow> (c\<lparr>cp_result := Some (cp_total c)\<rparr>, [shut])
      | Copy_Read avail w \<Rightarrow>
          (let buf = take copy_buf_len avail in
           if buf = [] then (c\<lparr>cp_result := Some (cp_total c)\<rparr>, [shut])
           else case w of
             Write_Failed k \<Rightarrow>
               (c\<lparr>cp_result := Some (cp_total c)\<rparr>, [deliver (take k buf), shut])
           | All_Written \<Rightarrow>
               (c\<lparr>cp_total := cp_total c + of_nat (length buf),
                  cp_counter := cp_counter c + of_nat (length buf)\<rparr>,
                [deliver buf])))"

fun task_run ::
  "('s \<Rightarrow> 'e \<Rightarrow> 's \<times> action list) \<Rightarrow> 's \<Rightarrow> 'e list \<Rightarrow> 's \<times> action list" where
  "task_run step s [] = (s, [])"
| "task_run step s (e # es) =
     (let (s', t) = step s e; (s'', t') = task_run step s' es in (s'', t @ t'))"

definition copy_counted ::
  "(bytes \<Rightarrow> action) \<Rightarrow> action \<Rightarrow> copy_event list \<Rightarrow> copier \<times> action list" where
  "copy_counted deliver shut evs = task_run (copy_counted_step deliver shut) copier_new evs"

section \<open>relay\<close>

datatype relay_event = Tx copy_event | Rx copy_event | Tick

record relay_state =
  rl_tx :: copier
  rl_rx :: copier
  rl_log :: "(u64 \<times> u64) list"

definition relay_new :: relay_state where
  "relay_new = \<lparr>rl_tx = copier_new, rl_rx = copier_new, rl_log = []\<rparr>"

text \<open>\<open>try_join\<close> is ready when both copies have returned; then the statistics task is aborted.\<close>

definition relay_joined :: "relay_state \<Rightarrow> bool" where
  "relay_joined s \<longleftrightarrow> cp_result (rl_tx s) \<noteq> None \<and> cp_result (rl_rx s) \<noteq> None"

fun relay_step :: "duration \<Rightarrow> relay_state \<Rightarrow> relay_event \<Rightarrow> relay_state \<times> action list" where
  "relay_step stats_interval s (Tx ev) =
     (let (c, t) = copy_counted_step To_Upstream Shutdown_Upstream (rl_tx s) ev
      in (s\<lparr>rl_tx := c\<rparr>, t))"
| "relay_step stats_interval s (Rx ev) =
     (let (c, t) = copy_counted_step To_Client Shutdown_Client (rl_rx s) ev
      in (s\<lparr>rl_rx := c\<rparr>, t))"
| "relay_step stats_interval s Tick =
     (if 0 < stats_interval \<and> \<not> relay_joined s
      then (s\<lparr>rl_log := rl_log s @ [(cp_counter (rl_tx s), cp_counter (rl_rx s))]\<rparr>, [])
      else (s, []))"

definition relay :: "duration \<Rightarrow> relay_event list \<Rightarrow> (action, u64 \<times> u64) io" where
  "relay stats_interval evs =
     (let (s, t) = task_run (relay_step stats_interval) relay_new evs
      in case (cp_result (rl_tx s), cp_result (rl_rx s)) of
           (Some tx, Some rx) \<Rightarrow> (Ret (tx, rx), t)
         | _ \<Rightarrow> (Pending, t))"

section \<open>Tasks that run side by side\<close>

lemma task_run_Cons:
  "task_run step s (e # es) =
     (fst (task_run step (fst (step s e)) es),
      snd (step s e) @ snd (task_run step (fst (step s e)) es))"
  by (simp add: case_prod_unfold Let_def)

declare task_run.simps(2) [simp del]

lemma task_run_append:
  "task_run step s (es @ fs) =
     (fst (task_run step (fst (task_run step s es)) fs),
      snd (task_run step s es) @ snd (task_run step (fst (task_run step s es)) fs))"
  by (induction es arbitrary: s) (simp_all add: task_run_Cons)

text \<open>
  A task returns once and does nothing afterwards: the contract between the relay and each of
  its two copies.
\<close>

locale copy_task =
  fixes step :: "'s \<Rightarrow> 'e \<Rightarrow> 's \<times> action list"
    and result :: "'s \<Rightarrow> 'r option"
  assumes done_stays: "result s \<noteq> None \<Longrightarrow> step s e = (s, [])"
begin

lemma run_done: "result s \<noteq> None \<Longrightarrow> task_run step s es = (s, [])"
  by (induction es) (simp_all add: task_run_Cons done_stays)

lemma run_done_append:
  "result (fst (task_run step s es)) \<noteq> None \<Longrightarrow> task_run step s (es @ fs) = task_run step s es"
  using run_done [of "fst (task_run step s es)" fs] by (simp add: task_run_append prod_eq_iff)

lemma result_stable:
  "result s = Some r \<Longrightarrow> result (fst (task_run step s es)) = Some r"
  using run_done [of s es] by simp

end

interpretation up: copy_task "copy_counted_step To_Upstream Shutdown_Upstream" cp_result
  by unfold_locales (simp add: copy_counted_step_def)

interpretation down: copy_task "copy_counted_step To_Client Shutdown_Client" cp_result
  by unfold_locales (simp add: copy_counted_step_def)

text \<open>Two tasks in one state, each event moving one of them or neither.\<close>

fun lefts :: "relay_event list \<Rightarrow> copy_event list" where
  "lefts [] = []"
| "lefts (Tx e # es) = e # lefts es"
| "lefts (_ # es) = lefts es"

fun rights :: "relay_event list \<Rightarrow> copy_event list" where
  "rights [] = []"
| "rights (Rx e # es) = e # rights es"
| "rights (_ # es) = rights es"

locale task_pair =
  left: copy_task stepl resl + right: copy_task stepr resr
  for stepl :: "'s \<Rightarrow> copy_event \<Rightarrow> 's \<times> action list" and resl :: "'s \<Rightarrow> 'r option"
    and stepr :: "'t \<Rightarrow> copy_event \<Rightarrow> 't \<times> action list" and resr :: "'t \<Rightarrow> 'r option" +
  fixes step :: "'p \<Rightarrow> relay_event \<Rightarrow> 'p \<times> action list"
    and getl :: "'p \<Rightarrow> 's" and getr :: "'p \<Rightarrow> 't" and isl :: "action \<Rightarrow> bool"
  assumes step_Tx: "getl (fst (step p (Tx e))) = fst (stepl (getl p) e)"
      "getr (fst (step p (Tx e))) = getr p" "snd (step p (Tx e)) = snd (stepl (getl p) e)"
    and step_Rx: "getr (fst (step p (Rx e))) = fst (stepr (getr p) e)"
      "getl (fst (step p (Rx e))) = getl p" "snd (step p (Rx e)) = snd (stepr (getr p) e)"
    and step_Tick: "getl (fst (step p Tick)) = getl p" "getr (fst (step p Tick)) = getr p"
      "snd (step p Tick) = []"
    and isl_left: "a \<in> set (snd (stepl s e)) \<Longrightarrow> isl a"
    and isl_right: "a \<in> set (snd (stepr t e)) \<Longrightarrow> \<not> isl a"
begin

lemma filter_left [simp]: "filter isl (snd (stepl s e)) = snd (stepl s e)"
    "filter (\<lambda>a. \<not> isl a) (snd (stepl s e)) = []"
  using isl_left by (auto simp: filter_id_conv filter_empty_conv)

lemma filter_right [simp]: "filter isl (snd (stepr t e)) = []"
    "filter (\<lambda>a. \<not> isl a) (snd (stepr t e)) = snd (stepr t e)"
  using isl_right by (auto simp: filter_id_conv filter_empty_conv)

text \<open>Each side of an interleaved run is the run of that side alone.\<close>

lemma run_left:
  "getl (fst (task_run step p es)) = fst (task_run stepl (getl p) (lefts es)) \<and>
   filter isl (snd (task_run step p es)) = snd (task_run stepl (getl p) (lefts es))"
  by (induction es arbitrary: p rule: lefts.induct)
    (simp_all add: task_run_Cons step_Tx step_Rx step_Tick)

lemma run_right:
  "getr (fst (task_run step p es)) = fst (task_run stepr (getr p) (rights es)) \<and>
   filter (\<lambda>a. \<not> isl a) (snd (task_run step p es)) = snd (task_run stepr (getr p) (rights es))"
  by (induction es arbitrary: p rule: rights.induct)
    (simp_all add: task_run_Cons step_Tx step_Rx step_Tick)

end

fun toward_upstream :: "action \<Rightarrow> bool" where
  "toward_upstream (To_Upstream b) = True"
| "toward_upstream Shutdown_Upstream = True"
| "toward_upstream _ = False"

lemma copy_counted_step_actions:
  "a \<in> set (snd (copy_counted_step deliver shut c ev)) \<Longrightarrow> a = shut \<or> (\<exists>b. a = deliver b)"
  by (auto simp: copy_counted_step_def Let_def split: copy_event.splits write_all_result.splits if_splits)

interpretation pair: task_pair
  "copy_counted_step To_Upstream Shutdown_Upstream" cp_result
  "copy_counted_step To_Client Shutdown_Client" cp_result
  "relay_step stats_interval" rl_tx rl_rx toward_upstream for stats_interval
  by unfold_locales
    (auto simp: case_prod_unfold Let_def dest!: copy_counted_step_actions)

section \<open>What one direction does\<close>

text \<open>
  The specification of a copy over its events: what it reads until it ends, what of that was
  written in full, whether it has ended, and whether a write failed.
\<close>

fun read_bytes :: "copy_event list \<Rightarrow> bytes" where
  "read_bytes (Copy_Read avail w # es) =
     take copy_buf_len avail @
       (if avail = [] \<or> w \<noteq> All_Written then [] else read_bytes es)"
| "read_bytes _ = []"

fun acked_bytes :: "copy_event list \<Rightarrow> bytes" where
  "acked_bytes (Copy_Read avail All_Written # es) =
     (if avail = [] then [] else take copy_buf_len avail @ acked_bytes es)"
| "acked_bytes _ = []"

fun copy_ends :: "copy_event list \<Rightarrow> bool" where
  "copy_ends [] = False"
| "copy_ends (Copy_Read avail All_Written # es) = (avail = [] \<or> copy_ends es)"
| "copy_ends _ = True"

fun write_fails :: "copy_event list \<Rightarrow> bool" where
  "write_fails (Copy_Read avail w # es) =
     (avail \<noteq> [] \<and> (w \<noteq> All_Written \<or> write_fails es))"
| "write_fails _ = False"

lemma copy_buf_len_pos [simp]: "copy_buf_len \<noteq> 0"
  by (simp add: copy_buf_len_def)

lemma copy_counted_step_simps:
  "cp_result c = None \<Longrightarrow> copy_counted_step deliver shut c (Copy_Read_Err e) =
     (c\<lparr>cp_result := Some (cp_total c)\<rparr>, [shut])"
  "cp_result c = None \<Longrightarrow> copy_counted_step deliver shut c (Copy_Read [] w) =
     (c\<lparr>cp_result := Some (cp_total c)\<rparr>, [shut])"
  "cp_result c = None \<Longrightarrow> avail \<noteq> [] \<Longrightarrow>
     copy_counted_step deliver shut c (Copy_Read avail (Write_Failed k)) =
       (c\<lparr>cp_result := Some (cp_total c)\<rparr>,
        [deliver (take k (take copy_buf_len avail)), shut])"
  "cp_result c = None \<Longrightarrow> avail \<noteq> [] \<Longrightarrow>
     copy_counted_step deliver shut c (Copy_Read avail All_Written) =
       (c\<lparr>cp_total := cp_total c + of_nat (length (take copy_buf_len avail)),
          cp_counter := cp_counter c + of_nat (length (take copy_buf_len avail))\<rparr>,
        [deliver (take copy_buf_len avail)])"
  by (simp_all add: copy_counted_step_def Let_def)

lemma copy_run_done:
  "cp_result c \<noteq> None \<Longrightarrow> task_run (copy_counted_step deliver shut) c es = (c, [])"
  by (induction es) (simp_all add: task_run_Cons copy_counted_step_def)

lemmas copy_events_induct = acked_bytes.induct [case_names written empty read_failed failed]

lemma copy_run_state:
  "cp_result c = None \<Longrightarrow>
     fst (task_run (copy_counted_step deliver shut) c evs) =
       c\<lparr>cp_total := cp_total c + of_nat (length (acked_bytes evs)),
         cp_counter := cp_counter c + of_nat (length (acked_bytes evs)),
         cp_result := (if copy_ends evs
           then Some (cp_total c + of_nat (length (acked_bytes evs))) else None)\<rparr>"
proof (induction evs arbitrary: c rule: copy_events_induct)
  case (written avail es)
  show ?case
  proof (cases "avail = []")
    case True
    with written show ?thesis by (simp add: task_run_Cons copy_counted_step_simps copy_run_done)
  next
    case False
    from written(1) [OF False, of "fst (copy_counted_step deliver shut c (Copy_Read avail All_Written))"]
    show ?thesis
      using False written.prems
      by (simp add: task_run_Cons copy_counted_step_simps add.assoc del: length_take)
  qed
next
  case (failed avail k es)
  then show ?case
    by (cases "avail = []") (simp_all add: task_run_Cons copy_counted_step_simps copy_run_done)
qed (simp_all add: task_run_Cons copy_counted_step_simps copy_run_done)

lemma copy_run_actions:
  "cp_result c = None \<Longrightarrow> \<exists>chunks.
     snd (task_run (copy_counted_step deliver shut) c evs) =
       map deliver chunks @ (if copy_ends evs then [shut] else []) \<and>
     prefix (acked_bytes evs) (concat chunks) \<and> prefix (concat chunks) (read_bytes evs) \<and>
     (\<not> write_fails evs \<longrightarrow> concat chunks = read_bytes evs)"
proof (induction evs arbitrary: c rule: copy_events_induct)
  case (written avail es)
  show ?case
  proof (cases "avail = []")
    case True
    with written show ?thesis by (simp add: task_run_Cons copy_counted_step_simps copy_run_done)
  next
    case False
    let ?b = "take copy_buf_len avail"
    from written(1) [OF False, of "fst (copy_counted_step deliver shut c (Copy_Read avail All_Written))"]
    obtain chunks where "snd (task_run (copy_counted_step deliver shut)
          (fst (copy_counted_step deliver shut c (Copy_Read avail All_Written))) es) =
        map deliver chunks @ (if copy_ends es then [shut] else [])"
      "prefix (acked_bytes es) (concat chunks)" "prefix (concat chunks) (read_bytes es)"
      "\<not> write_fails es \<longrightarrow> concat chunks = read_bytes es"
      using False written.prems by (auto simp: copy_counted_step_simps)
    then show ?thesis
      using False written.prems
      by (intro exI [of _ "?b # chunks"]) (simp add: task_run_Cons copy_counted_step_simps)
  qed
next
  case (failed avail k es)
  show ?case
  proof (cases "avail = []")
    case True
    with failed show ?thesis by (simp add: task_run_Cons copy_counted_step_simps copy_run_done)
  next
    case False
    have "prefix (take k (take copy_buf_len avail)) (take copy_buf_len avail)"
      by (rule take_is_prefix)
    with False failed show ?thesis
      by (intro exI [of _ "[take k (take copy_buf_len avail)]"])
        (simp add: task_run_Cons copy_counted_step_simps copy_run_done)
  qed
qed (auto simp: task_run_Cons copy_counted_step_simps copy_run_done intro: exI [of _ "[]"])

section \<open>Properties\<close>

lemma relay_new_parts [simp]: "rl_tx relay_new = copier_new" "rl_rx relay_new = copier_new"
    "cp_result copier_new = None" "cp_total copier_new = 0" "cp_counter copier_new = 0"
  by (simp_all add: relay_new_def copier_new_def)

lemma relay_copiers:
  "rl_tx (fst (task_run (relay_step si) relay_new evs)) =
     \<lparr>cp_total = of_nat (length (acked_bytes (lefts evs))),
      cp_counter = of_nat (length (acked_bytes (lefts evs))),
      cp_result = (if copy_ends (lefts evs) then Some (of_nat (length (acked_bytes (lefts evs)))) else None)\<rparr>"
  "rl_rx (fst (task_run (relay_step si) relay_new evs)) =
     \<lparr>cp_total = of_nat (length (acked_bytes (rights evs))),
      cp_counter = of_nat (length (acked_bytes (rights evs))),
      cp_result = (if copy_ends (rights evs) then Some (of_nat (length (acked_bytes (rights evs)))) else None)\<rparr>"
  using pair.run_left [of si relay_new evs] pair.run_right [of si relay_new evs]
  by (simp_all add: copy_run_state copier_new_def)

lemma snd_relay: "snd (relay si evs) = snd (task_run (relay_step si) relay_new evs)"
  by (simp add: relay_def case_prod_unfold Let_def split: option.splits)

lemma relay_returns:
  "fst (relay si evs) =
     (if copy_ends (lefts evs) \<and> copy_ends (rights evs)
      then Ret (of_nat (length (acked_bytes (lefts evs))), of_nat (length (acked_bytes (rights evs))))
      else Pending)"
  by (simp add: relay_def case_prod_unfold Let_def relay_copiers)

text \<open>
  C14. The relay returns exactly when both directions have ended, whatever the interleaving of
  reads, writes and statistics ticks, and then returns the number of bytes each direction read
  and wrote in full, modulo 2^64. One direction ending does not end the other, and no read or
  write error makes the relay fail.
\<close>

theorem relay_result:
  "fst (relay si evs) =
     (if copy_ends (lefts evs) \<and> copy_ends (rights evs)
      then Ret (of_nat (length (acked_bytes (lefts evs))), of_nat (length (acked_bytes (rights evs))))
      else Pending)"
  by (rule relay_returns)

text \<open>
  A trace that delivers chunks in order and then, once the copy has ended, shuts the writer down:
  at least what was written in full, at most what was read, and everything unless a write failed.
\<close>

definition delivers_in_order ::
  "(bytes \<Rightarrow> action) \<Rightarrow> action \<Rightarrow> copy_event list \<Rightarrow> action list \<Rightarrow> bool" where
  "delivers_in_order deliver shut evs t \<longleftrightarrow>
     (\<exists>chunks. t = map deliver chunks @ (if copy_ends evs then [shut] else []) \<and>
        prefix (acked_bytes evs) (concat chunks) \<and> prefix (concat chunks) (read_bytes evs) \<and>
        (\<not> write_fails evs \<longrightarrow> concat chunks = read_bytes evs))"

lemma relay_in_order:
  "delivers_in_order To_Upstream Shutdown_Upstream (lefts evs)
     (filter toward_upstream (snd (relay si evs))) \<and>
   delivers_in_order To_Client Shutdown_Client (rights evs)
     (filter (\<lambda>a. \<not> toward_upstream a) (snd (relay si evs)))"
  using pair.run_left [of si relay_new evs] pair.run_right [of si relay_new evs]
    copy_run_actions [of copier_new To_Upstream Shutdown_Upstream "lefts evs"]
    copy_run_actions [of copier_new To_Client Shutdown_Client "rights evs"]
  by (simp add: snd_relay delivers_in_order_def)

text \<open>
  C13. What reaches the upstream is an initial part of what the client sent, in order, in
  the chunks in which it was read, followed by exactly one shutdown once the direction has
  ended; without a write failure it is all that was read. The same holds towards the client.
\<close>

theorem relay_forwards_in_order:
  "delivers_in_order To_Upstream Shutdown_Upstream (lefts evs)
     (filter toward_upstream (snd (relay si evs))) \<and>
   delivers_in_order To_Client Shutdown_Client (rights evs)
     (filter (\<lambda>a. \<not> toward_upstream a) (snd (relay si evs)))"
  by (rule relay_in_order)

text \<open>
  Two schedules that give each direction the same events in the same order give the same
  result and the same traffic in each direction, wherever the events interleave and the
  statistics task ticks, and whatever the statistics interval is.
\<close>

lemma relay_schedule_independent:
  assumes "lefts evs = lefts evs'" and "rights evs = rights evs'"
  shows "fst (relay si evs) = fst (relay si' evs') \<and>
    filter toward_upstream (snd (relay si evs)) = filter toward_upstream (snd (relay si' evs')) \<and>
    filter (\<lambda>a. \<not> toward_upstream a) (snd (relay si evs)) =
      filter (\<lambda>a. \<not> toward_upstream a) (snd (relay si' evs'))"
  using assms pair.run_left [of si relay_new evs] pair.run_right [of si relay_new evs]
    pair.run_left [of si' relay_new evs'] pair.run_right [of si' relay_new evs']
  by (simp add: relay_returns snd_relay)

lemma relay_log_snoc:
  "rl_log (fst (task_run (relay_step si) s (es @ [e]))) =
     rl_log (fst (task_run (relay_step si) s es)) @
       (let s' = fst (task_run (relay_step si) s es) in
        if e = Tick \<and> 0 < si \<and> \<not> relay_joined s'
        then [(cp_counter (rl_tx s'), cp_counter (rl_rx s'))] else [])"
  by (cases e) (simp_all add: task_run_append task_run_Cons case_prod_unfold Let_def)

lemma relay_log_source:
  "x \<in> set (rl_log (fst (task_run (relay_step si) relay_new evs))) \<Longrightarrow>
     0 < si \<and> (\<exists>es fs. evs = es @ Tick # fs \<and>
       \<not> relay_joined (fst (task_run (relay_step si) relay_new es)) \<and>
       x = (cp_counter (rl_tx (fst (task_run (relay_step si) relay_new es))),
            cp_counter (rl_rx (fst (task_run (relay_step si) relay_new es)))))"
proof (induction evs rule: rev_induct)
  case (snoc e evs)
  show ?case
  proof (cases "x \<in> set (rl_log (fst (task_run (relay_step si) relay_new evs)))")
    case True
    from snoc.IH [OF this] show ?thesis by fastforce
  next
    case False
    with snoc.prems show ?thesis
      by (auto simp: relay_log_snoc Let_def split: if_splits intro: exI [of _ evs])
  qed
qed (simp add: relay_new_def)


section \<open>Witnesses\<close>

definition ping_events :: "relay_event list" where
  "ping_events = [Tx (Copy_Read ''ping'' All_Written), Tick, Rx (Copy_Read ''pong!'' All_Written),
     Tx (Copy_Read [] All_Written), Rx (Copy_Read [] All_Written)]"


end
