(* ===== verification/Semaphore.thy ===== *)
theory Semaphore
  imports Prelude
begin

text \<open>
  The interface of \<open>tokio::sync::Semaphore\<close>, which the program uses to limit connections and to
  report them. The library is not part of the repository, so its operations are an argument of
  every definition that uses them, the record \<open>sem_ops\<close>; the locale \<open>semaphore\<close> states the laws
  the program relies on, as the library documents them. Semaphores are shared through \<open>Arc\<close>:
  a proxy and its metrics entry hold the same one. A shared semaphore is therefore a reference
  into a store, and \<open>sem_ref\<close> the type of such references.
\<close>

type_synonym sem_ref = nat

text \<open>
  \<open>sem_new\<close> is \<open>None\<close> where \<open>Semaphore::new\<close> panics; \<open>sem_try_acquire\<close> is \<open>None\<close> where no permit
  is free; \<open>sem_release\<close> is the drop of an owned permit.
\<close>

record 's sem_ops =
  sem_new :: "usize \<Rightarrow> 's option"
  sem_available :: "'s \<Rightarrow> usize"
  sem_try_acquire :: "'s \<Rightarrow> 's option"
  sem_release :: "'s \<Rightarrow> 's"

text \<open>\<open>Semaphore::MAX_PERMITS\<close> on a 64-bit platform, \<open>usize::MAX >> 3\<close>.\<close>

definition max_permits :: usize where
  "max_permits = 2 ^ 61 - 1"

locale semaphore =
  fixes S :: "'s sem_ops"
  assumes new_panics: "sem_new S n = None \<longleftrightarrow> max_permits < n"
    and new_available: "sem_new S n = Some s \<Longrightarrow> sem_available S s = n"
    and acquire_none: "sem_try_acquire S s = None \<longleftrightarrow> sem_available S s = 0"
    and acquire_some: "sem_try_acquire S s = Some s' \<Longrightarrow> Suc (sem_available S s') = sem_available S s"
    and release_adds: "sem_available S (sem_release S s) = Suc (sem_available S s)"
begin

lemma acquire_available: "sem_try_acquire S s = Some s' \<Longrightarrow> sem_available S s' = sem_available S s - 1"
  using acquire_some [of s s'] by simp

lemma acquire_positive: "sem_try_acquire S s = Some s' \<Longrightarrow> 0 < sem_available S s"
  using acquire_some [of s s'] by simp

lemma acquire_release:
  "sem_try_acquire S s = Some s' \<Longrightarrow> sem_available S (sem_release S s') = sem_available S s"
  using acquire_some [of s s'] by (simp add: release_adds)

lemma acquire_possible: "0 < sem_available S s \<Longrightarrow> \<exists>s'. sem_try_acquire S s = Some s'"
  using acquire_none [of s] by (cases "sem_try_acquire S s") auto

end

text \<open>The counter that the documentation describes satisfies the laws.\<close>

definition counting_sem :: "usize sem_ops" where
  "counting_sem = \<lparr>sem_new = (\<lambda>n. if max_permits < n then None else Some n),
     sem_available = (\<lambda>s. s),
     sem_try_acquire = (\<lambda>s. if s = 0 then None else Some (s - 1)),
     sem_release = Suc\<rparr>"

interpretation counting: semaphore counting_sem
  by unfold_locales (auto simp: counting_sem_def split: if_splits)

text \<open>The number the program logs and reports: \<open>limit.saturating_sub(available_permits())\<close>.\<close>

definition active_connections :: "usize \<Rightarrow> usize \<Rightarrow> usize" where
  "active_connections limit available = limit - available"

end
