(* ===== verification/Upstreams.thy ===== *)
theory Upstreams
  imports Config_Types Upstream_Address Http_Connect Relay Semaphore
begin

text \<open>
  \<open>src/upstreams/mod.rs\<close>, \<open>src/upstreams/proxy_to_upstream/mod.rs\<close> and \<open>connect.rs\<close>: what happens
  to a connection once it has been routed.

  A \<open>conn_env\<close> holds everything the outside world answers to the calls one connection makes,
  from the peek at its first bytes to the last event of its relay. \<open>connect_upstream\<close>,
  \<open>proxy_proxy\<close> and \<open>process\<close> are functions of it; they return the outcome with the actions
  performed, and the upstream with its address cache updated. The lemmas show which addresses are
  tried, what is on the wire before the relay starts, that no client byte is forwarded unless the
  proxy has accepted the tunnel, and what the metrics page says.
\<close>

section \<open>The environment of a connection\<close>

text \<open>The outcome of \<open>timeout(t, TcpStream::connect(addrs))\<close>; the error of a timeout prints as given.\<close>

datatype connect_result = Connected | Connect_Failed io_error | Connect_Timeout string

text \<open>What \<open>io::copy\<close> does on an echo connection: it writes back what it has read, and ends.\<close>

datatype echo_event = Echo_Written bytes | Echo_Done "io_error + u64"

record conn_env =
  ce_info_enabled :: bool
  ce_peer_addr :: "io_error + sock_addr"
  ce_peek :: "(io_error + bytes) option"
  ce_shutdown :: "io_error + unit"
  ce_echo :: "echo_event list"
  ce_dns :: dns_env
  ce_connect :: "sock_addr list \<Rightarrow> duration \<Rightarrow> connect_result option"
  ce_nodelay_outbound :: "io_error + unit"
  ce_nodelay_inbound :: "io_error + unit"
  ce_writes :: "write_event list"
  ce_reads :: "read_event list"
  ce_relay :: "relay_event list"
  ce_vars :: env_vars
  ce_alnum :: "nat \<Rightarrow> bool"

text \<open>
  \<open>ce_peek\<close> is \<open>None\<close> while the client has sent nothing, \<open>ce_connect\<close> while the attempt is
  neither answered nor timed out.
\<close>

section \<open>ProxyError and ProxyToUpstream\<close>

definition proxy_error_display :: "string \<Rightarrow> string" where
  "proxy_error_display msg = ''proxy error: '' @ msg"

record proxy_to_upstream =
  pu_addr :: string
  pu_protocol :: string
  pu_addresses :: upstream_address

definition proxy_to_upstream_new :: "string \<Rightarrow> string \<Rightarrow> proxy_to_upstream" where
  "proxy_to_upstream_new address protocol =
     \<lparr>pu_addr = address, pu_protocol = protocol, pu_addresses = upstream_address_new address\<rparr>"

text \<open>The addresses are resolved before the timeout of the connection attempt starts.\<close>

definition connect_upstream ::
  "upstream_address \<Rightarrow> string \<Rightarrow> duration \<Rightarrow> conn_env \<Rightarrow> (action, unit) io \<times> upstream_address" where
  "connect_upstream addresses protocol timeout env =
     (if protocol \<notin> {''tcp4'', ''tcp6'', ''tcp''}
      then (io_fail (Boxed_Msg ''Reached unknown protocol''), addresses)
      else
        (let (r, addresses', t) = resolve addresses (mode_from_str protocol) (ce_dns env) in
         case r of
           Inl e \<Rightarrow> ((Fail (Boxed_Io e), t), addresses')
         | Inr addrs \<Rightarrow>
             (case ce_connect env addrs timeout of
                None \<Rightarrow> ((Pending, t @ [Connect addrs timeout]), addresses')
              | Some Connected \<Rightarrow> ((Ret (), t @ [Connect addrs timeout]), addresses')
              | Some (Connect_Failed e) \<Rightarrow>
                  ((Fail (Proxy_Error (''failed to connect to upstream: '' @ err_msg e)),
                    t @ [Connect addrs timeout]), addresses')
              | Some (Connect_Timeout m) \<Rightarrow>
                  ((Fail (Proxy_Error (''connection to upstream timed out: '' @ m)),
                    t @ [Connect addrs timeout]), addresses'))))"

definition proxy_proxy ::
  "proxy_to_upstream \<Rightarrow> via_upstream \<Rightarrow> string option \<Rightarrow> conn_env \<Rightarrow>
     (action, unit) io \<times> proxy_to_upstream" where
  "proxy_proxy pu via connect_target env =
     (let (outbound, addresses') =
        connect_upstream (pu_addresses pu) (pu_protocol pu) (via_connect_timeout via) env in
      (io_bind outbound (\<lambda>_.
       io_bind (io_try (ce_nodelay_outbound env)) (\<lambda>_.
       io_bind (io_try (ce_nodelay_inbound env)) (\<lambda>_.
       case connect_target of
         None \<Rightarrow>
           io_bind (relay (via_stats_interval via) (ce_relay env)) (\<lambda>_. io_ret ())
       | Some target \<Rightarrow>
           io_bind (http_connect (ce_alnum env) (ce_vars env) target (via_headers via)
                      (ce_writes env) (ce_reads env)) (\<lambda>_.
           io_bind (relay (via_stats_interval via) (ce_relay env)) (\<lambda>_. io_ret ()))))),
       pu\<lparr>pu_addresses := addresses'\<rparr>))"

section \<open>Upstream\<close>

record metrics_entry =
  me_name :: string
  me_listen :: string
  me_maxclients_limit :: usize
  me_semaphore :: sem_ref

type_synonym metrics = "metrics_entry list"

datatype upstream = Ban | Echo | Health metrics | Proxy proxy_to_upstream

text \<open>\<open>copy\<close> around \<open>io::copy\<close>, which is the library's; an error counts as zero bytes.\<close>

fun copy_io :: "echo_event list \<Rightarrow> (action, u64) io" where
  "copy_io [] = (Pending, [])"
| "copy_io (Echo_Written b # evs) = io_bind (io_act (To_Client b)) (\<lambda>_. copy_io evs)"
| "copy_io (Echo_Done (Inr n) # evs) = io_bind (io_act Shutdown_Client) (\<lambda>_. io_ret n)"
| "copy_io (Echo_Done (Inl e) # evs) = io_bind (io_act Shutdown_Client) (\<lambda>_. io_ret 0)"

fun process ::
  "upstream \<Rightarrow> via_upstream \<Rightarrow> string option \<Rightarrow> conn_env \<Rightarrow> (action, unit) io \<times> upstream" where
  "process Ban via connect_target env =
     (io_bind (io_act Shutdown_Client) (\<lambda>_. io_try (ce_shutdown env)), Ban)"
| "process Echo via connect_target env =
     (io_bind (copy_io (ce_echo env)) (\<lambda>_. io_ret ()), Echo)"
| "process (Health metrics) via connect_target env =
     (io_bind (io_act Serve_Http) (\<lambda>_. io_ret ()), Health metrics)"
| "process (Proxy config) via connect_target env =
     (let (r, config') = proxy_proxy config via connect_target env in (r, Proxy config'))"

section \<open>health\_handler\<close>

record response =
  rp_status :: nat
  rp_content_type :: "string option"
  rp_body :: string

definition writeln :: "string \<Rightarrow> string" where
  "writeln s = s @ newline"

definition metric_line :: "string \<Rightarrow> metrics_entry \<Rightarrow> usize \<Rightarrow> string" where
  "metric_line metric e n =
     writeln (metric @ ''{name='' @ dquote @ me_name e @ dquote @ '',listen='' @ dquote @ me_listen e
       @ dquote @ ''} '' @ show_nat n)"

text \<open>\<open>permits\<close> is \<open>available_permits\<close> of a shared semaphore, at the moment it is read for its line.\<close>

definition metrics_body :: "(sem_ref \<Rightarrow> usize) \<Rightarrow> metrics \<Rightarrow> string" where
  "metrics_body permits metrics =
     writeln ''# HELP tpt_active_connections Current number of active connections'' @
     writeln ''# TYPE tpt_active_connections gauge'' @
     concat (map (\<lambda>e. metric_line ''tpt_active_connections'' e
       (active_connections (me_maxclients_limit e) (permits (me_semaphore e)))) metrics) @
     writeln ''# HELP tpt_maxclients Maximum number of concurrent connections'' @
     writeln ''# TYPE tpt_maxclients gauge'' @
     concat (map (\<lambda>e. metric_line ''tpt_maxclients'' e (me_maxclients_limit e)) metrics)"

definition health_handler :: "(sem_ref \<Rightarrow> usize) \<Rightarrow> string \<Rightarrow> metrics \<Rightarrow> response" where
  "health_handler permits path metrics =
     (if path = ''/metrics''
      then \<lparr>rp_status = 200,
             rp_content_type = Some ''text/plain; version=0.0.4; charset=utf-8'',
             rp_body = metrics_body permits metrics\<rparr>
      else \<lparr>rp_status = 200, rp_content_type = None, rp_body = ''OK''\<rparr>)"

section \<open>What passes between client and upstream\<close>

text \<open>The bytes an upstream is sent over a whole connection, and those its client is sent.\<close>

definition wire_up :: "action list \<Rightarrow> bytes" where
  "wire_up t = concat (map (\<lambda>a. case a of Up_Write b \<Rightarrow> b | To_Upstream b \<Rightarrow> b | _ \<Rightarrow> []) t)"

definition wire_down :: "action list \<Rightarrow> bytes" where
  "wire_down t = concat (map (\<lambda>a. case a of To_Client b \<Rightarrow> b | _ \<Rightarrow> []) t)"

lemma wire_simps [simp]:
  "wire_up [] = []" "wire_down [] = []"
  "wire_up (t @ t') = wire_up t @ wire_up t'" "wire_down (t @ t') = wire_down t @ wire_down t'"
  "wire_up (a # t) = (case a of Up_Write b \<Rightarrow> b | To_Upstream b \<Rightarrow> b | _ \<Rightarrow> []) @ wire_up t"
  "wire_down (a # t) = (case a of To_Client b \<Rightarrow> b | _ \<Rightarrow> []) @ wire_down t"
  by (simp_all add: wire_up_def wire_down_def)

lemma wire_map [simp]:
  "wire_up (map To_Upstream chunks) = concat chunks" "wire_down (map To_Client chunks) = concat chunks"
  by (induction chunks) simp_all

text \<open>Before the relay starts, only the proxy itself talks to the upstream.\<close>

fun before_relay :: "action \<Rightarrow> bool" where
  "before_relay (Lookup h) = True"
| "before_relay (Connect as d) = True"
| "before_relay (Up_Write b) = True"
| "before_relay (Up_Read b) = True"
| "before_relay _ = False"

lemma before_relay_wire:
  "list_all before_relay t \<Longrightarrow> wire_up t = up_written t \<and> wire_down t = []"
proof (induction t)
  case (Cons a t)
  then show ?case by (cases a) (simp_all add: up_written_def)
qed simp

lemma write_loop_before_relay: "list_all before_relay (snd (write_loop buf written evs))"
  by (induction evs arbitrary: written) (auto simp: Let_def split: write_event.splits)

lemma read_loop_before_relay: "list_all before_relay (snd (read_loop acc evs))"
proof (induction acc evs rule: read_loop.induct)
  case (3 acc avail evs)
  then show ?case
    by (cases "parse_connect_status (acc @ take (inbufs_len - length acc) avail)")
      (auto simp: Let_def)
qed auto

lemma http_connect_before_relay: "list_all before_relay (snd (http_connect tbl env target hs wevs revs))"
  using write_loop_before_relay read_loop_before_relay
  by (auto simp: http_connect_def snd_io_bind lift_err_def split: sum.splits outcome.splits prod.splits)

lemma relay_action: "a \<in> set (snd (relay si evs)) \<Longrightarrow> \<not> before_relay a"
proof -
  have "a \<in> set (snd (task_run (relay_step si) s evs)) \<Longrightarrow> \<not> before_relay a" for s
  proof (induction evs arbitrary: s)
    case (Cons ev evs)
    then show ?case
      by (cases ev) (auto simp: task_run_Cons case_prod_unfold Let_def dest!: copy_counted_step_actions
          split: if_splits)
  qed simp
  then show "a \<in> set (snd (relay si evs)) \<Longrightarrow> \<not> before_relay a" by (simp add: snd_relay)
qed

lemma wire_filter:
  "\<forall>a \<in> set t. \<not> before_relay a \<Longrightarrow>
     wire_up t = wire_up (filter toward_upstream t) \<and>
     wire_down t = wire_down (filter (\<lambda>a. \<not> toward_upstream a) t)"
proof (induction t)
  case (Cons a t)
  then show ?case by (cases a) simp_all
qed simp

lemma relay_wire:
  "prefix (acked_bytes (lefts evs)) (wire_up (snd (relay si evs)))"
  "prefix (wire_up (snd (relay si evs))) (read_bytes (lefts evs))"
  "prefix (acked_bytes (rights evs)) (wire_down (snd (relay si evs)))"
  "prefix (wire_down (snd (relay si evs))) (read_bytes (rights evs))"
  using wire_filter [of "snd (relay si evs)"] relay_action [of _ si evs]
    relay_in_order [of evs si]
  by (auto simp: delivers_in_order_def split: if_splits)

lemma relay_wire_all:
  "\<not> write_fails (lefts evs) \<Longrightarrow> wire_up (snd (relay si evs)) = read_bytes (lefts evs)"
  "\<not> write_fails (rights evs) \<Longrightarrow> wire_down (snd (relay si evs)) = read_bytes (rights evs)"
  using wire_filter [of "snd (relay si evs)"] relay_action [of _ si evs]
    relay_in_order [of evs si]
  by (auto simp: delivers_in_order_def split: if_splits)

section \<open>The stages of a proxied connection\<close>

lemma resolve_trace: "snd (snd (resolve ua m e)) \<in> {[], [Lookup (ua_address ua)]}"
  by (simp add: resolve_def Let_def split: sum.splits)

text \<open>A known protocol, and the lookup and attempt that \<open>connect_upstream\<close> makes in it.\<close>

definition known_protocol :: "string \<Rightarrow> bool" where
  "known_protocol p \<longleftrightarrow> p \<in> {''tcp4'', ''tcp6'', ''tcp''}"

lemma connect_upstream_unknown:
  "\<not> known_protocol p \<Longrightarrow>
     connect_upstream ua p d env = (io_fail (Boxed_Msg ''Reached unknown protocol''), ua)"
  by (simp add: connect_upstream_def known_protocol_def)

lemma connect_upstream_known:
  assumes "known_protocol p" and "resolve ua (mode_from_str p) (ce_dns env) = (r, ua', t)"
  shows "snd (connect_upstream ua p d env) = ua' \<and>
    (case r of
       Inl e \<Rightarrow> fst (connect_upstream ua p d env) = (Fail (Boxed_Io e), t)
     | Inr as \<Rightarrow> snd (fst (connect_upstream ua p d env)) = t @ [Connect as d] \<and>
         (fst (fst (connect_upstream ua p d env)) = Ret () \<longleftrightarrow> ce_connect env as d = Some Connected))"
  unfolding connect_upstream_def assms(2)
  using assms(1)
  by (simp only: known_protocol_def [symmetric] if_False not_not Let_def prod.case simp_thms)
    (simp split: sum.split option.split connect_result.split)

lemma connect_upstream_trace:
  "list_all before_relay (snd (fst (connect_upstream ua p d env))) \<and>
   up_written (snd (fst (connect_upstream ua p d env))) = [] \<and>
   up_read (snd (fst (connect_upstream ua p d env))) = []"
proof (cases "known_protocol p")
  case True
  obtain r ua' t where r: "resolve ua (mode_from_str p) (ce_dns env) = (r, ua', t)"
    by (metis surj_pair)
  with resolve_trace [of ua "mode_from_str p" "ce_dns env"] connect_upstream_known [OF True r, of d]
  show ?thesis by (cases r) (auto simp: up_written_def up_read_def)
qed (simp add: connect_upstream_unknown)

definition handshake :: "via_upstream \<Rightarrow> string \<Rightarrow> conn_env \<Rightarrow> (action, unit) io" where
  "handshake via target env =
     http_connect (ce_alnum env) (ce_vars env) target (via_headers via) (ce_writes env) (ce_reads env)"

text \<open>
  A proxied connection is what happens before the relay, followed by the relay or by nothing.
  The first part is silent towards the client; towards the upstream it is silent too in direct
  mode, and is the handshake otherwise.
\<close>

lemma proxy_proxy_stages:
  "\<exists>pre. list_all before_relay pre \<and>
     (case target of
        None \<Rightarrow> up_written pre = [] \<and> up_read pre = []
      | Some tg \<Rightarrow>
          up_written pre \<in> {[], up_written (snd (handshake via tg env))} \<and>
          up_read pre \<in> {[], up_read (snd (handshake via tg env))}) \<and>
     ((\<exists>r. fst (proxy_proxy pu via target env) = (r, pre) \<and> r \<noteq> Ret ()) \<or>
      (case target of
         None \<Rightarrow> True
       | Some tg \<Rightarrow> fst (handshake via tg env) = Ret () \<and>
           up_written pre = up_written (snd (handshake via tg env)) \<and>
           up_read pre = up_read (snd (handshake via tg env))) \<and>
      snd (fst (proxy_proxy pu via target env)) = pre @ snd (relay (via_stats_interval via) (ce_relay env)) \<and>
      fst (fst (proxy_proxy pu via target env)) =
        (case fst (relay (via_stats_interval via) (ce_relay env)) of Ret _ \<Rightarrow> Ret ()
         | Fail e \<Rightarrow> Fail e | Pending \<Rightarrow> Pending))"
proof -
  obtain r t ua' where c: "connect_upstream (pu_addresses pu) (pu_protocol pu) (via_connect_timeout via) env
      = ((r, t), ua')" by (metis surj_pair)
  with connect_upstream_trace [of "pu_addresses pu" "pu_protocol pu" "via_connect_timeout via" env]
  have t: "list_all before_relay t" "up_written t = []" "up_read t = []" by simp_all
  show ?thesis
  proof (cases "(\<exists>u. r = Ret u) \<and> (\<exists>u. ce_nodelay_outbound env = Inr u) \<and> (\<exists>u. ce_nodelay_inbound env = Inr u)")
    case False
    with t c show ?thesis
      by (intro exI [of _ t]; cases r; cases "ce_nodelay_outbound env"; cases "ce_nodelay_inbound env")
        (auto simp: proxy_proxy_def split: option.splits)
  next
    case True
    show ?thesis
    proof (cases target)
      case None
      with True t c show ?thesis
        by (intro exI [of _ t]) (auto simp: proxy_proxy_def fst_io_bind snd_io_bind split: outcome.splits)
    next
      case (Some tg)
      with True t c show ?thesis
        using http_connect_before_relay [of "ce_alnum env" "ce_vars env" tg "via_headers via" "ce_writes env" "ce_reads env"]
        by (intro exI [of _ "t @ snd (handshake via tg env)"])
          (auto simp: proxy_proxy_def fst_io_bind snd_io_bind handshake_def split: outcome.splits)
    qed
  qed
qed

lemma relay_not_Fail: "fst (relay si evs) \<noteq> Fail e"
  by (auto simp: relay_def Let_def case_prod_unfold split: option.splits)

lemma relay_Ret:
  "fst (relay si evs) = Ret r \<Longrightarrow> copy_ends (lefts evs) \<and> copy_ends (rights evs)"
  by (simp add: relay_def case_prod_unfold Let_def relay_copiers split: if_splits)

lemma not_before_relay_up: "\<forall>a \<in> set t. \<not> before_relay a \<Longrightarrow> up_read t = [] \<and> up_written t = []"
proof (induction t)
  case (Cons a t)
  then show ?case by (cases a) (simp_all add: up_read_def up_written_def)
qed simp

lemma relay_up [simp]: "up_read (snd (relay si evs)) = []" "up_written (snd (relay si evs)) = []"
  using relay_action [of _ si evs] not_before_relay_up by blast+

text \<open>The same by outcome: when a byte has been relayed, everything before it had succeeded.\<close>

abbreviation proxied ::
  "proxy_to_upstream \<Rightarrow> via_upstream \<Rightarrow> string option \<Rightarrow> conn_env \<Rightarrow> action list" where
  "proxied pu via target env \<equiv> snd (fst (process (Proxy pu) via target env))"

lemma process_Proxy:
  "fst (process (Proxy pu) via target env) = fst (proxy_proxy pu via target env)"
  "snd (process (Proxy pu) via target env) = Proxy (snd (proxy_proxy pu via target env))"
  by (simp_all add: case_prod_unfold Let_def)

declare process.simps(4) [simp del]

lemma relayed_after_handshake:
  assumes "a \<in> set (proxied pu via (Some target) env)" and "\<not> before_relay a"
  shows "fst (handshake via target env) = Ret () \<and>
    wire_up (proxied pu via (Some target) env) =
      up_written (snd (handshake via target env)) @
        wire_up (snd (relay (via_stats_interval via) (ce_relay env))) \<and>
    wire_down (proxied pu via (Some target) env) =
      wire_down (snd (relay (via_stats_interval via) (ce_relay env))) \<and>
    up_read (proxied pu via (Some target) env) = up_read (snd (handshake via target env))"
proof -
  obtain pre where "list_all before_relay pre"
    and st: "(\<exists>r. fst (proxy_proxy pu via (Some target) env) = (r, pre) \<and> r \<noteq> Ret ()) \<or>
      fst (handshake via target env) = Ret () \<and>
      up_written pre = up_written (snd (handshake via target env)) \<and>
      up_read pre = up_read (snd (handshake via target env)) \<and>
      snd (fst (proxy_proxy pu via (Some target) env)) =
        pre @ snd (relay (via_stats_interval via) (ce_relay env))"
    using proxy_proxy_stages [where target = "Some target" and via = via and env = env and pu = pu]
    by auto
  moreover from this have "wire_up pre = up_written pre" "wire_down pre = []"
    using before_relay_wire by auto
  ultimately show ?thesis
    using assms by (auto simp: process_Proxy list_all_iff)
qed

lemma direct_stages:
  "prefix (wire_up (proxied pu via None env)) (read_bytes (lefts (ce_relay env))) \<and>
   prefix (wire_down (proxied pu via None env)) (read_bytes (rights (ce_relay env))) \<and>
   up_written (proxied pu via None env) = [] \<and> up_read (proxied pu via None env) = [] \<and>
   (fst (fst (process (Proxy pu) via None env)) = Ret () \<longrightarrow>
      copy_ends (lefts (ce_relay env)) \<and> copy_ends (rights (ce_relay env)) \<and>
      (\<not> write_fails (lefts (ce_relay env)) \<longrightarrow>
         wire_up (proxied pu via None env) = read_bytes (lefts (ce_relay env))) \<and>
      (\<not> write_fails (rights (ce_relay env)) \<longrightarrow>
         wire_down (proxied pu via None env) = read_bytes (rights (ce_relay env))))"
proof -
  let ?rl = "relay (via_stats_interval via) (ce_relay env)"
  obtain pre where pre: "list_all before_relay pre" "up_written pre = []" "up_read pre = []"
    and st: "(\<exists>r. fst (proxy_proxy pu via None env) = (r, pre) \<and> r \<noteq> Ret ()) \<or>
      snd (fst (proxy_proxy pu via None env)) = pre @ snd ?rl \<and>
      fst (fst (proxy_proxy pu via None env)) =
        (case fst ?rl of Ret _ \<Rightarrow> Ret () | Fail e \<Rightarrow> Fail e | Pending \<Rightarrow> Pending)"
    using proxy_proxy_stages [where target = None and via = via and env = env and pu = pu] by auto
  have w: "wire_up pre = []" "wire_down pre = []" using pre before_relay_wire by auto
  from st show ?thesis
  proof
    assume "\<exists>r. fst (proxy_proxy pu via None env) = (r, pre) \<and> r \<noteq> Ret ()"
    with pre w show ?thesis by (auto simp: process_Proxy)
  next
    assume st: "snd (fst (proxy_proxy pu via None env)) = pre @ snd ?rl \<and>
      fst (fst (proxy_proxy pu via None env)) =
        (case fst ?rl of Ret _ \<Rightarrow> Ret () | Fail e \<Rightarrow> Fail e | Pending \<Rightarrow> Pending)"
    then have "fst (fst (proxy_proxy pu via None env)) = Ret () \<longrightarrow> (\<exists>r. fst ?rl = Ret r)"
      by (auto split: outcome.splits)
    with relay_Ret [of "via_stats_interval via" "ce_relay env"] st pre w
      relay_wire [where si = "via_stats_interval via" and evs = "ce_relay env"]
      relay_wire_all [where si = "via_stats_interval via" and evs = "ce_relay env"]
    show ?thesis by (simp only: process_Proxy wire_simps up_written_simps up_read_simps relay_up
        append_Nil fst_conv snd_conv) blast
  qed
qed

text \<open>
  The wires of a connection with a CONNECT target, at any moment: before a byte is relayed, an initial
  part of the request; afterwards the handshake has succeeded and the rest is relayed.
\<close>

definition tunnelled ::
  "(string \<times> string) list \<Rightarrow> string \<Rightarrow> write_event list \<Rightarrow> relay_event list \<Rightarrow> action list \<Rightarrow> bool" where
  "tunnelled rs target wevs revs t \<longleftrightarrow>
     (\<exists>u. wire_up t = up_written t @ u \<and> prefix (up_written t) (request_text target rs) \<and>
        prefix u (read_bytes (lefts revs)) \<and> prefix (wire_down t) (read_bytes (rights revs)) \<and>
        ((\<exists>a \<in> set t. \<not> before_relay a) \<longrightarrow>
           (Try_Write 0 \<notin> set wevs \<longrightarrow> up_written t = request_text target rs) \<and>
           has_blank_line (up_read t) \<and>
           (\<exists>status. parse_connect_status (up_read t) = Inr status \<and> 200 \<le> status \<and> status \<le> 299)))"

lemma proxied_tunnelled:
  "case resolved_headers (ce_alnum env) (ce_vars env) (via_headers via) of
     Inl e \<Rightarrow> list_all before_relay (proxied pu via (Some target) env) \<and> up_written (proxied pu via (Some target) env) = []
   | Inr rs \<Rightarrow> tunnelled rs target (ce_writes env) (ce_relay env) (proxied pu via (Some target) env)"
proof -
  let ?t = "proxied pu via (Some target) env" and ?h = "handshake via target env"
  let ?rl = "relay (via_stats_interval via) (ce_relay env)"
  obtain pre where pre: "list_all before_relay pre" "up_written pre \<in> {[], up_written (snd ?h)}"
    and st: "?t = pre \<or> fst ?h = Ret () \<and> up_written pre = up_written (snd ?h) \<and>
      up_read pre = up_read (snd ?h) \<and> ?t = pre @ snd ?rl"
    using proxy_proxy_stages [where target = "Some target" and via = via and env = env and pu = pu]
    by (auto simp: process_Proxy)
  have w: "wire_up pre = up_written pre" "wire_down pre = []" using pre before_relay_wire by auto
  note sent = http_connect_sent [where tbl = "ce_alnum env" and env = "ce_vars env" and hs = "via_headers via"
      and target = target and wevs = "ce_writes env" and revs = "ce_reads env", folded handshake_def]
  show ?thesis
  proof (cases "resolved_headers (ce_alnum env) (ce_vars env) (via_headers via)")
    case (Inl e)
    with sent have "?h = io_fail e" by simp
    with pre st Inl show ?thesis by auto
  next
    case (Inr rs)
    with sent pre(2) have req: "prefix (up_written pre) (request_text target rs)" by auto
    from st have "tunnelled rs target (ce_writes env) (ce_relay env) ?t"
    proof
      assume "?t = pre"
      with pre(1) w req show ?thesis by (auto simp: tunnelled_def list_all_iff)
    next
      assume ok: "fst ?h = Ret () \<and> up_written pre = up_written (snd ?h) \<and>
        up_read pre = up_read (snd ?h) \<and> ?t = pre @ snd ?rl"
      with http_connect_Ret [of "ce_alnum env" "ce_vars env" target "via_headers via" "ce_writes env" "ce_reads env"] Inr
      show ?thesis
        unfolding tunnelled_def
        by (intro exI [of _ "wire_up (snd ?rl)"]) (auto simp: w relay_wire req handshake_def)
    qed
    with Inr show ?thesis by simp
  qed
qed

lemma tunnel_stages:
  assumes "a \<in> set (proxied pu via (Some target) env)" and "\<not> before_relay a"
  shows "\<exists>rs status u. resolved_headers (ce_alnum env) (ce_vars env) (via_headers via) = Inr rs \<and>
    wire_up (proxied pu via (Some target) env) = up_written (proxied pu via (Some target) env) @ u \<and>
    prefix (up_written (proxied pu via (Some target) env)) (request_text target rs) \<and>
    (Try_Write 0 \<notin> set (ce_writes env) \<longrightarrow>
       up_written (proxied pu via (Some target) env) = request_text target rs) \<and>
    prefix u (read_bytes (lefts (ce_relay env))) \<and>
    prefix (wire_down (proxied pu via (Some target) env)) (read_bytes (rights (ce_relay env))) \<and>
    has_blank_line (up_read (proxied pu via (Some target) env)) \<and>
    parse_connect_status (up_read (proxied pu via (Some target) env)) = Inr status \<and>
    200 \<le> status \<and> status \<le> 299"
  using assms proxied_tunnelled [where env = env and via = via and pu = pu and target = target]
  by (cases "resolved_headers (ce_alnum env) (ce_vars env) (via_headers via)")
    (auto simp: list_all_iff tunnelled_def)

text \<open>A proxied connection that has completed has forwarded everything, with or without a target.\<close>

lemma proxied_complete:
  assumes "a \<in> set (proxied pu via target env)" and "\<not> before_relay a"
    and "fst (fst (process (Proxy pu) via target env)) \<noteq> Pending"
  shows "copy_ends (lefts (ce_relay env)) \<and> copy_ends (rights (ce_relay env)) \<and>
    (\<not> write_fails (lefts (ce_relay env)) \<longrightarrow> wire_up (proxied pu via target env) =
       up_written (proxied pu via target env) @ read_bytes (lefts (ce_relay env))) \<and>
    (\<not> write_fails (rights (ce_relay env)) \<longrightarrow>
       wire_down (proxied pu via target env) = read_bytes (rights (ce_relay env)))"
proof -
  let ?rl = "relay (via_stats_interval via) (ce_relay env)"
  obtain pre where pre: "list_all before_relay pre"
    and st: "(\<exists>r. fst (proxy_proxy pu via target env) = (r, pre) \<and> r \<noteq> Ret ()) \<or>
      snd (fst (proxy_proxy pu via target env)) = pre @ snd ?rl \<and>
      fst (fst (proxy_proxy pu via target env)) =
        (case fst ?rl of Ret _ \<Rightarrow> Ret () | Fail e \<Rightarrow> Fail e | Pending \<Rightarrow> Pending)"
    using proxy_proxy_stages [where target = target and via = via and env = env and pu = pu] by auto
  have st: "snd (fst (proxy_proxy pu via target env)) = pre @ snd ?rl"
    "(case fst ?rl of Ret _ \<Rightarrow> Ret () | Fail e \<Rightarrow> Fail e | Pending \<Rightarrow> Pending) \<noteq> Pending"
    using assms st pre by (auto simp: process_Proxy list_all_iff)
  then obtain r where "fst ?rl = Ret r" using relay_not_Fail by (auto split: outcome.splits)
  moreover have "wire_up pre = up_written pre" "wire_down pre = []" using before_relay_wire [OF pre] by auto
  ultimately show ?thesis
    using relay_Ret [of "via_stats_interval via" "ce_relay env"] st(1)
      relay_wire_all [where si = "via_stats_interval via" and evs = "ce_relay env"]
    by (simp add: process_Proxy)
qed

text \<open>The addresses: the cache of an upstream is only ever used in the mode of its scheme.\<close>

fun upstream_ok :: "upstream \<Rightarrow> bool" where
  "upstream_ok (Proxy pu) = holds_mode (mode_from_str (pu_protocol pu)) (pu_addresses pu)"
| "upstream_ok _ = True"

lemma connect_upstream_ok:
  assumes "holds_mode (mode_from_str p) ua"
  shows "holds_mode (mode_from_str p) (snd (connect_upstream ua p d env)) \<and>
    (Connect as d' \<in> set (snd (fst (connect_upstream ua p d env))) \<longrightarrow>
       d' = d \<and> list_all (allowed (mode_from_str p)) as)"
proof (cases "known_protocol p")
  case True
  obtain r ua' t where r: "resolve ua (mode_from_str p) (ce_dns env) = (r, ua', t)"
    by (metis surj_pair)
  with resolve_trace [of ua "mode_from_str p" "ce_dns env"] connect_upstream_known [OF True r, of d]
    dns.res_allowed [OF assms, of "ce_dns env"] dns.inv_res [OF assms, of "ce_dns env"]
  show ?thesis by (cases r) auto
qed (simp add: connect_upstream_unknown assms)

lemma no_Connect:
  "Connect as d \<notin> set (snd (relay si evs))"
  "Connect as d \<notin> set (snd (http_connect tbl vars target hs wevs revs))"
proof -
  show "Connect as d \<notin> set (snd (relay si evs))" using relay_action by fastforce
  have "Connect as d \<notin> set (snd (write_loop buf written wevs))" for buf written
    by (induction wevs arbitrary: written) (auto simp: Let_def split: write_event.splits)
  moreover have "Connect as d \<notin> set (snd (read_loop acc revs))" for acc
  proof (induction acc revs rule: read_loop.induct)
    case (3 acc avail evs)
    then show ?case
      by (cases "parse_connect_status (acc @ take (inbufs_len - length acc) avail)") (auto simp: Let_def)
  qed auto
  ultimately show "Connect as d \<notin> set (snd (http_connect tbl vars target hs wevs revs))"
    by (auto simp: http_connect_def snd_io_bind split: outcome.splits prod.splits)
qed

lemma io_try_no_action [simp]: "snd (io_try r) = []"
  by (cases r) simp_all

lemma proxy_proxy_Connect:
  "Connect as d \<in> set (snd (fst (proxy_proxy pu via target env))) \<longrightarrow> Connect as d \<in> set
     (snd (fst (connect_upstream (pu_addresses pu) (pu_protocol pu) (via_connect_timeout via) env)))"
  using no_Connect
  by (auto simp: proxy_proxy_def case_prod_unfold Let_def snd_io_bind split: outcome.splits option.splits)

lemma proxy_proxy_frame [simp]:
  "pu_addr (snd (proxy_proxy pu via target env)) = pu_addr pu"
  "pu_protocol (snd (proxy_proxy pu via target env)) = pu_protocol pu"
  "pu_addresses (snd (proxy_proxy pu via target env)) =
     snd (connect_upstream (pu_addresses pu) (pu_protocol pu) (via_connect_timeout via) env)"
  by (simp_all add: proxy_proxy_def case_prod_unfold Let_def)

text \<open>What stays the same of an upstream: everything but what its address cache holds.\<close>

fun upstream_key :: "upstream \<Rightarrow> upstream" where
  "upstream_key (Proxy pu) =
     Proxy (pu\<lparr>pu_addresses := upstream_address_new (ua_address (pu_addresses pu))\<rparr>)"
| "upstream_key u = u"

lemma connect_upstream_address [simp]: "ua_address (snd (connect_upstream ua p d env)) = ua_address ua"
proof (cases "known_protocol p")
  case True
  obtain r ua' t where "resolve ua (mode_from_str p) (ce_dns env) = (r, ua', t)" by (metis surj_pair)
  with connect_upstream_known [OF True this] resolve_address [of ua "mode_from_str p" "ce_dns env"]
  show ?thesis by simp
qed (simp add: connect_upstream_unknown)

lemma process_key [simp]: "upstream_key (snd (process u via target env)) = upstream_key u"
  by (cases u) (simp_all add: process_Proxy)

lemma process_ok: "upstream_ok u \<Longrightarrow> upstream_ok (snd (process u via target env))"
  by (cases u) (simp_all add: process_Proxy connect_upstream_ok)

lemma process_Connect:
  assumes "upstream_ok u" and "Connect as d \<in> set (snd (fst (process u via target env)))"
  shows "\<exists>pu. u = Proxy pu \<and> d = via_connect_timeout via \<and> known_protocol (pu_protocol pu) \<and>
    list_all (allowed (mode_from_str (pu_protocol pu))) as"
proof (cases u)
  case Ban
  with assms(2) show ?thesis by (simp add: snd_io_bind)
next
  case Echo
  have "Connect as d \<notin> set (snd (copy_io evs))" for evs
    by (induction evs rule: copy_io.induct) simp_all
  with Echo assms(2) show ?thesis by (auto simp: snd_io_bind split: outcome.splits)
next
  case (Proxy pu)
  have "Connect as d \<in> set
      (snd (fst (connect_upstream (pu_addresses pu) (pu_protocol pu) (via_connect_timeout via) env)))"
    using assms(2) proxy_proxy_Connect by (simp add: Proxy process_Proxy)
  moreover from this have "known_protocol (pu_protocol pu)"
    by (rule contrapos_pp) (simp add: connect_upstream_unknown)
  ultimately show ?thesis
    using assms(1) connect_upstream_ok [of "pu_protocol pu" "pu_addresses pu"] by (auto simp: Proxy)
qed (use assms(2) in simp)

text \<open>The connections an upstream serves, one after the other, sharing its address cache.\<close>

type_synonym connection = "via_upstream \<times> string option \<times> conn_env"

fun process_run :: "upstream \<Rightarrow> connection list \<Rightarrow> action list list \<times> upstream" where
  "process_run u [] = ([], u)"
| "process_run u ((via, target, env) # cs) =
     (let (r, u') = process u via target env; (ts, u'') = process_run u' cs in (snd r # ts, u''))"

lemma process_run_Connect:
  "upstream_ok u \<Longrightarrow> ((via, target, env), t) \<in> set (zip cs (fst (process_run u cs))) \<Longrightarrow>
   Connect as d \<in> set t \<Longrightarrow>
     \<exists>pu. upstream_key u = upstream_key (Proxy pu) \<and> d = via_connect_timeout via \<and>
       known_protocol (pu_protocol pu) \<and> list_all (allowed (mode_from_str (pu_protocol pu))) as"
proof (induction u cs rule: process_run.induct)
  case (2 u via' target' env' cs)
  note run = "2.prems"(2) [simplified, unfolded case_prod_unfold Let_def, simplified]
  from run show ?case
  proof (elim disjE conjE)
    assume "t = snd (fst (process u via' target' env'))" "via = via'"
    with process_Connect [OF "2.prems"(1), of as d via' target' env'] "2.prems"(3)
    show ?thesis by fastforce
  next
    assume "((via, target, env), t) \<in> set (zip cs (fst (process_run (snd (process u via' target' env')) cs)))"
    with "2.IH" [OF refl prod.collapse process_ok [OF "2.prems"(1)] _ "2.prems"(3)]
    show ?thesis by simp
  qed
qed simp

text \<open>
  The server name is put into the label as it is. A name with a quotation mark and a line feed makes the
  line of one server begin with a complete line for another, with any listener and any number.
\<close>

lemma server_name_forges_metric_line:
  assumes "me_name e = name @ dquote @ '',listen='' @ dquote @ listen @ dquote @ ''} '' @ show_nat k @ newline @ rest"
  shows "prefix (metric_line metric (e\<lparr>me_name := name, me_listen := listen\<rparr>) k) (metric_line metric e n)"
  using assms by (simp add: metric_line_def writeln_def)

section \<open>Properties\<close>

text \<open>
  C1. With a CONNECT target, no byte is relayed in either direction before the proxy has accepted
  the tunnel. Whenever one has been, the upstream has been sent bytes of the request for that target
  and the configured headers and then an initial part of what the client sent; its answer carried a
  complete header with a status from 200 to 299; and the client has received only bytes that were
  read after that answer. The request has been sent in full unless the socket accepted a write with
  zero bytes: the write loop takes that as its end, so that then only an initial part is certain.
\<close>

theorem tunnel_before_relay:
  assumes "To_Upstream b \<in> set (proxied pu via (Some target) env) \<or>
      To_Client b \<in> set (proxied pu via (Some target) env)"
  shows "\<exists>rs status u. resolved_headers (ce_alnum env) (ce_vars env) (via_headers via) = Inr rs \<and>
    wire_up (proxied pu via (Some target) env) = up_written (proxied pu via (Some target) env) @ u \<and>
    prefix (up_written (proxied pu via (Some target) env)) (request_text target rs) \<and>
    (Try_Write 0 \<notin> set (ce_writes env) \<longrightarrow>
       up_written (proxied pu via (Some target) env) = request_text target rs) \<and>
    prefix u (read_bytes (lefts (ce_relay env))) \<and>
    prefix (wire_down (proxied pu via (Some target) env)) (read_bytes (rights (ce_relay env))) \<and>
    has_blank_line (up_read (proxied pu via (Some target) env)) \<and>
    parse_connect_status (up_read (proxied pu via (Some target) env)) = Inr status \<and>
    200 \<le> status \<and> status \<le> 299"
  using assms tunnel_stages [of "To_Upstream b"] tunnel_stages [of "To_Client b"]
  by (elim disjE) (simp_all only: before_relay.simps not_False_eq_True)

text \<open>
  C10. Without a CONNECT target the tunnel is transparent: the proxy adds no byte of its own. At any
  moment each side has been sent an initial part of what was read from the other. When \<open>process\<close> has
  returned with success, both directions have ended (by end of stream, a failed read or a failed
  write), and a side to which no write failed has been sent exactly what was read from the other.
\<close>

theorem direct_forward_is_transparent:
  "prefix (wire_up (proxied pu via None env)) (read_bytes (lefts (ce_relay env))) \<and>
   prefix (wire_down (proxied pu via None env)) (read_bytes (rights (ce_relay env))) \<and>
   up_written (proxied pu via None env) = [] \<and> up_read (proxied pu via None env) = [] \<and>
   (fst (fst (process (Proxy pu) via None env)) = Ret () \<longrightarrow>
      copy_ends (lefts (ce_relay env)) \<and> copy_ends (rights (ce_relay env)) \<and>
      (\<not> write_fails (lefts (ce_relay env)) \<longrightarrow>
         wire_up (proxied pu via None env) = read_bytes (lefts (ce_relay env))) \<and>
      (\<not> write_fails (rights (ce_relay env)) \<longrightarrow>
         wire_down (proxied pu via None env) = read_bytes (rights (ce_relay env))))"
  by (rule direct_stages)

text \<open>
  An upstream declared \<open>tcp4\<close> is only ever connected to at IPv4 addresses and one declared
  \<open>tcp6\<close> only at IPv6 addresses, over any sequence of connections that share its address cache,
  whatever the resolver answers; each attempt is given exactly the connect timeout of the \<open>via\<close>
  of its own connection; and an upstream with any other scheme is never connected to.
\<close>

lemma upstream_connects_in_mode:
  assumes "((via, target, env), t) \<in> set (zip cs
      (fst (process_run (Proxy (proxy_to_upstream_new address scheme)) cs)))"
    and "Connect as d \<in> set t"
  shows "d = via_connect_timeout via \<and> scheme \<in> {''tcp'', ''tcp4'', ''tcp6''} \<and>
    (scheme = ''tcp4'' \<longrightarrow> list_all is_ipv4 as) \<and> (scheme = ''tcp6'' \<longrightarrow> list_all is_ipv6 as)"
proof -
  have "upstream_ok (Proxy (proxy_to_upstream_new address scheme))"
    by (simp add: proxy_to_upstream_new_def holds_mode_new)
  from process_run_Connect [OF this assms] obtain pu
    where "upstream_key (Proxy (proxy_to_upstream_new address scheme)) = upstream_key (Proxy pu)"
      and pu: "d = via_connect_timeout via" "known_protocol (pu_protocol pu)"
        "list_all (allowed (mode_from_str (pu_protocol pu))) as" by blast
  then have "pu_protocol pu = scheme"
    by (cases pu) (simp add: proxy_to_upstream_new_def)
  with pu show ?thesis by (auto simp: known_protocol_def mode_from_str_def list_all_iff)
qed

text \<open>
  C37. A connection that ends in an error has relayed nothing: no byte of the client has reached
  the upstream and none of the upstream has reached the client. Only the stages before the relay
  can fail.
\<close>

theorem failure_relays_nothing:
  assumes "fst (fst (process (Proxy pu) via target env)) = Fail e"
  shows "list_all before_relay (proxied pu via target env) \<and>
    wire_down (proxied pu via target env) = [] \<and>
    wire_up (proxied pu via target env) = up_written (proxied pu via target env)"
proof -
  obtain pre where pre: "list_all before_relay pre"
    and st: "(\<exists>r. fst (proxy_proxy pu via target env) = (r, pre) \<and> r \<noteq> Ret ()) \<or>
      fst (fst (proxy_proxy pu via target env)) =
        (case fst (relay (via_stats_interval via) (ce_relay env)) of Ret _ \<Rightarrow> Ret ()
         | Fail e \<Rightarrow> Fail e | Pending \<Rightarrow> Pending)"
    using proxy_proxy_stages [where target = target and via = via and env = env and pu = pu] by blast
  have "(case fst (relay (via_stats_interval via) (ce_relay env)) of Ret _ \<Rightarrow> Ret ()
         | Fail e \<Rightarrow> Fail e | Pending \<Rightarrow> Pending) \<noteq> Fail e"
    using relay_not_Fail [of "via_stats_interval via" "ce_relay env"]
    by (cases "fst (relay (via_stats_interval via) (ce_relay env))") simp_all
  with st assms have "snd (fst (proxy_proxy pu via target env)) = pre"
    by (auto simp: process_Proxy)
  with pre before_relay_wire show ?thesis by (simp add: process_Proxy)
qed

lemma has_blank_line_append: "has_blank_line a \<Longrightarrow> has_blank_line (a @ b)"
  by (induction a rule: has_blank_line.induct) auto

lemma read_loop_first:
  "has_blank_line d \<Longrightarrow> take inbufs_len d = d \<Longrightarrow> d \<noteq> [] \<Longrightarrow>
     up_read (snd (read_loop [] (Try_Read d # evs))) = d"
  by (cases "parse_connect_status d") (simp_all add: Let_def)

text \<open>
  Bytes that the upstream sends directly behind its CONNECT response, in the same segment,
  are lost: they are read with the header and never reach the client, who is sent only what
  later reads bring.
\<close>

lemma early_upstream_bytes_are_lost:
  assumes "ce_reads env = Try_Read (h @ early) # evs" and "has_blank_line h"
    and "length (h @ early) \<le> inbufs_len"
    and "To_Client b \<in> set (proxied pu via (Some target) env)"
  shows "up_read (proxied pu via (Some target) env) = h @ early \<and>
    prefix (wire_down (proxied pu via (Some target) env)) (read_bytes (rights (ce_relay env)))"
proof -
  note tunnel = relayed_after_handshake [OF assms(4), simplified]
  have b: "has_blank_line (h @ early)" "take inbufs_len (h @ early) = h @ early" "h @ early \<noteq> []"
    using assms(2,3) has_blank_line_append by auto
  have "fst (handshake via target env) = Ret ()" using tunnel by blast
  then obtain req where req: "connect_request (ce_alnum env) (ce_vars env) target (via_headers via) = Inr req"
    and "fst (write_loop req 0 (ce_writes env)) = Ret ()"
    by (cases "connect_request (ce_alnum env) (ce_vars env) target (via_headers via)")
      (auto simp: handshake_def http_connect_def io_bind_eq_Ret)
  moreover have "up_read (snd (read_loop [] (Try_Read (h @ early) # evs))) = h @ early"
    using b by (intro read_loop_first)
  ultimately have "up_read (snd (handshake via target env)) = h @ early"
    unfolding handshake_def http_connect_unfold [OF req] assms(1)
    by (simp add: snd_io_bind split: outcome.split prod.split del: read_loop.simps)
  with tunnel relay_wire(4) [of "via_stats_interval via" "ce_relay env"] show ?thesis by simp
qed

section \<open>Witnesses\<close>

definition env_up :: "read_event list \<Rightarrow> conn_env" where
  "env_up revs = \<lparr>ce_info_enabled = True, ce_peer_addr = Inr up4, ce_peek = Some (Inr ''hello''),
     ce_shutdown = Inr (), ce_echo = [], ce_dns = dns_up 0,
     ce_connect = (\<lambda>as d. if as = [] then None else Some Connected),
     ce_nodelay_outbound = Inr (), ce_nodelay_inbound = Inr (),
     ce_writes = [Try_Write 7, Write_Err (Io_Error WouldBlock ''''), Try_Write 100],
     ce_reads = revs, ce_relay = ping_events, ce_vars = env_pw, ce_alnum = no_table\<rparr>"

definition via_pw :: via_upstream where
  "via_pw = \<lparr>via_headers = [(''Proxy-Authorization'', ''Basic $PW'')], via_target = ''a:443'',
     via_connect_timeout = from_secs 5, via_use_sni_as_target = False, via_target_port = 443,
     via_stats_interval = 0\<rparr>"

definition upstream_h80 :: proxy_to_upstream where
  "upstream_h80 = proxy_to_upstream_new ''h:80'' ''tcp4''"

lemma connect_h80:
  "fst (connect_upstream (pu_addresses upstream_h80) (pu_protocol upstream_h80) d (env_up revs)) =
     (Ret (), [Lookup ''h:80'', Connect [up4] d])"
  by (simp add: upstream_h80_def proxy_to_upstream_new_def connect_upstream_def env_up_def
      dns_example_defs)

lemma relay_ping:
  "relay 0 ping_events = (Ret (4, 5),
     [To_Upstream ''ping'', To_Client ''pong!'', Shutdown_Upstream, Shutdown_Client])"
  by (simp add: relay_def ping_events_def task_run_Cons copy_counted_step_def copier_new_def
      relay_new_def copy_buf_len_def)

lemma handshake_a443:
  "handshake via_pw ''a:443'' (env_up [Try_Read ok_response]) =
     (Ret (), [Up_Write (take 7 request_a443), Up_Write (drop 7 request_a443), Up_Read ok_response])"
  using connect_a443 by (simp add: handshake_def via_pw_def env_up_def)

lemma proxy_a443:
  "fst (proxy_proxy upstream_h80 via_pw (Some ''a:443'') (env_up [Try_Read ok_response])) =
     (Ret (), [Lookup ''h:80'', Connect [up4] (from_secs 5), Up_Write (take 7 request_a443),
        Up_Write (drop 7 request_a443), Up_Read ok_response,
        To_Upstream ''ping'', To_Client ''pong!'', Shutdown_Upstream, Shutdown_Client])"
  using connect_h80 [of "from_secs 5" "[Try_Read ok_response]"] handshake_a443 relay_ping
  by (simp add: proxy_proxy_def handshake_def case_prod_unfold Let_def)
    (simp add: via_pw_def env_up_def)

theorem tunnel_before_relay_witness:
  "\<exists>rs u. resolved_headers no_table env_pw (via_headers via_pw) = Inr rs \<and>
     wire_up (proxied upstream_h80 via_pw (Some ''a:443'') (env_up [Try_Read ok_response])) =
       request_text ''a:443'' rs @ u"
proof -
  have env: "Try_Write 0 \<notin> set (ce_writes (env_up [Try_Read ok_response]))"
    "ce_alnum (env_up [Try_Read ok_response]) = no_table" "ce_vars (env_up [Try_Read ok_response]) = env_pw"
    by (simp_all add: env_up_def)
  have "To_Upstream ''ping'' \<in> set (proxied upstream_h80 via_pw (Some ''a:443'')
      (env_up [Try_Read ok_response]))"
    by (simp add: process_Proxy proxy_a443)
  from tunnel_before_relay [OF disjI1 [OF this]] env show ?thesis by auto
qed

theorem direct_forward_is_transparent_witness:
  "wire_up (proxied upstream_h80 via_pw None (env_up [])) = ''ping'' \<and>
   wire_down (proxied upstream_h80 via_pw None (env_up [])) = ''pong!''"
proof -
  have "fst (fst (process (Proxy upstream_h80) via_pw None (env_up []))) = Ret ()"
    using connect_h80 [of "from_secs 5" "[]"] relay_ping
    by (simp add: process_Proxy proxy_proxy_def case_prod_unfold Let_def)
      (simp add: via_pw_def env_up_def)
  with direct_forward_is_transparent [of upstream_h80 via_pw "env_up []"] show ?thesis
    by (simp add: env_up_def ping_events_def copy_buf_len_def)
qed

definition env_refused :: conn_env where
  "env_refused = (env_up [])\<lparr>ce_connect := (\<lambda>as d. Some (Connect_Failed (Io_Error (OtherKind 1) ''refused'')))\<rparr>"

theorem failure_relays_nothing_witness:
  "wire_down (proxied upstream_h80 via_pw None env_refused) = []"
  using failure_relays_nothing [of upstream_h80 via_pw None env_refused
      "Proxy_Error (''failed to connect to upstream: '' @ ''refused'')"]
  by (simp add: process_Proxy proxy_proxy_def upstream_h80_def proxy_to_upstream_new_def
      connect_upstream_def env_refused_def env_up_def dns_example_defs)

lemma ok_response_early:
  "read_loop [] [Try_Read (ok_response @ ''early'')] =
     (Ret (200, ok_response @ ''early''), [Up_Read (ok_response @ ''early'')])"
proof -
  have s: "parse_connect_status (ok_response @ ''early'') = Inr 200"
    using parse_connect_status_line [of "''HTTP/1.1''" 200 "''OK'' @ crlf @ crlf @ ''early''"]
    by (simp add: ok_response_def show_nat.simps ascii_def byte_def is_whitespace_def Let_def)
  have "has_blank_line (ok_response @ ''early'')" "length (ok_response @ ''early'') \<le> inbufs_len"
    by (simp_all add: ok_response_def inbufs_len_def)
  with s show ?thesis by (simp add: Let_def)
qed

end
