(* ===== verification/Config_Loader.thy ===== *)
theory Config_Loader
  imports Config_Types Upstreams
begin

text \<open>
  \<open>src/config/loader.rs\<close>: from a path to a verified \<open>ParsedConfig\<close>.

  The file system, the YAML library, the URL library and the process environment are the fields
  of \<open>load_env\<close>. A \<open>HashSet\<close> is the list of its elements in order of insertion; the order in
  which it is iterated is open, and is the field \<open>le_order\<close>. Beside its result \<open>load_config\<close>
  yields the logger it has installed, if any. The lemmas say exactly which configurations are
  accepted, whatever the iteration orders, what the table of upstreams then contains, and which
  upstreams the log warns about.
\<close>

section \<open>Types\<close>

record parsed_config =
  pc_version :: int
  pc_log :: "string option"
  pc_servers :: "(string, server_config) hash_map"
  pc_upstream :: "(string, upstream) hash_map"

record config =
  cf_base :: parsed_config

text \<open>What the program asks of a parsed URL.\<close>

record url =
  url_host_str :: "string option"
  url_port_or_known_default :: "u16 option"
  url_scheme :: string

type_synonym url_parser = "string \<Rightarrow> url option"

text \<open>The logger: the filters taken from the configuration, unless \<open>RUST_LOG\<close> decides; the format.\<close>

record logger =
  lg_filters :: "string option"
  lg_json :: bool

record load_env =
  le_open :: "string \<Rightarrow> io_error + (io_error + bytes)"
  le_yaml :: "string \<Rightarrow> yaml_error + raw_base"
  le_url :: url_parser
  le_rust_log :: "var_error + string"
  le_order :: "string list \<Rightarrow> string list"

section \<open>TryFrom<&str> for ProxyToUpstream\<close>

definition ok_or_else :: "'a option \<Rightarrow> 'e \<Rightarrow> 'e + 'a" where
  "ok_or_else x e = (case x of None \<Rightarrow> Inl e | Some a \<Rightarrow> Inr a)"

definition proxy_try_from :: "url_parser \<Rightarrow> string \<Rightarrow> config_error + proxy_to_upstream" where
  "proxy_try_from parse value =
     (case ok_or_else (parse value) (Custom (''Invalid upstream url '' @ value)) of
        Inl e \<Rightarrow> Inl e
      | Inr upstream_url \<Rightarrow>
     (case ok_or_else (url_host_str upstream_url) (Custom (''Invalid upstream url '' @ value)) of
        Inl e \<Rightarrow> Inl e
      | Inr upstream_host \<Rightarrow>
     (case ok_or_else (url_port_or_known_default upstream_url) (Custom (''Invalid upstream url '' @ value)) of
        Inl e \<Rightarrow> Inl e
      | Inr upstream_port \<Rightarrow>
          if url_scheme upstream_url \<in> {''tcp'', ''tcp4'', ''tcp6''} then
            Inr (proxy_to_upstream_new (upstream_host @ '':'' @ show_nat (unat upstream_port))
                   (url_scheme upstream_url))
          else Inl (Custom (''Invalid upstream scheme '' @ value)))))"

section \<open>verify\_config\<close>

definition hs_insert :: "string \<Rightarrow> string list \<Rightarrow> string list" where
  "hs_insert x s = (if x \<in> set s then s else s @ [x])"

fun verify_listen :: "string list \<Rightarrow> string list \<Rightarrow> config_error + string list" where
  "verify_listen listen_addresses [] = Inr listen_addresses"
| "verify_listen listen_addresses (listen # ls) =
     (if listen \<in> set listen_addresses
      then Inl (Custom (''Duplicate listen address '' @ listen))
      else verify_listen (hs_insert listen listen_addresses) ls)"

definition use_upstreams :: "server_config \<Rightarrow> string list \<Rightarrow> string list" where
  "use_upstreams server used =
     (let used' = (case (or_else (sc_tls server) False, sc_sni server) of
          (True, Some sni_map) \<Rightarrow> fold (\<lambda>t. hs_insert (upstream_name t)) (hm_values sni_map) used
        | _ \<Rightarrow> used)
      in case sc_default server of Some d \<Rightarrow> hs_insert d used' | None \<Rightarrow> used')"

fun verify_known :: "(string, upstream) hash_map \<Rightarrow> string list \<Rightarrow> config_error + unit" where
  "verify_known upstream [] = Inr ()"
| "verify_known upstream (key # keys) =
     (if hm_get upstream key = None then Inl (Custom (''Upstream '' @ key @ '' not found''))
      else verify_known upstream keys)"

fun verify_servers ::
  "(string list \<Rightarrow> string list) \<Rightarrow> (string, upstream) hash_map \<Rightarrow> string list \<Rightarrow> string list \<Rightarrow>
     server_config list \<Rightarrow> config_error + string list" where
  "verify_servers order upstream used listen_addresses [] = Inr used"
| "verify_servers order upstream used listen_addresses (server # servers) =
     (case verify_listen listen_addresses (sc_listen server) of
        Inl e \<Rightarrow> Inl e
      | Inr listen_addresses' \<Rightarrow>
          (let used' = use_upstreams server used in
           case verify_known upstream (order used') of
             Inl e \<Rightarrow> Inl e
           | Inr _ \<Rightarrow> verify_servers order upstream used' listen_addresses' servers))"

text \<open>The upstream names that a warning is logged for.\<close>

definition unused_upstreams :: "string list \<Rightarrow> string list \<Rightarrow> string list" where
  "unused_upstreams upstream_names used =
     filter (\<lambda>key. key \<notin> set used \<and> key \<notin> {''echo'', ''ban'', ''health''}) upstream_names"

definition verify_config ::
  "(string list \<Rightarrow> string list) \<Rightarrow> parsed_config \<Rightarrow> (config_error + parsed_config) \<times> string list" where
  "verify_config order config =
     (case verify_servers order (pc_upstream config) [] [] (hm_values (pc_servers config)) of
        Inl e \<Rightarrow> (Inl e, [])
      | Inr used_upstreams \<Rightarrow>
          (Inr config, unused_upstreams (order (map fst (pc_upstream config))) used_upstreams))"

section \<open>load\_config\<close>

definition builtin_upstreams :: "(string, upstream) hash_map" where
  "builtin_upstreams = [(''ban'', Ban), (''echo'', Echo), (''health'', Health [])]"

fun add_upstreams ::
  "url_parser \<Rightarrow> (string, string) hash_map \<Rightarrow> (string, upstream) hash_map \<Rightarrow>
     config_error + (string, upstream) hash_map" where
  "add_upstreams parse [] upstream = Inr upstream"
| "add_upstreams parse ((name, url) # urls) upstream =
     (case proxy_try_from parse url of
        Inl e \<Rightarrow> Inl e
      | Inr p \<Rightarrow> add_upstreams parse urls (hm_insert name (Proxy p) upstream))"

definition read_to_string :: "io_error + bytes \<Rightarrow> io_error + string" where
  "read_to_string r =
     (case r of
        Inl e \<Rightarrow> Inl e
      | Inr b \<Rightarrow>
          (case from_utf8 b of
             Some s \<Rightarrow> Inr s
           | None \<Rightarrow> Inl (Io_Error (OtherKind 0) ''stream did not contain valid UTF-8'')))"

definition logger_of :: "var_error + string \<Rightarrow> string \<Rightarrow> string \<Rightarrow> logger option" where
  "logger_of rust_log log_level log_format =
     (if log_level \<noteq> ''disable'' then
        Some \<lparr>lg_filters = (case rust_log of Inl _ \<Rightarrow> Some log_level | Inr _ \<Rightarrow> None),
              lg_json = (log_format = ''json'')\<rparr>
      else None)"

text \<open>
  A line of the log in the format \<open>json\<close>. Time stamp, level and target are put between quotes as they
  are; the message is printed by \<open>serde_json\<close>, whose printer \<open>json_string\<close> is a parameter.
\<close>

definition json_log_line :: "(string \<Rightarrow> string) \<Rightarrow> string \<Rightarrow> string \<Rightarrow> string \<Rightarrow> string \<Rightarrow> string" where
  "json_log_line json_string ts level target args =
     ''{'' @ dquote @ ''ts'' @ dquote @ '':'' @ dquote @ ts @ dquote @ '','' @
     dquote @ ''level'' @ dquote @ '':'' @ dquote @ level @ dquote @ '','' @
     dquote @ ''target'' @ dquote @ '':'' @ dquote @ target @ dquote @ '','' @
     dquote @ ''msg'' @ dquote @ '':'' @ json_string args @ ''}'' @ newline"

definition load_config ::
  "load_env \<Rightarrow> string \<Rightarrow> (config_error + parsed_config) \<times> logger option" where
  "load_config env path =
     (case le_open env path of
        Inl e \<Rightarrow> (Inl (config_error_from_io e), None)
      | Inr file \<Rightarrow>
     (case read_to_string file of
        Inl e \<Rightarrow> (Inl (config_error_from_io e), None)
      | Inr contents \<Rightarrow>
     (case le_yaml env contents of
        Inl e \<Rightarrow> (Inl (config_error_from_yaml e), None)
      | Inr raw \<Rightarrow>
        (let base = base_of_raw raw;
             log_level = or_else (bc_log base) ''info'';
             log_format = or_else (bc_log_format base) ''txt''
         in
         if bc_version base \<notin> {1, 2} then
           (Inl (Custom (''Unsupported config version '' @ show_int (bc_version base))), None)
         else if log_format \<notin> {''txt'', ''text'', ''json''} then
           (Inl (Custom (''Invalid log-format '' @ [CHR 0x27] @ log_format @ [CHR 0x27] @
              '': must be '' @ [CHR 0x27] @ ''txt'' @ [CHR 0x27] @ '', '' @ [CHR 0x27] @ ''text'' @
              [CHR 0x27] @ '' or '' @ [CHR 0x27] @ ''json'' @ [CHR 0x27])), None)
         else
           ((case add_upstreams (le_url env) (bc_upstream base) builtin_upstreams of
               Inl e \<Rightarrow> Inl e
             | Inr upstream \<Rightarrow>
                 fst (verify_config (le_order env)
                   \<lparr>pc_version = bc_version base, pc_log = bc_log base,
                    pc_servers = bc_servers base, pc_upstream = upstream\<rparr>)),
            logger_of (le_rust_log env) log_level log_format)))))"

definition config_new :: "load_env \<Rightarrow> string \<Rightarrow> (config_error + config) \<times> logger option" where
  "config_new env path =
     (case load_config env path of
        (Inl e, l) \<Rightarrow> (Inl e, l)
      | (Inr base, l) \<Rightarrow> (Inr \<lparr>cf_base = base\<rparr>, l))"

section \<open>Verification\<close>

lemma set_hs_insert [simp]: "set (hs_insert x s) = insert x (set s)"
  by (auto simp: hs_insert_def)

definition uses :: "server_config \<Rightarrow> string set" where
  "uses server =
     (case (sc_tls server, sc_sni server) of
        (Some True, Some m) \<Rightarrow> upstream_name ` set (hm_values m)
      | _ \<Rightarrow> {}) \<union> set_option (sc_default server)"

lemma set_fold_hs_insert: "set (fold (\<lambda>t. hs_insert (f t)) ts s) = set s \<union> f ` set ts"
  by (induction ts arbitrary: s) auto

lemma set_use_upstreams: "set (use_upstreams server used) = set used \<union> uses server"
  by (auto simp: use_upstreams_def uses_def Let_def set_fold_hs_insert or_else_def
      split: option.splits bool.splits)

lemma verify_listen_Inr:
  "(\<exists>la'. verify_listen la ls = Inr la') \<longleftrightarrow> distinct ls \<and> set ls \<inter> set la = {}"
  "verify_listen la ls = Inr la' \<Longrightarrow> set la' = set la \<union> set ls"
  by (induction la ls arbitrary: la' rule: verify_listen.induct) (auto split: if_splits)

lemma verify_known_Inr:
  "verify_known upstream keys = Inr u \<longleftrightarrow> (\<forall>k \<in> set keys. hm_get upstream k \<noteq> None)"
  by (induction keys) auto

text \<open>A configuration that verification accepts.\<close>

definition well_formed :: "server_config list \<Rightarrow> (string, upstream) hash_map \<Rightarrow> bool" where
  "well_formed servers upstream \<longleftrightarrow>
     distinct (concat (map sc_listen servers)) \<and>
     (\<forall>server \<in> set servers. \<forall>k \<in> uses server. hm_get upstream k \<noteq> None)"

text \<open>Some iteration order: a function that returns the elements it is given, in any order.\<close>

definition iterates :: "(string list \<Rightarrow> string list) \<Rightarrow> bool" where
  "iterates order \<longleftrightarrow> (\<forall>xs. set (order xs) = set xs)"

lemma verify_servers_Inr:
  assumes "iterates order" and "\<forall>k \<in> set used. hm_get upstream k \<noteq> None"
  shows "(\<exists>u. verify_servers order upstream used la servers = Inr u) \<longleftrightarrow>
    well_formed servers upstream \<and> set (concat (map sc_listen servers)) \<inter> set la = {}"
  using assms(2)
proof (induction servers arbitrary: used la)
  case (Cons server servers)
  let ?used = "use_upstreams server used"
  show ?case
  proof (cases "verify_listen la (sc_listen server)")
    case (Inl e)
    then have "\<not> (distinct (sc_listen server) \<and> set (sc_listen server) \<inter> set la = {})"
      using verify_listen_Inr(1) [of la "sc_listen server"] by simp
    with Inl show ?thesis by (auto simp: well_formed_def)
  next
    case (Inr la')
    then have la: "distinct (sc_listen server)" "set (sc_listen server) \<inter> set la = {}"
        "set la' = set la \<union> set (sc_listen server)"
      using verify_listen_Inr [of la "sc_listen server"] by auto
    have known: "verify_known upstream (order ?used) = Inr () \<longleftrightarrow>
        (\<forall>k \<in> uses server. hm_get upstream k \<noteq> None)"
      using Cons.prems assms(1) by (auto simp: verify_known_Inr set_use_upstreams iterates_def)
    show ?thesis
    proof (cases "verify_known upstream (order ?used)")
      case (Inl e)
      with known Inr show ?thesis by (auto simp: well_formed_def)
    next
      case (Inr v)
      with known have uses: "\<forall>k \<in> uses server. hm_get upstream k \<noteq> None" by simp
      then have "\<forall>k \<in> set ?used. hm_get upstream k \<noteq> None"
        using Cons.prems by (auto simp: set_use_upstreams)
      from Cons.IH [OF this, of la'] Inr \<open>verify_listen la (sc_listen server) = Inr la'\<close> la uses
      show ?thesis by (auto simp: well_formed_def)
    qed
  qed
qed (simp add: well_formed_def)

lemma verify_config_Inr:
  "iterates order \<Longrightarrow> fst (verify_config order cfg) = Inr cfg' \<longleftrightarrow>
     cfg' = cfg \<and> well_formed (hm_values (pc_servers cfg)) (pc_upstream cfg)"
  using verify_servers_Inr [of order "[]" "pc_upstream cfg" "[]" "hm_values (pc_servers cfg)"]
  by (auto simp: verify_config_def split: sum.splits)

lemma verify_servers_used:
  "verify_servers order upstream used la servers = Inr used' \<Longrightarrow>
     set used' = set used \<union> \<Union> (uses ` set servers)"
  by (induction servers arbitrary: used la)
    (auto simp: set_use_upstreams Let_def split: sum.splits)

lemma verify_config_warned:
  assumes "iterates order" and "verify_config order cfg = (Inr cfg', warned)"
  shows "k \<in> set warned \<longleftrightarrow> k \<in> fst ` set (pc_upstream cfg) \<and> k \<notin> {''echo'', ''ban'', ''health''} \<and>
    (\<forall>server \<in> set (hm_values (pc_servers cfg)). k \<notin> uses server)"
proof -
  obtain used where "verify_servers order (pc_upstream cfg) [] [] (hm_values (pc_servers cfg)) = Inr used"
    and "warned = unused_upstreams (order (map fst (pc_upstream cfg))) used"
    using assms(2) by (auto simp: verify_config_def split: sum.splits)
  with verify_servers_used [of order "pc_upstream cfg" "[]" "[]" _ used] assms(1) show ?thesis
    by (auto simp: unused_upstreams_def iterates_def)
qed

section \<open>The table of upstreams\<close>

lemma proxy_try_from_Inr:
  "proxy_try_from parse value = Inr p \<longleftrightarrow>
     (\<exists>u host port. parse value = Some u \<and> url_host_str u = Some host \<and>
        url_port_or_known_default u = Some port \<and> url_scheme u \<in> {''tcp'', ''tcp4'', ''tcp6''} \<and>
        p = proxy_to_upstream_new (host @ '':'' @ show_nat (unat port)) (url_scheme u))"
  by (auto simp: proxy_try_from_def ok_or_else_def split: option.splits sum.splits)

lemma add_upstreams_ok:
  "(\<exists>m'. add_upstreams parse urls m = Inr m') \<longleftrightarrow>
     (\<forall>(name, url) \<in> set urls. \<exists>p. proxy_try_from parse url = Inr p)"
  by (induction parse urls m rule: add_upstreams.induct) (auto split: sum.splits)

text \<open>The entries that the loop inserts, and the table it leaves.\<close>

definition parsed_entries :: "url_parser \<Rightarrow> (string, string) hash_map \<Rightarrow> (string \<times> upstream) list" where
  "parsed_entries parse urls = map (\<lambda>(name, url). (name, Proxy (projr (proxy_try_from parse url)))) urls"

lemma add_upstreams_Inr:
  "add_upstreams parse urls m = Inr m' \<Longrightarrow> m' = ins_all hm_insert (parsed_entries parse urls) m"
  by (induction parse urls m rule: add_upstreams.induct) (auto simp: parsed_entries_def split: sum.splits)

lemma add_upstreams_get:
  assumes "add_upstreams parse urls m = Inr m'" and "hm_ok urls"
  shows "hm_get m' k =
    (case hm_get urls k of
       Some url \<Rightarrow> Some (Proxy (projr (proxy_try_from parse url)))
     | None \<Rightarrow> hm_get m k)"
proof -
  have "distinct (map fst (parsed_entries parse urls))"
    using assms(2) by (simp add: hm_ok_def parsed_entries_def comp_def case_prod_unfold)
  then have "map_of (rev (parsed_entries parse urls)) k = hm_get (parsed_entries parse urls) k"
    using map_of_inject_set [of "rev (parsed_entries parse urls)" "parsed_entries parse urls"]
    by (simp add: hm_get_def rev_map [symmetric])
  also have "\<dots> = map_option (\<lambda>url. Proxy (projr (proxy_try_from parse url))) (hm_get urls k)"
    unfolding parsed_entries_def by (rule hm_get_map)
  finally show ?thesis
    by (simp add: add_upstreams_Inr [OF assms(1)] hm.get_ins_all split: option.split)
qed

lemma add_upstreams_dom:
  assumes "add_upstreams parse urls builtin_upstreams = Inr m"
  shows "hm_get m k \<noteq> None \<longleftrightarrow> k \<in> set (hm_keys urls) \<union> {''ban'', ''echo'', ''health''}"
proof -
  have "fst ` set (parsed_entries parse urls) = set (hm_keys urls)"
    by (force simp: parsed_entries_def hm_keys_def)
  moreover have "hm_get builtin_upstreams k \<noteq> None \<longleftrightarrow> k \<in> {''ban'', ''echo'', ''health''}"
    by (simp add: builtin_upstreams_def)
  ultimately show ?thesis
    using hm.ins_all_dom [of "parsed_entries parse urls" builtin_upstreams k]
    by (auto simp: add_upstreams_Inr [OF assms])
qed

section \<open>Loading\<close>

text \<open>What the file holds once it has been read and parsed, before the program checks it.\<close>

definition document :: "load_env \<Rightarrow> string \<Rightarrow> raw_base option" where
  "document env path =
     (case le_open env path of
        Inl e \<Rightarrow> None
      | Inr file \<Rightarrow>
          (case read_to_string file of
             Inl e \<Rightarrow> None
           | Inr contents \<Rightarrow> (case le_yaml env contents of Inl e \<Rightarrow> None | Inr raw \<Rightarrow> Some raw)))"

abbreviation log_level_of :: "base_config \<Rightarrow> string" where
  "log_level_of base \<equiv> or_else (bc_log base) ''info''"

abbreviation log_format_of :: "base_config \<Rightarrow> string" where
  "log_format_of base \<equiv> or_else (bc_log_format base) ''txt''"

definition accepted_header :: "base_config \<Rightarrow> bool" where
  "accepted_header base \<longleftrightarrow> bc_version base \<in> {1, 2} \<and>
     log_format_of base \<in> {''txt'', ''text'', ''json''}"

lemma load_config_rejects:
  "(\<forall>raw. document env path = Some raw \<longrightarrow> \<not> accepted_header (base_of_raw raw)) \<Longrightarrow>
     \<exists>e. load_config env path = (Inl e, None)"
  by (cases "le_open env path"; cases "read_to_string (projr (le_open env path))";
      cases "le_yaml env (projr (read_to_string (projr (le_open env path))))")
    (auto simp: load_config_def document_def accepted_header_def Let_def)

lemma load_config_checks:
  assumes "document env path = Some raw" and "accepted_header (base_of_raw raw)"
  shows "load_config env path =
    ((case add_upstreams (le_url env) (bc_upstream (base_of_raw raw)) builtin_upstreams of
        Inl e \<Rightarrow> Inl e
      | Inr upstream \<Rightarrow>
          fst (verify_config (le_order env)
            \<lparr>pc_version = bc_version (base_of_raw raw), pc_log = bc_log (base_of_raw raw),
             pc_servers = bc_servers (base_of_raw raw), pc_upstream = upstream\<rparr>)),
     logger_of (le_rust_log env) (log_level_of (base_of_raw raw)) (log_format_of (base_of_raw raw)))"
proof -
  obtain f contents where doc: "le_open env path = Inr f" "read_to_string f = Inr contents"
      "le_yaml env contents = Inr raw"
    using assms(1) by (auto simp: document_def split: sum.splits)
  from assms(2) have "bc_version (base_of_raw raw) \<in> {1, 2}"
    "log_format_of (base_of_raw raw) \<in> {''txt'', ''text'', ''json''}"
    by (simp_all only: accepted_header_def)
  then show ?thesis
    by (simp only: load_config_def doc Let_def sum.case not_True_eq_False if_False)
qed

lemma load_config_Inr:
  assumes "iterates (le_order env)"
  shows "fst (load_config env path) = Inr pc \<longleftrightarrow>
    (\<exists>raw m. document env path = Some raw \<and> accepted_header (base_of_raw raw) \<and>
       add_upstreams (le_url env) (bc_upstream (base_of_raw raw)) builtin_upstreams = Inr m \<and>
       well_formed (hm_values (bc_servers (base_of_raw raw))) m \<and>
       pc = \<lparr>pc_version = bc_version (base_of_raw raw), pc_log = bc_log (base_of_raw raw),
         pc_servers = bc_servers (base_of_raw raw), pc_upstream = m\<rparr>)"
proof (cases "\<exists>raw. document env path = Some raw \<and> accepted_header (base_of_raw raw)")
  case False
  then obtain e where "load_config env path = (Inl e, None)" using load_config_rejects by blast
  with False show ?thesis by auto
next
  case True
  then obtain raw where raw: "document env path = Some raw" "accepted_header (base_of_raw raw)" by blast
  show ?thesis
    using raw verify_config_Inr [OF assms]
    by (cases "add_upstreams (le_url env) (bc_upstream (base_of_raw raw)) builtin_upstreams")
      (auto simp: load_config_checks [OF raw])
qed

lemma ball_server:
  "(\<forall>x \<in> set (map (\<lambda>(name, s). f s) ss). \<forall>k \<in> g x. k \<in> S) \<longleftrightarrow> (\<forall>(name, s) \<in> set ss. g (f s) \<subseteq> S)"
  by auto

lemma loaded_upstream:
  assumes "iterates (le_order env)" and "fst (load_config env path) = Inr pc"
    and "document env path = Some raw" and "hm_ok (or_else (rb_upstream raw) [])"
  shows "case hm_get (or_else (rb_upstream raw) []) name of
      None \<Rightarrow> hm_get (pc_upstream pc) name = hm_get builtin_upstreams name
    | Some url \<Rightarrow> \<exists>u host port. le_url env url = Some u \<and> url_host_str u = Some host \<and>
        url_port_or_known_default u = Some port \<and> known_protocol (url_scheme u) \<and>
        hm_get (pc_upstream pc) name =
          Some (Proxy (proxy_to_upstream_new (host @ '':'' @ show_nat (unat port)) (url_scheme u)))"
proof -
  let ?urls = "or_else (rb_upstream raw) []"
  obtain m where m: "add_upstreams (le_url env) ?urls builtin_upstreams = Inr m" "pc_upstream pc = m"
    using assms(2,3) load_config_Inr [OF assms(1), of path pc] by (auto simp: base_of_raw_def)
  show ?thesis
  proof (cases "hm_get ?urls name")
    case None
    with add_upstreams_get [OF m(1) assms(4), of name] m(2) show ?thesis by simp
  next
    case (Some url)
    then have "(name, url) \<in> set ?urls" by (rule hm_get_in_set)
    moreover have "\<forall>(name, url) \<in> set ?urls. \<exists>p. proxy_try_from (le_url env) url = Inr p"
      using m(1) add_upstreams_ok by blast
    ultimately obtain p where p: "proxy_try_from (le_url env) url = Inr p" by blast
    then obtain u host port where "le_url env url = Some u" "url_host_str u = Some host"
        "url_port_or_known_default u = Some port" "known_protocol (url_scheme u)"
        "p = proxy_to_upstream_new (host @ '':'' @ show_nat (unat port)) (url_scheme u)"
      by (auto simp only: proxy_try_from_Inr known_protocol_def insert_iff empty_iff)
    with p Some add_upstreams_get [OF m(1) assms(4), of name] m(2) show ?thesis by simp
  qed
qed

lemma load_config_logger:
  "snd (load_config env path) =
     (case document env path of
        None \<Rightarrow> None
      | Some raw \<Rightarrow>
          if accepted_header (base_of_raw raw)
          then logger_of (le_rust_log env) (log_level_of (base_of_raw raw)) (log_format_of (base_of_raw raw))
          else None)"
  using load_config_rejects [of env path] load_config_checks [of env path]
  by (cases "document env path") (auto split: if_splits)

lemma server_of_raw_listen: "map sc_listen (map (\<lambda>(name, s). server_of_raw s) ss) = map (\<lambda>(name, s). rs_listen s) ss"
  by (auto simp: server_of_raw_def)

text \<open>What is checked behind the header, in terms of the document.\<close>

lemma checked_iff:
  "(\<exists>m. add_upstreams parse us builtin_upstreams = Inr m \<and>
      well_formed (map (\<lambda>(name, s). server_of_raw s) ss) m) \<longleftrightarrow>
    (\<forall>(name, url) \<in> set us. \<exists>u host port. parse url = Some u \<and>
        url_host_str u = Some host \<and> url_port_or_known_default u = Some port \<and>
        url_scheme u \<in> {''tcp'', ''tcp4'', ''tcp6''}) \<and>
    distinct (concat (map (\<lambda>(name, s). rs_listen s) ss)) \<and>
    (\<forall>(name, s) \<in> set ss. uses (server_of_raw s) \<subseteq> set (hm_keys us) \<union> {''ban'', ''echo'', ''health''})"
proof -
  have urls: "(\<exists>m. add_upstreams parse us builtin_upstreams = Inr m) \<longleftrightarrow>
      (\<forall>(name, url) \<in> set us. \<exists>u host port. parse url = Some u \<and>
          url_host_str u = Some host \<and> url_port_or_known_default u = Some port \<and>
          url_scheme u \<in> {''tcp'', ''tcp4'', ''tcp6''})"
    unfolding add_upstreams_ok by (simp only: proxy_try_from_Inr) blast
  have "well_formed (map (\<lambda>(name, s). server_of_raw s) ss) m \<longleftrightarrow>
      distinct (concat (map (\<lambda>(name, s). rs_listen s) ss)) \<and>
      (\<forall>(name, s) \<in> set ss. uses (server_of_raw s) \<subseteq> set (hm_keys us) \<union> {''ban'', ''echo'', ''health''})"
    if "add_upstreams parse us builtin_upstreams = Inr m" for m
    by (simp only: well_formed_def server_of_raw_listen add_upstreams_dom [OF that] ball_server)
  then show ?thesis
    unfolding urls [symmetric] by blast
qed

section \<open>Properties\<close>

text \<open>
  C15. Exactly these files are accepted, whatever the iteration orders of the hash maps and sets:
  those that can be read as UTF-8 and parsed, have version 1 or 2 and a known log format, whose
  upstream URLs all have a host, a port and a \<open>tcp\<close>, \<open>tcp4\<close> or \<open>tcp6\<close> scheme, whose
  servers together name no listen address twice, and whose servers refer only to upstreams that
  are declared or built in: by their default, and, for TLS servers, by their SNI entries.
\<close>

theorem config_accepted_iff:
  assumes "iterates (le_order env)"
  shows "(\<exists>pc. fst (load_config env path) = Inr pc) =
    (\<exists>raw. document env path = Some raw \<and>
       rb_version raw \<in> {1, 2} \<and> or_else (rb_log_format raw) ''txt'' \<in> {''txt'', ''text'', ''json''} \<and>
       (\<forall>(name, url) \<in> set (or_else (rb_upstream raw) []). \<exists>u host port. le_url env url = Some u \<and>
          url_host_str u = Some host \<and> url_port_or_known_default u = Some port \<and>
          url_scheme u \<in> {''tcp'', ''tcp4'', ''tcp6''}) \<and>
       distinct (concat (map (\<lambda>(name, s). rs_listen s) (rb_servers raw))) \<and>
       (\<forall>(name, s) \<in> set (rb_servers raw). uses (server_of_raw s) \<subseteq>
          set (hm_keys (or_else (rb_upstream raw) [])) \<union> {''ban'', ''echo'', ''health''}))"
proof -
  have servers: "hm_values (bc_servers (base_of_raw raw)) = map (\<lambda>(name, s). server_of_raw s) (rb_servers raw)" for raw
    by (auto simp: hm_values_def base_of_raw_def)
  have head: "accepted_header (base_of_raw raw) \<longleftrightarrow> rb_version raw \<in> {1, 2} \<and>
      or_else (rb_log_format raw) ''txt'' \<in> {''txt'', ''text'', ''json''}" for raw
    by (simp add: accepted_header_def base_of_raw_def)
  have up: "bc_upstream (base_of_raw raw) = or_else (rb_upstream raw) []" for raw
    by (simp add: base_of_raw_def)
  have "(\<exists>pc. fst (load_config env path) = Inr pc) \<longleftrightarrow>
      (\<exists>raw. document env path = Some raw \<and> accepted_header (base_of_raw raw) \<and>
         (\<exists>m. add_upstreams (le_url env) (or_else (rb_upstream raw) []) builtin_upstreams = Inr m \<and>
           well_formed (map (\<lambda>(name, s). server_of_raw s) (rb_servers raw)) m))"
    unfolding load_config_Inr [OF assms] servers up by blast
  then show ?thesis
    unfolding head checked_iff by (simp only: conj_assoc)
qed

text \<open>
  C34. In an accepted configuration every declared name maps to a proxy for exactly the host,
  port and scheme of its URL, with an empty address cache and a protocol that connecting
  knows; every other name maps to the built-in \<open>ban\<close>, \<open>echo\<close> or \<open>health\<close>, or to nothing. A
  declared upstream takes the place of a built-in one of the same name.
\<close>

theorem loaded_upstream_table:
  assumes "iterates (le_order env)" and "fst (load_config env path) = Inr pc"
    and "document env path = Some raw" and "hm_ok (or_else (rb_upstream raw) [])"
  shows "case hm_get (or_else (rb_upstream raw) []) name of
      None \<Rightarrow> hm_get (pc_upstream pc) name = hm_get builtin_upstreams name
    | Some url \<Rightarrow> \<exists>u host port. le_url env url = Some u \<and> url_host_str u = Some host \<and>
        url_port_or_known_default u = Some port \<and> known_protocol (url_scheme u) \<and>
        hm_get (pc_upstream pc) name =
          Some (Proxy (proxy_to_upstream_new (host @ '':'' @ show_nat (unat port)) (url_scheme u)))"
  using assms by (rule loaded_upstream)

text \<open>
  A logger is installed exactly when the file could be read and parsed, its version and log
  format are accepted and its level is not \<open>disable\<close>, also where a later check rejects the file;
  it takes its filters from \<open>RUST_LOG\<close> if that is set, and otherwise from the file, whose default
  is \<open>info\<close>.
\<close>

lemma logger_installed_iff:
  "(snd (load_config env path) = Some l) =
     (\<exists>raw. document env path = Some raw \<and>
        rb_version raw \<in> {1, 2} \<and> or_else (rb_log_format raw) ''txt'' \<in> {''txt'', ''text'', ''json''} \<and>
        or_else (rb_log raw) ''info'' \<noteq> ''disable'' \<and>
        (lg_filters l = None) = (\<exists>v. le_rust_log env = Inr v) \<and>
        lg_filters l \<in> {None, Some (or_else (rb_log raw) ''info'')} \<and>
        lg_json l = (or_else (rb_log_format raw) ''txt'' = ''json''))"
proof (cases "\<exists>raw. document env path = Some raw \<and> accepted_header (base_of_raw raw)")
  case False
  then show ?thesis
    by (auto simp: load_config_logger accepted_header_def base_of_raw_def split: option.splits)
next
  case True
  then obtain raw where raw: "document env path = Some raw" "accepted_header (base_of_raw raw)" by blast
  then have "rb_version raw \<in> {1, 2} \<and> or_else (rb_log_format raw) ''txt'' \<in> {''txt'', ''text'', ''json''}"
    by (simp add: accepted_header_def base_of_raw_def)
  moreover have "(logger_of rust level format = Some l) =
      (level \<noteq> ''disable'' \<and> (lg_filters l = None) = (\<exists>v. rust = Inr v) \<and>
       lg_filters l \<in> {None, Some level} \<and> lg_json l = (format = ''json''))" for rust level format
    by (cases l; cases rust) (auto simp: logger_of_def)
  ultimately show ?thesis
    using raw by (simp add: load_config_logger base_of_raw_def)
qed

text \<open>One line per record, whatever is logged, with a printer that escapes line feeds.\<close>

lemma json_log_line_is_one_line:
  assumes "\<forall>s. CHR 0x0A \<notin> set (json_string s)" and "CHR 0x0A \<notin> set ts \<union> set level \<union> set target"
  shows "\<exists>l. json_log_line json_string ts level target args = l @ newline \<and> CHR 0x0A \<notin> set l"
  using assms by (auto simp: json_log_line_def)

section \<open>Witnesses\<close>

definition raw_ex :: "raw_server \<Rightarrow> raw_base" where
  "raw_ex s = \<lparr>rb_version = 2, rb_log = None, rb_log_format = None, rb_servers = [(''web'', s)],
     rb_upstream = Some [(''remote'', ''tcp4://h:80'')], rb_via = None\<rparr>"

definition env_load :: "raw_base \<Rightarrow> load_env" where
  "env_load raw = \<lparr>le_open = (\<lambda>p. Inr (Inr '''')), le_yaml = (\<lambda>s. Inr raw),
     le_url = (\<lambda>s. Some \<lparr>url_host_str = Some ''h'', url_port_or_known_default = Some 80,
       url_scheme = ''tcp4''\<rparr>),
     le_rust_log = Inl Var_NotPresent, le_order = rev\<rparr>"

lemma iterates_ex: "iterates (le_order (env_load raw))"
  by (simp add: iterates_def env_load_def)

lemma document_ex: "document (env_load raw) path = Some raw"
  by (simp add: document_def env_load_def read_to_string_def utf8_valid_def from_utf8_def)

definition pc_ex :: "raw_server \<Rightarrow> parsed_config" where
  "pc_ex s = \<lparr>pc_version = 2, pc_log = None, pc_servers = [(''web'', server_of_raw s)],
     pc_upstream = hm_insert ''remote'' (Proxy upstream_h80) builtin_upstreams\<rparr>"

lemma load_one_server:
  assumes "distinct (rs_listen s)" and "rs_sni s = None" and "rs_default s = Some ''remote''"
  shows "fst (load_config (env_load (raw_ex s)) path) = Inr (pc_ex s)"
proof -
  have "show_nat 80 = ''80''" by (simp add: show_nat.simps)
  then have "add_upstreams (le_url (env_load (raw_ex s))) [(''remote'', ''tcp4://h:80'')]
      builtin_upstreams = Inr (hm_insert ''remote'' (Proxy upstream_h80) builtin_upstreams)"
    by (simp add: env_load_def proxy_try_from_def ok_or_else_def upstream_h80_def)
  moreover have "well_formed [server_of_raw s] (hm_insert ''remote'' (Proxy upstream_h80) builtin_upstreams)"
    using assms by (auto simp: well_formed_def uses_def server_of_raw_def hm.get_ins split: option.splits bool.splits)
  ultimately show ?thesis
    unfolding load_config_Inr [OF iterates_ex] document_ex
    by (simp add: accepted_header_def base_of_raw_def raw_ex_def hm_values_def pc_ex_def)
qed

lemma load_ex:
  "fst (load_config (env_load (raw_ex (raw_server_plain v))) path) = Inr (pc_ex (raw_server_plain v))"
  by (rule load_one_server) (simp_all add: raw_server_plain_def)

theorem config_accepted_iff_witness:
  "distinct (concat (map (\<lambda>(name, s). rs_listen s) (rb_servers (raw_ex (raw_server_plain None)))))"
  using config_accepted_iff [OF iterates_ex, of "raw_ex (raw_server_plain None)" "''tpt.yaml''"] load_ex
  unfolding document_ex by blast

theorem loaded_upstream_table_witness:
  "hm_get (pc_upstream (pc_ex (raw_server_plain None))) ''ban'' = Some Ban"
  using loaded_upstream_table [OF iterates_ex load_ex document_ex, of None "''ban''"]
  by (simp add: raw_ex_def hm_ok_def builtin_upstreams_def)

end
