(* ===== verification/Socket_Addr.thy ===== *)
theory Socket_Addr
  imports Prelude
begin

text \<open>
  \<open>std::net::SocketAddr\<close> as \<open>src/servers/builder.rs\<close> uses it: \<open>listen.parse()\<close> turns a listen
  string of the configuration into an address, and \<open>Display\<close> prints the address back as the
  label of the metrics. Both follow the standard library of the edition the crate asks for
  (\<open>core::net::parser\<close>, \<open>core::net::ip_addr\<close> and \<open>core::net::socket_addr\<close>). The lemmas show that
  printing and parsing are inverse, and which strings are addresses at all.

  A parser of the library works on the rest of the input and leaves it alone when it fails
  (\<open>read_atomically\<close>): here a function from the rest to a value and the new rest, or \<open>None\<close>.
\<close>

section \<open>Parsing\<close>

type_synonym 'a parser = "string \<Rightarrow> ('a \<times> string) option"

fun read_given_char :: "char \<Rightarrow> unit parser" where
  "read_given_char target [] = None"
| "read_given_char target (c # s) = (if c = target then Some ((), s) else None)"

definition read_separator :: "char \<Rightarrow> nat \<Rightarrow> 'a parser \<Rightarrow> 'a parser" where
  "read_separator sep index inner s =
     (if 0 < index
      then (case read_given_char sep s of None \<Rightarrow> None | Some (_, s) \<Rightarrow> inner s)
      else inner s)"

text \<open>\<open>char::to_digit\<close>.\<close>

definition to_digit :: "nat \<Rightarrow> char \<Rightarrow> nat option" where
  "to_digit radix c =
     (let n = of_char c;
          d = (if 48 \<le> n \<and> n \<le> 57 then n - 48
               else if 97 \<le> n \<and> n \<le> 122 then n - 87
               else if 65 \<le> n \<and> n \<le> 90 then n - 55 else 36)
      in if d < radix then Some d else None)"

text \<open>
  The two loops of \<open>read_number\<close>: with a maximal number of digits the value is accumulated in
  a \<open>u32\<close>, which nine digits cannot overflow; without one each step is checked against the
  maximum \<open>hi\<close> of the result type. They return the value, the number of digits and the rest.
\<close>

fun read_digits_limited ::
  "nat \<Rightarrow> nat \<Rightarrow> nat \<Rightarrow> nat \<Rightarrow> string \<Rightarrow> (nat \<times> nat \<times> string) option" where
  "read_digits_limited radix max_digits result count [] = Some (result, count, [])"
| "read_digits_limited radix max_digits result count (c # s) =
     (case to_digit radix c of
        None \<Rightarrow> Some (result, count, c # s)
      | Some digit \<Rightarrow>
          (if max_digits < count + 1 then None
           else read_digits_limited radix max_digits (result * radix + digit) (count + 1) s))"

fun read_digits_checked ::
  "nat \<Rightarrow> nat \<Rightarrow> nat \<Rightarrow> nat \<Rightarrow> string \<Rightarrow> (nat \<times> nat \<times> string) option" where
  "read_digits_checked radix hi result count [] = Some (result, count, [])"
| "read_digits_checked radix hi result count (c # s) =
     (case to_digit radix c of
        None \<Rightarrow> Some (result, count, c # s)
      | Some digit \<Rightarrow>
          (if hi < result * radix \<or> hi < result * radix + digit then None
           else read_digits_checked radix hi (result * radix + digit) (count + 1) s))"

definition read_number :: "nat \<Rightarrow> nat \<Rightarrow> nat option \<Rightarrow> bool \<Rightarrow> nat parser" where
  "read_number radix hi max_digits allow_zero_prefix s =
     (case (case max_digits of
              Some m \<Rightarrow> read_digits_limited radix m 0 0 s
            | None \<Rightarrow> read_digits_checked radix hi 0 0 s) of
        None \<Rightarrow> None
      | Some (result, count, rest) \<Rightarrow>
          (if count = 0 then None
           else if \<not> allow_zero_prefix \<and> take 1 s = ''0'' \<and> 1 < count then None
           else if hi < result then None
           else Some (result, rest)))"

text \<open>The groups of an address are kept as a list until the address is built from them.\<close>

fun read_octets :: "nat \<Rightarrow> nat \<Rightarrow> nat list parser" where
  "read_octets i 0 s = Some ([], s)"
| "read_octets i (Suc n) s =
     (case read_separator (CHR ''.'') i (read_number 10 255 (Some 3) False) s of
        None \<Rightarrow> None
      | Some (octet, s) \<Rightarrow>
          (case read_octets (Suc i) n s of
             None \<Rightarrow> None
           | Some (octets, s) \<Rightarrow> Some (octet # octets, s)))"

definition read_ipv4_addr :: "nat list parser" where
  "read_ipv4_addr s = read_octets 0 4 s"

text \<open>
  \<open>read_groups\<close> never fails: it returns the groups read, whether they end in an embedded IPv4
  address, and the rest. \<open>n\<close> is the space left in the slice, so \<open>i < limit - 1\<close> is \<open>1 < n\<close>.
\<close>

fun read_groups :: "nat \<Rightarrow> nat \<Rightarrow> string \<Rightarrow> nat list \<times> bool \<times> string" where
  "read_groups i 0 s = ([], False, s)"
| "read_groups i (Suc n) s =
     (case (if 0 < n then read_separator (CHR '':'') i read_ipv4_addr s else None) of
        Some (octets, s) \<Rightarrow>
          ([256 * octets ! 0 + octets ! 1, 256 * octets ! 2 + octets ! 3], True, s)
      | None \<Rightarrow>
          (case read_separator (CHR '':'') i (read_number 16 65535 (Some 4) True) s of
             None \<Rightarrow> ([], False, s)
           | Some (g, s) \<Rightarrow>
               (case read_groups (Suc i) n s of (gs, ipv4, s) \<Rightarrow> (g # gs, ipv4, s))))"

definition read_ipv6_addr :: "nat list parser" where
  "read_ipv6_addr s =
     (case read_groups 0 8 s of (head, head_ipv4, s) \<Rightarrow>
        if length head = 8 then Some (head, s)
        else if head_ipv4 then None
        else
          (case read_given_char (CHR '':'') s of
             None \<Rightarrow> None
           | Some (_, s) \<Rightarrow>
               (case read_given_char (CHR '':'') s of
                  None \<Rightarrow> None
                | Some (_, s) \<Rightarrow>
                    (case read_groups 0 (8 - (length head + 1)) s of (tail, _, s) \<Rightarrow>
                       Some (head @ replicate (8 - length head - length tail) 0 @ tail, s)))))"

definition read_port :: "nat parser" where
  "read_port s =
     (case read_given_char (CHR '':'') s of
        None \<Rightarrow> None
      | Some (_, s) \<Rightarrow> read_number 10 65535 None True s)"

definition read_scope_id :: "nat parser" where
  "read_scope_id s =
     (case read_given_char (CHR ''%'') s of
        None \<Rightarrow> None
      | Some (_, s) \<Rightarrow> read_number 10 4294967295 None True s)"

text \<open>An address from its big-endian groups, and back: \<open>from\<close>, \<open>octets\<close> and \<open>segments\<close>.\<close>

definition be_value :: "nat \<Rightarrow> nat list \<Rightarrow> nat" where
  "be_value b ds = foldl (\<lambda>a d. b * a + d) 0 ds"

fun be_digits :: "nat \<Rightarrow> nat \<Rightarrow> nat \<Rightarrow> nat list" where
  "be_digits b 0 n = []"
| "be_digits b (Suc k) n = be_digits b k (n div b) @ [n mod b]"

definition octets :: "u32 \<Rightarrow> nat list" where
  "octets ip = be_digits 256 4 (unat ip)"

definition segments :: "u128 \<Rightarrow> nat list" where
  "segments ip = be_digits 65536 8 (unat ip)"

definition read_socket_addr_v4 :: "sock_addr parser" where
  "read_socket_addr_v4 s =
     (case read_ipv4_addr s of
        None \<Rightarrow> None
      | Some (ip, s) \<Rightarrow>
          (case read_port s of
             None \<Rightarrow> None
           | Some (port, s) \<Rightarrow> Some (V4 (of_nat (be_value 256 ip)) (of_nat port), s)))"

definition read_socket_addr_v6 :: "sock_addr parser" where
  "read_socket_addr_v6 s =
     (case read_given_char (CHR ''['') s of
        None \<Rightarrow> None
      | Some (_, s) \<Rightarrow>
          (case read_ipv6_addr s of
             None \<Rightarrow> None
           | Some (ip, s) \<Rightarrow>
               (case (case read_scope_id s of Some (scope, s) \<Rightarrow> (scope, s) | None \<Rightarrow> (0, s)) of
                  (scope_id, s) \<Rightarrow>
                    (case read_given_char (CHR '']'') s of
                       None \<Rightarrow> None
                     | Some (_, s) \<Rightarrow>
                         (case read_port s of
                            None \<Rightarrow> None
                          | Some (port, s) \<Rightarrow>
                              Some (V6 (of_nat (be_value 65536 ip)) (of_nat port) 0
                                (of_nat scope_id), s))))))"

definition parse_socket_addr :: "string \<Rightarrow> sock_addr option" where
  "parse_socket_addr s =
     (case (case read_socket_addr_v4 s of Some r \<Rightarrow> Some r | None \<Rightarrow> read_socket_addr_v6 s) of
        Some (a, []) \<Rightarrow> Some a
      | _ \<Rightarrow> None)"

section \<open>Printing\<close>

text \<open>\<open>{}\<close> and \<open>{:x}\<close> of an unsigned integer.\<close>

definition radix_char :: "nat \<Rightarrow> char" where
  "radix_char d = (if d < 10 then digit_char d else char_of (87 + d))"

function show_radix :: "nat \<Rightarrow> nat \<Rightarrow> string" where
  "show_radix b n =
     (if b < 2 \<or> n < b then [radix_char n]
      else show_radix b (n div b) @ [radix_char (n mod b)])"
  by pat_completeness auto
termination by (relation "measure snd") auto

declare show_radix.simps [simp del]

abbreviation show_hex :: "nat \<Rightarrow> string" where
  "show_hex n \<equiv> show_radix 16 n"

definition display_ipv4 :: "u32 \<Rightarrow> string" where
  "display_ipv4 ip =
     (let os = octets ip
      in show_nat (os ! 0) @ ''.'' @ show_nat (os ! 1) @ ''.'' @ show_nat (os ! 2) @ ''.'' @ show_nat (os ! 3))"

text \<open>The longest run of zero segments, the first of several: (start, length).\<close>

fun longest_zeroes :: "nat list \<Rightarrow> nat \<Rightarrow> nat \<times> nat \<Rightarrow> nat \<times> nat \<Rightarrow> nat \<times> nat" where
  "longest_zeroes [] i longest current = longest"
| "longest_zeroes (segment # ss) i longest current =
     (if segment = 0
      then (let start = (if snd current = 0 then i else fst current);
                current = (start, snd current + 1)
            in longest_zeroes ss (i + 1)
                 (if snd longest < snd current then current else longest) current)
      else longest_zeroes ss (i + 1) longest (0, 0))"

fun fmt_subslice :: "nat list \<Rightarrow> string" where
  "fmt_subslice [] = []"
| "fmt_subslice (first # tail) = show_hex first @ concat (map (\<lambda>s. '':'' @ show_hex s) tail)"

definition to_ipv4_mapped :: "u128 \<Rightarrow> u32 option" where
  "to_ipv4_mapped ip =
     (if take 6 (segments ip) = [0, 0, 0, 0, 0, 65535]
      then Some (of_nat (be_value 65536 (drop 6 (segments ip)))) else None)"

definition display_ipv6 :: "u128 \<Rightarrow> string" where
  "display_ipv6 ip =
     (case to_ipv4_mapped ip of
        Some ipv4 \<Rightarrow> ''::ffff:'' @ display_ipv4 ipv4
      | None \<Rightarrow>
          (case longest_zeroes (segments ip) 0 (0, 0) (0, 0) of (start, len) \<Rightarrow>
             if 1 < len
             then fmt_subslice (take start (segments ip)) @ ''::''
                    @ fmt_subslice (drop (start + len) (segments ip))
             else fmt_subslice (segments ip)))"

fun display_socket_addr :: "sock_addr \<Rightarrow> string" where
  "display_socket_addr (V4 ip port) = display_ipv4 ip @ '':'' @ show_nat (unat port)"
| "display_socket_addr (V6 ip port flowinfo scope_id) =
     ''['' @ display_ipv6 ip
       @ (if scope_id = 0 then [] else ''%'' @ show_nat (unat scope_id))
       @ '']:'' @ show_nat (unat port)"

section \<open>Numbers\<close>

text \<open>A digit that is printed is read back, in any radix up to 16.\<close>

lemma of_char_radix_char:
  "d < 16 \<Longrightarrow> (of_char (radix_char d) :: nat) = (if d < 10 then 48 + d else 87 + d)"
  by (auto simp: radix_char_def)

lemma to_digit_radix_char: "d < b \<Longrightarrow> b \<le> 16 \<Longrightarrow> to_digit b (radix_char d) = Some d"
  by (auto simp: to_digit_def of_char_radix_char Let_def)

lemma to_digit_less: "to_digit b c = Some d \<Longrightarrow> d < b"
  by (auto simp: to_digit_def Let_def split: if_splits)

definition digits_value :: "nat \<Rightarrow> nat \<Rightarrow> string \<Rightarrow> nat" where
  "digits_value b r xs = foldl (\<lambda>r c. r * b + the (to_digit b c)) r xs"

definition all_digits :: "nat \<Rightarrow> string \<Rightarrow> bool" where
  "all_digits b xs \<longleftrightarrow> (\<forall>c \<in> set xs. to_digit b c \<noteq> None)"

text \<open>A string at which a number in radix \<open>b\<close> ends.\<close>

fun no_digit :: "nat \<Rightarrow> string \<Rightarrow> bool" where
  "no_digit b [] = True"
| "no_digit b (c # s) = (to_digit b c = None)"

lemma digits_value_simps [simp]:
  "digits_value b r [] = r"
  "digits_value b r (c # xs) = digits_value b (r * b + the (to_digit b c)) xs"
  "digits_value b r (xs @ ys) = digits_value b (digits_value b r xs) ys"
  by (simp_all add: digits_value_def)

lemma all_digits_simps [simp]:
  "all_digits b []"
  "all_digits b (c # xs) \<longleftrightarrow> to_digit b c \<noteq> None \<and> all_digits b xs"
  "all_digits b (xs @ ys) \<longleftrightarrow> all_digits b xs \<and> all_digits b ys"
  by (auto simp: all_digits_def)

lemma digits_value_ge: "0 < b \<Longrightarrow> r \<le> digits_value b r xs"
proof (induction xs arbitrary: r)
  case (Cons c xs)
  have "r \<le> r * b + the (to_digit b c)" using Cons.prems by (cases b) auto
  also have "\<dots> \<le> digits_value b (r * b + the (to_digit b c)) xs" by (rule Cons.IH [OF Cons.prems])
  finally show ?case by simp
qed simp

lemma digits_value_less:
  "all_digits b xs \<Longrightarrow> digits_value b r xs < (r + 1) * b ^ length xs"
proof (induction xs arbitrary: r)
  case (Cons c xs)
  then obtain d where d: "to_digit b c = Some d" "d < b" using to_digit_less by fastforce
  have "digits_value b (r * b + d) xs < (r * b + d + 1) * b ^ length xs"
    using Cons by simp
  also have "\<dots> \<le> ((r + 1) * b) * b ^ length xs"
    using d(2) by (intro mult_right_mono) auto
  finally show ?case using d(1) by (simp add: algebra_simps)
qed simp

lemma show_radix_digits:
  assumes "2 \<le> b" and "b \<le> 16"
  shows "all_digits b (show_radix b n) \<and> digits_value b 0 (show_radix b n) = n"
  using assms
proof (induction b n rule: show_radix.induct)
  case (1 b n)
  show ?case
  proof (cases "n < b")
    case True
    with "1.prems" show ?thesis by (subst (1 2) show_radix.simps) (simp add: to_digit_radix_char)
  next
    case False
    with 1 have "all_digits b (show_radix b (n div b)) \<and> digits_value b 0 (show_radix b (n div b)) = n div b"
      by simp
    moreover have "to_digit b (radix_char (n mod b)) = Some (n mod b)"
      using "1.prems" by (intro to_digit_radix_char) auto
    ultimately show ?thesis
      using False "1.prems" by (subst (1 2) show_radix.simps) simp
  qed
qed

lemma show_radix_nonempty [simp]: "show_radix b n \<noteq> []"
  by (subst show_radix.simps) simp

lemma show_radix_length: "2 \<le> b \<Longrightarrow> 0 < k \<Longrightarrow> n < b ^ k \<Longrightarrow> length (show_radix b n) \<le> k"
proof (induction b n arbitrary: k rule: show_radix.induct)
  case (1 b n)
  show ?case
  proof (cases "n < b")
    case True
    with "1.prems" show ?thesis by (subst show_radix.simps) simp
  next
    case False
    with "1.prems" obtain j where k: "k = Suc j" "0 < j" by (cases k; cases "k - 1") auto
    with "1.prems" have "n div b < b ^ j" by (simp add: less_mult_imp_div_less mult.commute)
    with 1 False k have "length (show_radix b (n div b)) \<le> j" by simp
    with False "1.prems" k show ?thesis by (subst show_radix.simps) simp
  qed
qed

text \<open>A number is printed without leading zeros.\<close>

lemma show_radix_leading:
  assumes "2 \<le> b" and "b \<le> 16" and "hd (show_radix b n) = CHR ''0''"
  shows "n = 0"
  using assms
proof (induction b n rule: show_radix.induct)
  case (1 b n)
  show ?case
  proof (cases "n < b")
    case True
    with "1.prems" have "radix_char n = CHR ''0''" and "n < 16" by (simp_all add: show_radix.simps [of b n])
    then have "(of_char (radix_char n) :: nat) = 48" by simp
    with \<open>n < 16\<close> show ?thesis by (auto simp: of_char_radix_char split: if_splits)
  next
    case False
    with "1.prems" have "hd (show_radix b (n div b)) = CHR ''0''"
      by (simp add: show_radix.simps [of b n])
    with 1 False have "n div b = 0" by simp
    with False "1.prems" show ?thesis by (simp add: div_eq_0_iff)
  qed
qed

lemma show_nat_show_radix: "show_nat n = show_radix 10 n"
proof (induction n rule: show_nat.induct)
  case (1 n)
  then show ?case
    by (subst show_nat.simps, subst show_radix.simps) (auto simp: radix_char_def)
qed

lemma read_digits_limited_append:
  "all_digits b xs \<Longrightarrow> no_digit b rest \<Longrightarrow> count + length xs \<le> m \<Longrightarrow>
     read_digits_limited b m r count (xs @ rest) = Some (digits_value b r xs, count + length xs, rest)"
proof (induction xs arbitrary: r count)
  case Nil
  then show ?case by (cases rest) auto
qed auto

lemma read_digits_checked_append:
  "0 < b \<Longrightarrow> all_digits b xs \<Longrightarrow> no_digit b rest \<Longrightarrow> digits_value b r xs \<le> hi \<Longrightarrow>
     read_digits_checked b hi r count (xs @ rest) = Some (digits_value b r xs, count + length xs, rest)"
proof (induction xs arbitrary: r count)
  case Nil
  then show ?case by (cases rest) auto
next
  case (Cons c xs)
  then obtain d where d: "to_digit b c = Some d" by auto
  have "r * b + d \<le> hi"
    using Cons.prems digits_value_ge [of b "r * b + d" xs] by (simp add: d)
  with Cons show ?case by (simp add: d)
qed

lemma read_number_show_radix:
  assumes b: "2 \<le> b" "b \<le> 16" and n: "n \<le> hi" and rest: "no_digit b rest"
    and k: "case md of None \<Rightarrow> True | Some k \<Rightarrow> 0 < k \<and> n < b ^ k"
  shows "read_number b hi md lz (show_radix b n @ rest) = Some (n, rest)"
proof -
  let ?s = "show_radix b n"
  have d: "all_digits b ?s" and v: "digits_value b 0 ?s = n" using show_radix_digits [OF b] by auto
  have l: "length ?s \<le> k" if "md = Some k" for k
    using show_radix_length [of b k n] b k that by simp
  have r: "(case md of Some m \<Rightarrow> read_digits_limited b m 0 0 (?s @ rest)
      | None \<Rightarrow> read_digits_checked b hi 0 0 (?s @ rest)) = Some (n, length ?s, rest)"
    using d v l b n rest
    by (cases md) (simp_all add: read_digits_limited_append read_digits_checked_append)
  have z: "take 1 (?s @ rest) = ''0'' \<Longrightarrow> \<not> 1 < length ?s"
  proof -
    assume "take 1 (?s @ rest) = ''0''"
    then have "hd ?s = CHR ''0''" by (cases ?s) auto
    then have "n = 0" by (rule show_radix_leading [OF b])
    with b have "?s = [radix_char 0]" by (subst show_radix.simps) simp
    then show "\<not> 1 < length ?s" by simp
  qed
  show ?thesis
    unfolding read_number_def r using n z by auto
qed

text \<open>What a successful read has consumed.\<close>

lemma read_digits_limited_SomeD:
  "read_digits_limited b m r count s = Some (v, c, rest) \<Longrightarrow>
     \<exists>ds. s = ds @ rest \<and> all_digits b ds \<and> no_digit b rest \<and> v = digits_value b r ds \<and>
       c = count + length ds \<and> (ds = [] \<or> c \<le> m)"
proof (induction s arbitrary: r count)
  case (Cons x s)
  show ?case
  proof (cases "to_digit b x")
    case None
    with Cons.prems show ?thesis by (intro exI [of _ "[]"]) auto
  next
    case (Some d)
    with Cons.prems have "count + 1 \<le> m"
      and r: "read_digits_limited b m (r * b + d) (count + 1) s = Some (v, c, rest)"
      by (auto split: if_splits)
    with Cons.IH [OF r] obtain ds where "s = ds @ rest \<and> all_digits b ds \<and> no_digit b rest \<and>
      v = digits_value b (r * b + d) ds \<and> c = count + 1 + length ds \<and> (ds = [] \<or> c \<le> m)" by blast
    with Some \<open>count + 1 \<le> m\<close> show ?thesis by (intro exI [of _ "x # ds"]) auto
  qed
qed auto

lemma read_digits_checked_SomeD:
  "read_digits_checked b hi r count s = Some (v, c, rest) \<Longrightarrow>
     \<exists>ds. s = ds @ rest \<and> all_digits b ds \<and> no_digit b rest \<and> v = digits_value b r ds \<and>
       c = count + length ds"
proof (induction s arbitrary: r count)
  case (Cons x s)
  show ?case
  proof (cases "to_digit b x")
    case None
    with Cons.prems show ?thesis by (intro exI [of _ "[]"]) auto
  next
    case (Some d)
    with Cons.prems have r: "read_digits_checked b hi (r * b + d) (count + 1) s = Some (v, c, rest)"
      by (auto split: if_splits)
    from Cons.IH [OF r] obtain ds where "s = ds @ rest \<and> all_digits b ds \<and> no_digit b rest \<and>
      v = digits_value b (r * b + d) ds \<and> c = count + 1 + length ds" by blast
    with Some show ?thesis by (intro exI [of _ "x # ds"]) auto
  qed
qed auto

lemma read_number_SomeE:
  assumes "read_number b hi md lz s = Some (n, rest)"
  obtains ds where "s = ds @ rest" "ds \<noteq> []" "all_digits b ds" "no_digit b rest"
    "n = digits_value b 0 ds" "n \<le> hi" "\<And>k. md = Some k \<Longrightarrow> length ds \<le> k"
    "\<not> lz \<Longrightarrow> hd ds = CHR ''0'' \<Longrightarrow> length ds = 1"
proof -
  obtain c where r: "(case md of Some m \<Rightarrow> read_digits_limited b m 0 0 s
        | None \<Rightarrow> read_digits_checked b hi 0 0 s) = Some (n, c, rest)"
      and c: "c \<noteq> 0" "n \<le> hi" "\<not> (\<not> lz \<and> take 1 s = ''0'' \<and> 1 < c)"
    using assms by (auto simp: read_number_def split: option.splits if_splits)
  have "\<exists>ds. s = ds @ rest \<and> all_digits b ds \<and> no_digit b rest \<and> n = digits_value b 0 ds \<and>
      c = length ds \<and> (\<forall>k. md = Some k \<longrightarrow> ds = [] \<or> c \<le> k)"
    using r read_digits_limited_SomeD [of b _ 0 0 s n c rest] read_digits_checked_SomeD [of b hi 0 0 s n c rest]
    by (cases md) auto
  then obtain ds where ds: "s = ds @ rest" "all_digits b ds" "no_digit b rest" "n = digits_value b 0 ds"
      "c = length ds" "\<And>k. md = Some k \<Longrightarrow> ds = [] \<or> c \<le> k" by blast
  then obtain x xs where x: "ds = x # xs" using c(1) by (cases ds) auto
  show thesis
    by (rule that [of ds]) (use ds c x in auto)
qed

lemma read_number_no_digit: "no_digit b s \<Longrightarrow> read_number b hi md lz s = None"
proof (rule ccontr)
  assume s: "no_digit b s" and "read_number b hi md lz s \<noteq> None"
  then obtain n rest where "read_number b hi md lz s = Some (n, rest)" by auto
  then obtain ds where "s = ds @ rest" "ds \<noteq> []" "all_digits b ds" by (rule read_number_SomeE)
  with s show False by (cases ds) auto
qed

section \<open>IPv4 addresses\<close>

lemma be_digits_numeral:
  "be_digits b (numeral k) n = be_digits b (pred_numeral k) (n div b) @ [n mod b]"
  by (simp add: numeral_eq_Suc)

lemma be_digits_length [simp]: "length (be_digits b k n) = k"
  by (induction k arbitrary: n) auto

lemma be_digits_less: "0 < b \<Longrightarrow> d \<in> set (be_digits b k n) \<Longrightarrow> d < b"
  by (induction k arbitrary: n) auto

lemma be_value_snoc [simp]: "be_value b [] = 0" "be_value b (ds @ [d]) = b * be_value b ds + d"
  by (simp_all add: be_value_def)

lemma be_value_digits: "0 < b \<Longrightarrow> n < b ^ k \<Longrightarrow> be_value b (be_digits b k n) = n"
proof (induction k arbitrary: n)
  case (Suc k)
  then have "n div b < b ^ k" by (simp add: less_mult_imp_div_less mult.commute)
  with Suc show ?case by simp
qed simp

lemma be_value_less: "\<forall>d \<in> set ds. d < b \<Longrightarrow> be_value b ds < b ^ length ds"
proof (induction ds rule: rev_induct)
  case (snoc d ds)
  then have "be_value b ds + 1 \<le> b ^ length ds" and "d < b" by auto
  then have "b * be_value b ds + d < b * (be_value b ds + 1)" by simp
  also have "\<dots> \<le> b * b ^ length ds" using \<open>be_value b ds + 1 \<le> _\<close> by (rule mult_left_mono) simp
  finally show ?case by simp
qed simp

lemma be_digits_value: "\<forall>d \<in> set ds. d < b \<Longrightarrow> be_digits b (length ds) (be_value b ds) = ds"
  by (induction ds rule: rev_induct) auto

lemma unat_of_nat_small: "n < 2 ^ LENGTH('a) \<Longrightarrow> unat (of_nat n :: 'a :: len word) = n"
  by (simp add: unsigned_of_nat take_bit_nat_eq_self)

lemma of_octets [simp]: "of_nat (be_value 256 (octets ip)) = ip"
  using unsigned_less [of ip, where 'a = nat] by (simp add: octets_def be_value_digits)

lemma of_segments [simp]: "of_nat (be_value 65536 (segments ip)) = ip"
  using unsigned_less [of ip, where 'a = nat] by (simp add: segments_def be_value_digits)

lemma octets_length [simp]: "length (octets ip) = 4" by (simp add: octets_def)
lemma segments_length [simp]: "length (segments ip) = 8" by (simp add: segments_def)

lemma octets_less: "o' \<in> set (octets ip) \<Longrightarrow> o' < 256"
  unfolding octets_def by (erule be_digits_less [rotated]) simp

lemma segments_less: "g \<in> set (segments ip) \<Longrightarrow> g < 65536"
  unfolding segments_def by (erule be_digits_less [rotated]) simp

lemma octets_of_value:
  "length ds = 4 \<Longrightarrow> \<forall>d \<in> set ds. d < 256 \<Longrightarrow> octets (of_nat (be_value 256 ds)) = ds"
  using be_value_less [of ds 256] be_digits_value [of ds 256]
  by (simp add: octets_def unat_of_nat_small)

text \<open>The parts of an address joined by a separator, which comes before all but the first.\<close>

fun joined :: "char \<Rightarrow> nat \<Rightarrow> nat \<Rightarrow> nat list \<Rightarrow> string" where
  "joined c b i [] = []"
| "joined c b i (x # xs) = (if 0 < i then [c] else []) @ show_radix b x @ joined c b (Suc i) xs"

lemma no_digit_joined:
  "to_digit b c = None \<Longrightarrow> no_digit b rest \<Longrightarrow> no_digit b (joined c b (Suc i) xs @ rest)"
  by (cases xs) auto

lemma length_4: "length xs = 4 \<Longrightarrow> \<exists>a b c d. xs = [a, b, c, d]"
  by (auto simp: numeral_eq_Suc length_Suc_conv)

lemma display_ipv4_joined: "display_ipv4 ip = joined (CHR ''.'') 10 0 (octets ip)"
proof -
  obtain a b c d where "octets ip = [a, b, c, d]"
    using length_4 [OF octets_length] by blast
  then show ?thesis by (simp add: display_ipv4_def show_nat_show_radix numeral_eq_Suc)
qed

lemma to_digit_separators [simp]:
  "to_digit 10 (CHR ''.'') = None" "to_digit 10 (CHR '':'') = None" "to_digit 10 (CHR '']'') = None"
  "to_digit 10 (CHR ''%'') = None" "to_digit 10 (CHR ''['') = None"
  "to_digit 16 (CHR ''.'') = None" "to_digit 16 (CHR '':'') = None" "to_digit 16 (CHR '']'') = None"
  "to_digit 16 (CHR ''%'') = None"
  by (simp_all add: to_digit_def)

lemma read_separator_first [simp]: "read_separator sep 0 p = p"
  by (simp add: read_separator_def fun_eq_iff)

lemma read_separator_sep:
  "read_separator sep i p ((if 0 < i then [sep] else []) @ s) = p s"
  by (simp add: read_separator_def)

lemma read_octets_joined:
  "\<forall>x \<in> set xs. x < 256 \<Longrightarrow> no_digit 10 rest \<Longrightarrow>
     read_octets i (length xs) (joined (CHR ''.'') 10 i xs @ rest) = Some (xs, rest)"
proof (induction xs arbitrary: i)
  case (Cons x xs)
  have "read_number 10 255 (Some 3) False
      (show_radix 10 x @ joined (CHR ''.'') 10 (Suc i) xs @ rest) =
      Some (x, joined (CHR ''.'') 10 (Suc i) xs @ rest)"
    using Cons.prems by (intro read_number_show_radix no_digit_joined) auto
  with Cons show ?case by (cases "i = 0") (simp_all add: read_separator_def)
qed simp

lemma read_ipv4_display: "no_digit 10 rest \<Longrightarrow> read_ipv4_addr (display_ipv4 ip @ rest) = Some (octets ip, rest)"
  using read_octets_joined [of "octets ip" rest 0] octets_less [of _ ip]
  by (simp add: read_ipv4_addr_def display_ipv4_joined)

lemma read_port_show: "no_digit 10 rest \<Longrightarrow> read_port ('':'' @ show_nat (unat (p :: u16)) @ rest) = Some (unat p, rest)"
  using unsigned_less [of p, where 'a = nat]
  by (simp add: read_port_def show_nat_show_radix read_number_show_radix)

lemma parse_display_v4: "parse_socket_addr (display_socket_addr (V4 ip port)) = Some (V4 ip port)"
  using read_ipv4_display [of "'':'' @ show_nat (unat port)" ip] read_port_show [of "[]" port]
  by (simp add: parse_socket_addr_def read_socket_addr_v4_def)

section \<open>IPv6 addresses\<close>

lemma to_digit_10_16: "to_digit 16 c = None \<Longrightarrow> to_digit 10 c = None"
  by (auto simp: to_digit_def Let_def split: if_splits)

lemma no_digit_10_16: "no_digit 16 s \<Longrightarrow> no_digit 10 s"
  by (cases s) (auto simp: to_digit_10_16)

lemma read_octets_numeral [simp]:
  "read_octets i (numeral k) s =
     (case read_separator (CHR ''.'') i (read_number 10 255 (Some 3) False) s of
        None \<Rightarrow> None
      | Some (octet, s) \<Rightarrow>
          (case read_octets (Suc i) (pred_numeral k) s of
             None \<Rightarrow> None
           | Some (os, s) \<Rightarrow> Some (octet # os, s)))"
  by (simp add: numeral_eq_Suc)

lemma read_given_char_SomeD: "read_given_char c s = Some (u, t) \<Longrightarrow> s = c # t"
  by (cases s) (auto split: if_splits)

fun starts :: "char \<Rightarrow> string \<Rightarrow> bool" where
  "starts c [] = False"
| "starts c (x # s) = (x = c)"

lemma read_ipv4_SomeD:
  assumes "read_ipv4_addr s = Some r"
  shows "\<exists>ds t. s = ds @ CHR ''.'' # t \<and> ds \<noteq> [] \<and> all_digits 10 ds"
proof -
  obtain o1 s1 s2 where "read_number 10 255 (Some 3) False s = Some (o1, s1)"
      and "read_given_char (CHR ''.'') s1 = Some ((), s2)"
    using assms by (auto simp: read_ipv4_addr_def read_separator_def split: option.splits)
  then show ?thesis
    by (metis read_number_SomeE read_given_char_SomeD)
qed

lemma read_ipv4_no_digit: "no_digit 10 s \<Longrightarrow> read_ipv4_addr s = None"
  by (simp add: read_ipv4_addr_def read_number_no_digit)

text \<open>A group is not the start of an embedded IPv4 address unless a dot follows it.\<close>

lemma read_ipv4_group:
  assumes "no_digit 16 rest" and "\<not> starts (CHR ''.'') rest"
  shows "read_ipv4_addr (show_hex g @ rest) = None"
proof (rule ccontr)
  assume "read_ipv4_addr (show_hex g @ rest) \<noteq> None"
  then obtain ds t where eq: "show_hex g @ rest = ds @ CHR ''.'' # t" and ds: "all_digits 10 ds"
    using read_ipv4_SomeD by fastforce
  have hex: "all_digits 16 (show_hex g)" using show_radix_digits [of 16 g] by simp
  from eq consider zs where "show_hex g = ds @ zs" "zs @ rest = CHR ''.'' # t"
    | zs where "ds = show_hex g @ zs" "rest = zs @ CHR ''.'' # t"
    by (auto simp: append_eq_append_conv2)
  then show False
  proof cases
    case 1
    with hex assms(2) show False by (cases zs) auto
  next
    case 2
    with ds assms no_digit_10_16 [OF assms(1)] show False by (cases zs) auto
  qed
qed

lemma read_groups_joined:
  "\<forall>g \<in> set gs. g < 65536 \<Longrightarrow> length gs \<le> n \<Longrightarrow> no_digit 16 rest \<Longrightarrow> \<not> starts (CHR ''.'') rest \<Longrightarrow>
     read_groups i n (joined (CHR '':'') 16 i gs @ rest) =
       (case read_groups (i + length gs) (n - length gs) rest of (gs', v4, r) \<Rightarrow> (gs @ gs', v4, r))"
proof (induction gs arbitrary: i n)
  case (Cons g gs)
  obtain m where n: "n = Suc m" and m: "length gs \<le> m" using Cons.prems by (cases n) auto
  let ?rest = "joined (CHR '':'') 16 (Suc i) gs @ rest"
  have rest: "no_digit 16 ?rest" "\<not> starts (CHR ''.'') ?rest"
    using Cons.prems by (auto simp: no_digit_joined) (cases gs; simp)
  have number: "read_number 16 65535 (Some 4) True (show_hex g @ ?rest) = Some (g, ?rest)"
    using Cons.prems rest by (intro read_number_show_radix) auto
  have sep: "read_separator (CHR '':'') i p (joined (CHR '':'') 16 i (g # gs) @ rest) = p (show_hex g @ ?rest)" for p :: "'b parser"
    using read_separator_sep [of "CHR '':''" i p "show_hex g @ ?rest"] by simp
  have "read_groups (Suc i) m ?rest =
      (case read_groups (Suc i + length gs) (m - length gs) rest of (gs', v4, r) \<Rightarrow> (gs @ gs', v4, r))"
    using Cons m by simp
  then show ?case
    unfolding n read_groups.simps sep using m number
    by (cases "m = 0") (simp_all add: read_ipv4_group [OF rest] split: prod.splits)
qed (auto split: prod.splits)

text \<open>The groups end where neither a number nor a colon with a number follows.\<close>

lemma read_groups_stop:
  assumes "no_digit 16 rest" and "0 < i \<Longrightarrow> starts (CHR '':'') rest \<Longrightarrow> no_digit 16 (tl rest)"
  shows "read_groups i n rest = ([], False, rest)"
proof (cases n)
  case (Suc m)
  have "read_separator (CHR '':'') i read_ipv4_addr rest = None"
    and "read_separator (CHR '':'') i (read_number 16 65535 (Some 4) True) rest = None"
    using assms read_ipv4_no_digit [OF no_digit_10_16] read_number_no_digit [of 16]
    by (cases rest; simp add: read_separator_def)+
  then show ?thesis by (simp add: Suc)
qed simp

text \<open>What follows an address in a socket address: neither a group nor a separator.\<close>

definition after_addr :: "string \<Rightarrow> bool" where
  "after_addr rest \<longleftrightarrow> no_digit 16 rest \<and> \<not> starts (CHR ''.'') rest \<and> \<not> starts (CHR '':'') rest"

lemma read_ipv6_full:
  assumes "\<forall>g \<in> set gs. g < 65536" and "length gs = 8" and "after_addr rest"
  shows "read_ipv6_addr (joined (CHR '':'') 16 0 gs @ rest) = Some (gs, rest)"
  using assms read_groups_joined [of gs 8 rest 0] by (simp add: read_ipv6_addr_def after_addr_def)

lemma read_ipv6_compressed:
  assumes "\<forall>g \<in> set pre \<union> set post. g < 65536" and "length pre + length post \<le> 7" and "after_addr rest"
  shows "read_ipv6_addr (joined (CHR '':'') 16 0 pre @ ''::'' @ joined (CHR '':'') 16 0 post @ rest) =
    Some (pre @ replicate (8 - length pre - length post) 0 @ post, rest)"
proof -
  let ?r = "joined (CHR '':'') 16 0 post @ rest"
  have head: "read_groups 0 8 (joined (CHR '':'') 16 0 pre @ ''::'' @ ?r) = (pre, False, ''::'' @ ?r)"
    using assms read_groups_joined [of pre 8 "''::'' @ ?r" 0] by (simp add: read_groups_stop)
  have tail: "read_groups 0 (8 - (length pre + 1)) ?r = (post, False, rest)"
    using assms read_groups_joined [of post "8 - (length pre + 1)" rest 0] read_groups_stop [of rest]
    unfolding after_addr_def by (auto split: prod.splits)
  have "length pre \<noteq> 8" using assms(2) by simp
  then show ?thesis
    unfolding read_ipv6_addr_def head by (simp add: tail [simplified])
qed

lemma fmt_subslice_joined: "fmt_subslice gs = joined (CHR '':'') 16 0 gs"
proof -
  have "concat (map (\<lambda>s. '':'' @ show_hex s) tail) = joined (CHR '':'') 16 (Suc i) tail" for i tail
    by (induction tail arbitrary: i) auto
  then show ?thesis by (cases gs) auto
qed

text \<open>The run that is compressed consists of zeros, wherever it lies.\<close>

definition zero_run :: "nat list \<Rightarrow> nat \<Rightarrow> nat \<times> nat \<Rightarrow> bool" where
  "zero_run xs i span \<longleftrightarrow> fst span + snd span \<le> i \<and>
     (\<forall>j. fst span \<le> j \<and> j < fst span + snd span \<longrightarrow> xs ! j = 0)"

lemma longest_zeroes_run:
  "drop i xs = ss \<Longrightarrow> i \<le> length xs \<Longrightarrow> zero_run xs i longest \<Longrightarrow>
     snd current = 0 \<or> zero_run xs i current \<and> fst current + snd current = i \<Longrightarrow>
     zero_run xs (length xs) (longest_zeroes ss i longest current)"
proof (induction ss arbitrary: i longest current)
  case (Cons s ss)
  then have i: "i < length xs" "xs ! i = s" "drop (Suc i) xs = ss"
    by (metis drop_all list.discI not_le, metis hd_drop_conv_nth drop_all list.discI list.sel(1) not_le,
        metis drop_Suc drop_tl list.sel(3))
  have longest: "zero_run xs (Suc i) longest" using Cons.prems(3) by (simp add: zero_run_def)
  show ?case
  proof (cases "s = 0")
    case True
    let ?current = "(if snd current = 0 then i else fst current, snd current + 1)"
    have "zero_run xs (Suc i) ?current \<and> fst ?current + snd ?current = Suc i"
      using Cons.prems(4) True i(2) by (auto simp: zero_run_def less_Suc_eq)
    moreover have "longest_zeroes (s # ss) i longest current =
        longest_zeroes ss (Suc i) (if snd longest < snd ?current then ?current else longest) ?current"
      using True by (simp add: Let_def)
    ultimately show ?thesis
      using i longest Cons.IH [of "Suc i" "if snd longest < snd ?current then ?current else longest" ?current]
      by (cases "snd longest < snd ?current") (simp_all only: if_True if_False Suc_leI simp_thms)
  next
    case False
    with i longest Cons.IH [of "Suc i" longest "(0, 0)"] show ?thesis by simp
  qed
qed (simp add: zero_run_def)

lemma zero_run_split:
  assumes "zero_run xs (length xs) (start, len)"
  shows "xs = take start xs @ replicate len 0 @ drop (start + len) xs"
proof -
  have "take len (drop start xs) = replicate len 0"
    using assms by (intro nth_equalityI) (auto simp: zero_run_def)
  then show ?thesis by (metis append_take_drop_id drop_drop add.commute)
qed

lemma ipv4_mapped_segments:
  assumes "to_ipv4_mapped ip = Some v4"
  shows "segments ip = replicate 5 0 @
    [65535, 256 * octets v4 ! 0 + octets v4 ! 1, 256 * octets v4 ! 2 + octets v4 ! 3]"
proof -
  from assms have t: "take 6 (segments ip) = [0, 0, 0, 0, 0, 65535]"
    and v: "v4 = of_nat (be_value 65536 (drop 6 (segments ip)))"
    by (simp_all add: to_ipv4_mapped_def split: if_splits)
  have "length (drop 6 (segments ip)) = 2" by simp
  then obtain g h where gh: "drop 6 (segments ip) = [g, h]"
    by (auto simp: numeral_eq_Suc length_Suc_conv simp del: length_drop)
  have s: "segments ip = [0, 0, 0, 0, 0, 65535] @ [g, h]"
    using append_take_drop_id [of 6 "segments ip"] t gh by simp
  have less: "g < 65536" "h < 65536" using segments_less [of _ ip] unfolding s by simp_all
  have "be_value 65536 [g, h] = 65536 * g + h" by (simp add: be_value_def)
  with less have "unat v4 = 65536 * g + h"
    unfolding v gh by (subst unat_of_nat_small) simp_all
  moreover have "be_digits 256 4 n = [n div 256 div 256 div 256 mod 256, n div 256 div 256 mod 256,
      n div 256 mod 256, n mod 256]" for n
    by (simp add: be_digits_numeral)
  moreover have "(256 * a + d) div 256 = a + d div 256" "(256 * a + d) mod 256 = d mod 256" for a d :: nat
    by simp_all
  from this [of "256 * g" h] this [of g "h div 256"]
  have "(65536 * g + h) div 256 = 256 * g + h div 256" "(65536 * g + h) mod 256 = h mod 256"
    "(256 * g + h div 256) div 256 = g" "(256 * g + h div 256) mod 256 = h div 256" "g div 256 mod 256 = g div 256"
    using less by (simp_all add: div_less mod_less less_mult_imp_div_less)
  ultimately have "octets v4 = [g div 256, g mod 256, h div 256, h mod 256]"
    by (simp add: octets_def)
  moreover have "replicate 5 (0 :: nat) = [0, 0, 0, 0, 0]" by (simp add: numeral_eq_Suc)
  ultimately show ?thesis using s less by (simp add: mult.commute)
qed

lemma read_ipv6_mapped:
  assumes "to_ipv4_mapped ip = Some v4" and "after_addr rest"
  shows "read_ipv6_addr (''::ffff:'' @ display_ipv4 v4 @ rest) = Some (segments ip, rest)"
proof -
  have hex: "show_hex 65535 = ''ffff''"
    by (simp add: show_radix.simps radix_char_def) code_simp
  let ?gs = "[256 * octets v4 ! 0 + octets v4 ! 1, 256 * octets v4 ! 2 + octets v4 ! 3]"
  have "no_digit 10 rest" using assms(2) by (simp add: after_addr_def no_digit_10_16)
  then have "read_groups 1 6 ('':'' @ display_ipv4 v4 @ rest) = (?gs, True, rest)"
    using read_groups.simps(2) [of 1 5 "'':'' @ display_ipv4 v4 @ rest"]
    by (simp add: read_separator_def read_ipv4_display)
  then have tail: "read_groups 0 7 (''ffff:'' @ display_ipv4 v4 @ rest) = (65535 # ?gs, True, rest)"
    using read_groups_joined [of "[65535]" 7 "'':'' @ display_ipv4 v4 @ rest" 0] by (simp add: hex)
  have head: "read_groups 0 8 (''::ffff:'' @ display_ipv4 v4 @ rest) =
      ([], False, ''::ffff:'' @ display_ipv4 v4 @ rest)"
    by (rule read_groups_stop) simp_all
  show ?thesis
    unfolding read_ipv6_addr_def head using tail ipv4_mapped_segments [OF assms(1)] by simp
qed

lemma read_ipv6_display:
  assumes "after_addr rest"
  shows "read_ipv6_addr (display_ipv6 ip @ rest) = Some (segments ip, rest)"
proof (cases "to_ipv4_mapped ip")
  case None
  obtain start len where z: "longest_zeroes (segments ip) 0 (0, 0) (0, 0) = (start, len)" by force
  have run: "zero_run (segments ip) (length (segments ip)) (start, len)"
    using longest_zeroes_run [of 0 "segments ip" "segments ip" "(0, 0)" "(0, 0)"]
    by (simp add: z zero_run_def del: segments_length)
  note split = zero_run_split [OF run]
  let ?pre = "take start (segments ip)" and ?post = "drop (start + len) (segments ip)"
  have b: "start + len \<le> 8" using run by (simp add: zero_run_def)
  have less: "\<forall>g \<in> set ?pre \<union> set ?post. g < 65536"
    by (meson UnE in_set_takeD in_set_dropD segments_less)
  show ?thesis
  proof (cases "1 < len")
    case True
    with b have "length ?pre + length ?post \<le> 7" "8 - length ?pre - length ?post = len" by auto
    with read_ipv6_compressed [OF less _ assms] split True show ?thesis
      by (simp add: display_ipv6_def None z fmt_subslice_joined)
  next
    case False
    with read_ipv6_full [of "segments ip" rest] assms segments_less show ?thesis
      by (simp add: display_ipv6_def None z fmt_subslice_joined)
  qed
next
  case (Some v4)
  with read_ipv6_mapped [OF Some assms] show ?thesis by (simp add: display_ipv6_def)
qed

section \<open>Printing and parsing\<close>

lemma parse_display_v6:
  "parse_socket_addr (display_socket_addr (V6 ip port flowinfo scope_id)) = Some (V6 ip port 0 scope_id)"
proof -
  let ?scope = "if scope_id = 0 then [] else ''%'' @ show_nat (unat scope_id)"
  let ?close = "'']:'' @ show_nat (unat port)"
  have "after_addr (?scope @ ?close)" by (simp add: after_addr_def)
  note addr = read_ipv6_display [OF this, of ip]
  have "unat scope_id \<le> 4294967295" using unsigned_less [of scope_id, where 'a = nat] by simp
  then have scope: "read_scope_id (''%'' @ show_nat (unat scope_id) @ ?close) = Some (unat scope_id, ?close)"
    "read_scope_id ?close = None"
    by (simp_all add: read_scope_id_def show_nat_show_radix read_number_show_radix)
  have v4: "read_socket_addr_v4 (CHR ''['' # s) = None" for s
    by (simp add: read_socket_addr_v4_def read_ipv4_no_digit)
  have "read_socket_addr_v6 (display_socket_addr (V6 ip port flowinfo scope_id)) =
      Some (V6 ip port 0 scope_id, [])"
    using addr scope read_port_show [of "[]" port]
    by (cases "scope_id = 0") (simp_all add: read_socket_addr_v6_def)
  moreover have "read_socket_addr_v4 (display_socket_addr (V6 ip port flowinfo scope_id)) = None"
    by (simp add: v4)
  ultimately show ?thesis by (simp add: parse_socket_addr_def del: display_socket_addr.simps)
qed

text \<open>A listen string has no flow information, so a parsed address is printed without loss.\<close>

lemma parsed_addr_roundtrip:
  assumes "parse_socket_addr s = Some a"
  shows "parse_socket_addr (display_socket_addr a) = Some a"
proof -
  have "flow = 0" if "a = V6 ip port flow scope" for ip port flow scope
    using assms that
    by (auto simp: parse_socket_addr_def read_socket_addr_v4_def read_socket_addr_v6_def
        split: option.splits list.splits prod.splits)
  then show ?thesis by (cases a) (auto simp: parse_display_v4 parse_display_v6 simp del: display_socket_addr.simps)
qed

text \<open>The alphabet of a printed address.\<close>

definition addr_char :: "char \<Rightarrow> bool" where
  "addr_char c \<longleftrightarrow> to_digit 16 c \<noteq> None \<or> c \<in> {CHR ''.'', CHR '':'', CHR ''['', CHR '']'', CHR ''%''}"

lemma show_radix_chars: "2 \<le> b \<Longrightarrow> b \<le> 16 \<Longrightarrow> c \<in> set (show_radix b n) \<Longrightarrow> to_digit 16 c \<noteq> None"
  using show_radix_digits [of b n] unfolding all_digits_def
  by (auto simp: to_digit_def Let_def split: if_splits)

lemma show_nat_chars: "c \<in> set (show_nat n) \<Longrightarrow> addr_char c"
  using show_radix_chars [of 10 c n] by (simp add: show_nat_show_radix addr_char_def)

lemma joined_chars:
  "2 \<le> b \<Longrightarrow> b \<le> 16 \<Longrightarrow> addr_char sep \<Longrightarrow> c \<in> set (joined sep b i xs) \<Longrightarrow> addr_char c"
  by (induction xs arbitrary: i) (auto simp: addr_char_def dest: show_radix_chars split: if_splits)

lemma display_ipv4_chars: "c \<in> set (display_ipv4 ip) \<Longrightarrow> addr_char c"
  by (auto simp: display_ipv4_joined addr_char_def dest: joined_chars [rotated 3])

lemma display_ipv6_chars: "c \<in> set (display_ipv6 ip) \<Longrightarrow> addr_char c"
proof -
  have f: "addr_char c" if "c \<in> set (fmt_subslice gs)" for gs
    using that joined_chars [of 16 "CHR '':''" c 0 gs] by (simp add: fmt_subslice_joined addr_char_def)
  have "addr_char (CHR ''f'')" "addr_char (CHR '':'')" by (simp_all add: addr_char_def to_digit_def)
  then show "c \<in> set (display_ipv6 ip) \<Longrightarrow> addr_char c"
    by (auto simp: display_ipv6_def dest: f display_ipv4_chars split: option.splits prod.splits if_splits)
qed

lemma display_socket_addr_chars: "c \<in> set (display_socket_addr a) \<Longrightarrow> addr_char c"
proof -
  have "addr_char (CHR ''['')" "addr_char (CHR '']'')" "addr_char (CHR '':'')" "addr_char (CHR ''%'')"
    by (simp_all add: addr_char_def)
  then show "c \<in> set (display_socket_addr a) \<Longrightarrow> addr_char c"
    by (cases a) (auto dest: display_ipv4_chars display_ipv6_chars show_nat_chars split: if_splits)
qed

section \<open>Which strings are IPv4 addresses\<close>

lemma radix_char_to_digit: "to_digit 10 c = Some d \<Longrightarrow> c = radix_char d"
proof -
  assume "to_digit 10 c = Some d"
  then have "(of_char c :: nat) = 48 + d" and "d < 10"
    by (auto simp: to_digit_def Let_def split: if_splits)
  moreover have "char_of (of_char c :: nat) = c" by (rule char_of_char)
  ultimately show ?thesis by (simp add: radix_char_def digit_char_def)
qed

text \<open>Decimal digits without a leading zero are the printed form of their value.\<close>

lemma show_radix_canonical:
  "ds \<noteq> [] \<Longrightarrow> all_digits 10 ds \<Longrightarrow> (hd ds = CHR ''0'' \<Longrightarrow> length ds = 1) \<Longrightarrow>
     ds = show_radix 10 (digits_value 10 0 ds)"
proof (induction ds rule: rev_induct)
  case (snoc c ds)
  then obtain d where d: "to_digit 10 c = Some d" by auto
  then have less: "d < 10" by (rule to_digit_less)
  show ?case
  proof (cases "ds = []")
    case True
    with d less show ?thesis
      by (subst show_radix.simps) (simp add: radix_char_to_digit [OF d, symmetric])
  next
    case False
    with snoc.prems have hd: "hd ds \<noteq> CHR ''0''" and digits: "all_digits 10 ds" by auto
    with snoc.IH False have ds: "ds = show_radix 10 (digits_value 10 0 ds)" by blast
    have "digits_value 10 0 ds \<noteq> 0"
    proof
      assume "digits_value 10 0 ds = 0"
      with ds have "ds = show_radix 10 0" by simp
      with hd show False by (simp add: show_radix.simps radix_char_def)
    qed
    with d less ds show ?thesis
      by (subst show_radix.simps) (simp add: radix_char_to_digit [OF d, symmetric])
  qed
qed simp

lemma read_octets_SomeD:
  "read_octets i n s = Some (xs, rest) \<Longrightarrow>
     s = joined (CHR ''.'') 10 i xs @ rest \<and> length xs = n \<and> (\<forall>x \<in> set xs. x < 256)"
proof (induction n arbitrary: i s xs)
  case (Suc n)
  from Suc.prems obtain x s1 xs1
    where 1: "read_separator (CHR ''.'') i (read_number 10 255 (Some 3) False) s = Some (x, s1)"
      and 2: "read_octets (Suc i) n s1 = Some (xs1, rest)" and xs: "xs = x # xs1"
    by (auto split: option.splits prod.splits)
  obtain s0 where s: "s = (if 0 < i then ''.'' else []) @ s0"
    and "read_number 10 255 (Some 3) False s0 = Some (x, s1)"
    using 1 by (auto simp: read_separator_def split: if_splits option.splits dest!: read_given_char_SomeD)
  then obtain ds where ds: "s0 = ds @ s1" "ds \<noteq> []" "all_digits 10 ds" "x = digits_value 10 0 ds" "x \<le> 255"
      "hd ds = CHR ''0'' \<Longrightarrow> length ds = 1"
    by (auto elim: read_number_SomeE)
  from ds(2,3,6) have "ds = show_radix 10 x" unfolding ds(4) by (rule show_radix_canonical)
  then have "s = (if 0 < i then ''.'' else []) @ show_radix 10 x @ s1" using s ds(1) by simp
  moreover have "x < 256" using ds(5) by simp
  ultimately show ?case using Suc.IH [OF 2] xs by simp
qed auto

lemma read_port_SomeD:
  assumes "read_port s = Some (p, rest)"
  shows "\<exists>ds. s = '':'' @ ds @ rest \<and> ds \<noteq> [] \<and> all_digits 10 ds \<and> p = digits_value 10 0 ds \<and> p \<le> 65535"
proof -
  obtain t where "s = CHR '':'' # t" and "read_number 10 65535 None True t = Some (p, rest)"
    using assms by (auto simp: read_port_def split: option.splits dest!: read_given_char_SomeD)
  then show ?thesis by (auto elim!: read_number_SomeE)
qed

lemma read_port_digits:
  assumes "ds \<noteq> []" and "all_digits 10 ds" and "digits_value 10 0 ds \<le> 65535"
  shows "read_port ('':'' @ ds) = Some (digits_value 10 0 ds, [])"
proof -
  have "take 1 ds = ''0'' \<longrightarrow> length ds \<noteq> 0" using assms(1) by simp
  with read_digits_checked_append [of 10 ds "[]" 0 65535 0] assms
  show ?thesis by (simp add: read_port_def read_number_def)
qed

text \<open>
  A listen string is an IPv4 address exactly if it is the dotted form the library prints, without
  leading zeros, a colon and a decimal port of at most 65535, which may have leading zeros.
\<close>

lemma parse_ipv4_iff:
  "parse_socket_addr s = Some (V4 ip port) \<longleftrightarrow>
     (\<exists>ds. s = display_ipv4 ip @ '':'' @ ds \<and> ds \<noteq> [] \<and> all_digits 10 ds \<and>
       digits_value 10 0 ds = unat port)"
proof
  assume "parse_socket_addr s = Some (V4 ip port)"
  then have "read_socket_addr_v4 s = Some (V4 ip port, [])"
    by (auto simp: parse_socket_addr_def read_socket_addr_v6_def split: option.splits list.splits prod.splits)
  then obtain xs t p where xs: "read_octets 0 4 s = Some (xs, t)" and p: "read_port t = Some (p, [])"
    and eq: "ip = of_nat (be_value 256 xs)" "port = of_nat p"
    unfolding read_socket_addr_v4_def read_ipv4_addr_def by (auto split: option.splits prod.splits)
  from read_octets_SomeD [OF xs] have s: "s = display_ipv4 ip @ t"
    by (simp add: display_ipv4_joined eq octets_of_value)
  from read_port_SomeD [OF p] show "\<exists>ds. s = display_ipv4 ip @ '':'' @ ds \<and> ds \<noteq> [] \<and> all_digits 10 ds \<and>
       digits_value 10 0 ds = unat port"
    by (auto simp: s eq unat_of_nat_small)
next
  assume "\<exists>ds. s = display_ipv4 ip @ '':'' @ ds \<and> ds \<noteq> [] \<and> all_digits 10 ds \<and>
       digits_value 10 0 ds = unat port"
  then obtain ds where s: "s = display_ipv4 ip @ '':'' @ ds" and ds: "ds \<noteq> []" "all_digits 10 ds"
    and v: "digits_value 10 0 ds = unat port" by blast
  have "unat port \<le> 65535" using unsigned_less [of port, where 'a = nat] by simp
  with read_port_digits [OF ds] v read_ipv4_display [of "'':'' @ ds" ip]
  show "parse_socket_addr s = Some (V4 ip port)"
    by (simp add: s parse_socket_addr_def read_socket_addr_v4_def)
qed

text \<open>A string that begins with neither a digit nor a bracket is not an address: no host name is.\<close>

lemma host_names_are_no_addresses:
  "no_digit 10 s \<Longrightarrow> \<not> starts (CHR ''['') s \<Longrightarrow> parse_socket_addr s = None"
  by (cases s) (simp_all add: parse_socket_addr_def read_socket_addr_v4_def read_socket_addr_v6_def
      read_ipv4_no_digit)

end
