(* ===== verification/Tls_Sni.thy ===== *)
theory Tls_Sni
  imports Utf8 "HOL-Library.Sublist"
begin

text \<open>
  \<open>src/servers/protocol/tls.rs\<close>: the server names in the first bytes of a TLS connection.

  The TLS grammar is the library \<open>tls_parser\<close>'s, whose three functions are the fields of the
  argument \<open>tls_parser\<close>; of the library's message and extension types the datatypes keep what the
  program matches on. \<open>get_sni\<close> is the program's nest of loops around them. The lemmas give it as
  one list comprehension, and show what a caller can rely on: names are valid UTF-8, in the
  order of the record, and nothing that is not a complete record yields any.
\<close>

section \<open>The parser interface\<close>

datatype tls_message = Client_Hello "bytes option" | Other_Message

datatype tls_extension = SNI "(8 word \<times> bytes) list" | Other_Extension

text \<open>Each function returns the unread rest with its result, or the error as it prints.\<close>

record 'hdr tls_parser =
  tp_raw_record :: "bytes \<Rightarrow> string + bytes \<times> 'hdr \<times> bytes"
  tp_record_with_header :: "bytes \<Rightarrow> 'hdr \<Rightarrow> string + bytes \<times> tls_message list"
  tp_extensions :: "bytes \<Rightarrow> string + bytes \<times> tls_extension list"

section \<open>get\_sni\<close>

fun push_names :: "string list \<Rightarrow> (8 word \<times> bytes) list \<Rightarrow> string list" where
  "push_names snis [] = snis"
| "push_names snis ((t, sni) # v) =
     (case from_utf8 sni of
        Some s \<Rightarrow> push_names (snis @ [s]) v
      | None \<Rightarrow> push_names snis v)"

fun push_extensions :: "string list \<Rightarrow> tls_extension list \<Rightarrow> string list" where
  "push_extensions snis [] = snis"
| "push_extensions snis (SNI v # exts) = push_extensions (push_names snis v) exts"
| "push_extensions snis (Other_Extension # exts) = push_extensions snis exts"

fun push_messages :: "'hdr tls_parser \<Rightarrow> string list \<Rightarrow> tls_message list \<Rightarrow> string list" where
  "push_messages tp snis [] = snis"
| "push_messages tp snis (Client_Hello ext # msgs) =
     (case tp_extensions tp (case ext of Some b \<Rightarrow> b | None \<Rightarrow> []) of
        Inr (_, extensions) \<Rightarrow> push_messages tp (push_extensions snis extensions) msgs
      | Inl e \<Rightarrow> push_messages tp snis msgs)"
| "push_messages tp snis (Other_Message # msgs) = push_messages tp snis msgs"

definition get_sni :: "'hdr tls_parser \<Rightarrow> bytes \<Rightarrow> string list" where
  "get_sni tp buf =
     (case tp_raw_record tp buf of
        Inr (_, hdr, data) \<Rightarrow>
          (case tp_record_with_header tp data hdr of
             Inr (_, msg_list) \<Rightarrow> push_messages tp [] msg_list
           | Inl err \<Rightarrow> [])
      | Inl err \<Rightarrow> [])"

section \<open>As one comprehension\<close>

text \<open>The names in a list of extensions, and the extensions of a message.\<close>

fun ext_names :: "tls_extension \<Rightarrow> bytes list" where
  "ext_names (SNI v) = map snd v"
| "ext_names Other_Extension = []"

fun hello_extensions :: "'hdr tls_parser \<Rightarrow> tls_message \<Rightarrow> tls_extension list" where
  "hello_extensions tp (Client_Hello ext) =
     (case tp_extensions tp (case ext of Some b \<Rightarrow> b | None \<Rightarrow> []) of
        Inr (_, extensions) \<Rightarrow> extensions
      | Inl e \<Rightarrow> [])"
| "hello_extensions tp Other_Message = []"

fun record_messages :: "'hdr tls_parser \<Rightarrow> bytes \<Rightarrow> tls_message list" where
  "record_messages tp buf =
     (case tp_raw_record tp buf of
        Inr (_, hdr, data) \<Rightarrow>
          (case tp_record_with_header tp data hdr of Inr (_, msgs) \<Rightarrow> msgs | Inl err \<Rightarrow> [])
      | Inl err \<Rightarrow> [])"

lemma push_names_eq: "push_names snis v = snis @ filter utf8_valid (map snd v)"
  by (induction snis v rule: push_names.induct) (auto simp: from_utf8_def)

lemma push_extensions_eq:
  "push_extensions snis exts = snis @ filter utf8_valid (concat (map ext_names exts))"
  by (induction snis exts rule: push_extensions.induct) (simp_all add: push_names_eq)

lemma push_messages_eq:
  "push_messages tp snis msgs =
     snis @ filter utf8_valid (concat (map ext_names (concat (map (hello_extensions tp) msgs))))"
  by (induction tp snis msgs rule: push_messages.induct)
    (simp_all add: push_extensions_eq split: sum.splits prod.splits)

lemma get_sni_eq:
  "get_sni tp buf = [name. msg \<leftarrow> record_messages tp buf, ext \<leftarrow> hello_extensions tp msg,
     name \<leftarrow> ext_names ext, utf8_valid name]"
proof -
  have "filter utf8_valid xs = concat (map (\<lambda>name. if utf8_valid name then [name] else []) xs)" for xs
    by (induction xs) simp_all
  then have "push_messages tp [] msgs = concat (map (\<lambda>msg. concat (map (\<lambda>ext. concat (map
      (\<lambda>name. if utf8_valid name then [name] else []) (ext_names ext))) (hello_extensions tp msg))) msgs)"
    for msgs
    by (simp add: push_messages_eq map_concat filter_concat comp_def) (induction msgs; simp add: comp_def)
  then show ?thesis by (simp add: get_sni_def split: sum.splits prod.splits)
qed

lemma get_sni_valid: "list_all utf8_valid (get_sni tp buf)"
  by (auto simp: get_sni_eq list_all_iff split: if_splits)

section \<open>What the library documents\<close>

text \<open>
  A record is one byte of type, two of version, two of length and that many bytes of data. The
  parsers are streaming: a record that is not there completely is an error.
\<close>

definition announced_len :: "bytes \<Rightarrow> nat" where
  "announced_len buf = 256 * byte (buf ! 3) + byte (buf ! 4)"

definition complete_record :: "bytes \<Rightarrow> bool" where
  "complete_record buf \<longleftrightarrow> 5 \<le> length buf \<and> 5 + announced_len buf \<le> length buf"

definition rejects_incomplete :: "'hdr tls_parser \<Rightarrow> bool" where
  "rejects_incomplete tp \<longleftrightarrow> (\<forall>buf. \<not> complete_record buf \<longrightarrow> (\<exists>e. tp_raw_record tp buf = Inl e))"

lemma incomplete_no_sni: "rejects_incomplete tp \<Longrightarrow> \<not> complete_record buf \<Longrightarrow> get_sni tp buf = []"
  by (auto simp: rejects_incomplete_def get_sni_def split: sum.splits)

section \<open>Properties\<close>

text \<open>
  C35. \<open>get_sni\<close> returns the names of all SNI extensions of all ClientHello messages of the
  record, in the order in which they occur, leaving out those that are not valid UTF-8; every
  parse error, of the record, its messages or one message's extensions, contributes no name and
  stops nothing else.
\<close>

theorem get_sni_collects_valid_names:
  "get_sni tp buf = [name. msg \<leftarrow> record_messages tp buf, ext \<leftarrow> hello_extensions tp msg,
     name \<leftarrow> ext_names ext, utf8_valid name] \<and> list_all utf8_valid (get_sni tp buf)"
  using get_sni_eq get_sni_valid by blast

section \<open>An instance of the parser interface for examples\<close>

text \<open>It frames records as documented and finds the given names in every complete one.\<close>

definition sni_parser :: "bytes list \<Rightarrow> bytes tls_parser" where
  "sni_parser names =
     \<lparr>tp_raw_record = (\<lambda>buf. if complete_record buf
        then Inr (drop (5 + announced_len buf) buf, take 5 buf, take (announced_len buf) (drop 5 buf))
        else Inl ''Incomplete''),
      tp_record_with_header = (\<lambda>data hdr. Inr ([], [Other_Message, Client_Hello (Some data)])),
      tp_extensions = (\<lambda>b. Inr ([], [Other_Extension, SNI (map (Pair 0) names)]))\<rparr>"

lemma sni_parser_rejects: "rejects_incomplete (sni_parser names)"
  by (simp add: rejects_incomplete_def sni_parser_def)

lemma sni_parser_get_sni:
  "get_sni (sni_parser names) buf = (if complete_record buf then filter utf8_valid names else [])"
  by (simp add: get_sni_def sni_parser_def push_names_eq comp_def)

end
