(* ===== verification/Tcp_Accept.thy ===== *)
theory Tcp_Accept
  imports Upstreams Tls_Sni
begin

text \<open>
  \<open>Proxy\<close> of \<open>src/servers/mod.rs\<close> and \<open>accept\<close> of \<open>src/servers/protocol/tcp.rs\<close>: what a listener
  does with one accepted connection, from the peek at its first bytes to the upstream that
  processes it.

  The upstream map is shared by all proxies through an \<open>Arc\<close>, and its address caches change
  while connections run: \<open>accept\<close> reads the map of its proxy and returns it updated. The lemmas
  give the routing as a lookup of the first configured name, the errors \<open>accept\<close> can return, the
  frame of its effect on the map, and what a client can bring about with the bytes it sends.
\<close>

section \<open>Proxy\<close>

type_synonym upstream_map = "(string, upstream) hash_map"

record proxy =
  p_name :: string
  p_listen :: sock_addr
  p_protocol :: string
  p_tls :: bool
  p_sni :: "(string, sni_target) hash_map option"
  p_default_action :: string
  p_upstream :: upstream_map
  p_via :: via_upstream
  p_maxclients :: sem_ref
  p_maxclients_limit :: usize

definition is_health_server :: "proxy \<Rightarrow> bool" where
  "is_health_server proxy =
     (case hm_get (p_upstream proxy) (p_default_action proxy) of Some (Health m) \<Rightarrow> True | _ \<Rightarrow> False)"

section \<open>accept\<close>

text \<open>
  The peer address is an argument of an \<open>info!\<close>, which is evaluated only where that level is
  enabled; its \<open>?\<close> then ends \<open>accept\<close>.
\<close>

definition accept_log :: "proxy \<Rightarrow> conn_env \<Rightarrow> (action, unit) io" where
  "accept_log proxy env =
     (if is_health_server proxy then io_ret ()
      else if ce_info_enabled env then io_bind (io_try (ce_peer_addr env)) (\<lambda>_. io_ret ())
      else io_ret ())"

definition hello_buf_len :: nat where
  "hello_buf_len = 4096"

text \<open>\<open>peek\<close> copies into a zeroed buffer, and the whole buffer is parsed.\<close>

definition peek_into :: "bytes \<Rightarrow> bytes" where
  "peek_into d = take hello_buf_len d @ replicate (hello_buf_len - length d) (CHR 0x00)"

definition accept_snis :: "'hdr tls_parser \<Rightarrow> proxy \<Rightarrow> conn_env \<Rightarrow> (action, string list) io" where
  "accept_snis tp proxy env =
     (if p_tls proxy then
        (case ce_peek env of
           None \<Rightarrow> (Pending, [])
         | Some r \<Rightarrow> io_bind (io_try r) (\<lambda>d. io_ret (get_sni tp (peek_into d))))
      else io_ret [])"

fun match_sni ::
  "(string, sni_target) hash_map \<Rightarrow> string \<Rightarrow> string list \<Rightarrow> string \<times> via_upstream option" where
  "match_sni sni_map matched [] = (matched, None)"
| "match_sni sni_map matched (sni # snis) =
     (case hm_get sni_map sni of
        Some target \<Rightarrow> (upstream_name target, via_override target)
      | None \<Rightarrow> match_sni sni_map matched snis)"

definition route :: "proxy \<Rightarrow> string list \<Rightarrow> string \<times> via_upstream option" where
  "route proxy snis =
     (if snis \<noteq> [] then
        (case p_sni proxy of
           Some sni_map \<Rightarrow> match_sni sni_map (p_default_action proxy) snis
         | None \<Rightarrow> (p_default_action proxy, None))
      else (p_default_action proxy, None))"

definition connect_target_of :: "via_upstream \<Rightarrow> string list \<Rightarrow> string option" where
  "connect_target_of via snis =
     (if via_use_sni_as_target via then
        (case snis of [] \<Rightarrow> None
         | sni # _ \<Rightarrow> Some (sni @ '':'' @ show_nat (unat (via_target_port via))))
      else if via_target via \<noteq> [] then Some (via_target via)
      else None)"

definition select_upstream :: "proxy \<Rightarrow> string \<Rightarrow> boxed_error + string \<times> upstream" where
  "select_upstream proxy name =
     (case hm_get (p_upstream proxy) name of
        Some u \<Rightarrow> Inr (name, u)
      | None \<Rightarrow>
          (case hm_get (p_upstream proxy) (p_default_action proxy) of
             Some u \<Rightarrow> Inr (p_default_action proxy, u)
           | None \<Rightarrow> Inl (Boxed_Msg (''default upstream '' @ [CHR 0x27] @ p_default_action proxy @
                [CHR 0x27] @ '' not found on server '' @ [CHR 0x27] @ p_name proxy @ [CHR 0x27]))))"

text \<open>What the peeked names lead to: the upstream, the \<open>via\<close> in force and the CONNECT target.\<close>

definition accept_plan ::
  "proxy \<Rightarrow> string list \<Rightarrow> boxed_error + (string \<times> upstream) \<times> via_upstream \<times> string option" where
  "accept_plan proxy snis =
     (let (name, via_override) = route proxy snis;
          effective_via = (case via_override of Some v \<Rightarrow> v | None \<Rightarrow> p_via proxy)
      in case select_upstream proxy name of
           Inl e \<Rightarrow> Inl e
         | Inr u \<Rightarrow> Inr (u, effective_via, connect_target_of effective_via snis))"

text \<open>The result of \<open>process\<close> is logged and then dropped.\<close>

definition accept :: "'hdr tls_parser \<Rightarrow> proxy \<Rightarrow> conn_env \<Rightarrow> (action, unit) io \<times> upstream_map" where
  "accept tp proxy env =
     (case io_bind (accept_log proxy env) (\<lambda>_. accept_snis tp proxy env) of
        (Fail e, t) \<Rightarrow> ((Fail e, t), p_upstream proxy)
      | (Pending, t) \<Rightarrow> ((Pending, t), p_upstream proxy)
      | (Ret snis, t) \<Rightarrow>
          (case accept_plan proxy snis of
             Inl e \<Rightarrow> ((Fail e, t), p_upstream proxy)
           | Inr ((name, upstream), via, connect_target) \<Rightarrow>
               (let ((result, t'), upstream') = process upstream via connect_target env in
                ((case result of Pending \<Rightarrow> Pending | _ \<Rightarrow> Ret (), t @ t'),
                 hm_insert name upstream' (p_upstream proxy)))))"

section \<open>The branches of accept\<close>

lemma accept_log_cases: "accept_log proxy env = io_ret () \<or>
    (\<exists>e. accept_log proxy env = io_fail (Boxed_Io e) \<and> ce_peer_addr env = Inl e \<and>
       ce_info_enabled env \<and> \<not> is_health_server proxy)"
  by (cases "ce_peer_addr env") (simp_all add: accept_log_def)

lemma accept_snis_no_action [simp]: "snd (accept_snis tp proxy env) = []"
  by (simp add: accept_snis_def snd_io_bind split: option.split outcome.split)

lemma accept_eq:
  assumes "accept_log proxy env = io_ret ()" and "accept_snis tp proxy env = io_ret snis"
  shows "accept tp proxy env =
    (case accept_plan proxy snis of
       Inl e \<Rightarrow> (io_fail e, p_upstream proxy)
     | Inr ((name, upstream), via, connect_target) \<Rightarrow>
         ((case fst (fst (process upstream via connect_target env)) of Pending \<Rightarrow> Pending | _ \<Rightarrow> Ret (),
           snd (fst (process upstream via connect_target env))),
          hm_insert name (snd (process upstream via connect_target env)) (p_upstream proxy)))"
  using assms
  by (simp add: accept_def io_ret_def io_fail_def case_prod_unfold Let_def split: sum.split)

text \<open>\<open>accept\<close> acts only after its three stages have succeeded.\<close>

lemma accept_acts:
  assumes "a \<in> set (snd (fst (accept tp proxy env)))"
  shows "\<exists>snis name u via target. accept_log proxy env = io_ret () \<and>
    accept_snis tp proxy env = io_ret snis \<and> accept_plan proxy snis = Inr ((name, u), via, target) \<and>
    fst (fst (accept tp proxy env)) =
      (case fst (fst (process u via target env)) of Pending \<Rightarrow> Pending | _ \<Rightarrow> Ret ()) \<and>
    snd (fst (accept tp proxy env)) = snd (fst (process u via target env))"
proof -
  have "\<exists>snis. accept_log proxy env = io_ret () \<and> accept_snis tp proxy env = io_ret snis"
  proof (rule ccontr)
    assume "\<not> ?thesis"
    then have "snd (fst (accept tp proxy env)) = []"
      using accept_log_cases [of proxy env] accept_snis_no_action [of tp proxy env]
      by (cases "accept_snis tp proxy env"; cases "fst (accept_snis tp proxy env)")
        (auto simp: accept_def io_ret_def io_fail_def)
    with assms show False by simp
  qed
  then obtain snis where s: "accept_log proxy env = io_ret ()" "accept_snis tp proxy env = io_ret snis"
    by blast
  with assms show ?thesis
    by (cases "accept_plan proxy snis") (auto simp: accept_eq [OF s] split: prod.splits)
qed

lemma select_upstream_Inr:
  "select_upstream proxy name = Inr (k, u) \<Longrightarrow>
     hm_get (p_upstream proxy) k = Some u \<and> k \<in> {name, p_default_action proxy}"
  by (auto simp: select_upstream_def split: option.splits)

lemma accept_plan_Inr:
  "accept_plan proxy snis = Inr ((k, u), via, target) \<Longrightarrow>
     hm_get (p_upstream proxy) k = Some u \<and> k \<in> {fst (route proxy snis), p_default_action proxy} \<and>
     via = (case snd (route proxy snis) of Some v \<Rightarrow> v | None \<Rightarrow> p_via proxy) \<and>
     target = connect_target_of via snis"
  by (auto simp: accept_plan_def case_prod_unfold Let_def dest: select_upstream_Inr split: sum.splits)

lemma accept_plan_Inl:
  "(\<exists>e. accept_plan proxy snis = Inl e) \<longleftrightarrow>
     hm_get (p_upstream proxy) (fst (route proxy snis)) = None \<and>
     hm_get (p_upstream proxy) (p_default_action proxy) = None"
  by (auto simp: accept_plan_def select_upstream_def case_prod_unfold Let_def split: option.splits)

lemma match_sni_find:
  "match_sni m d snis =
     (case List.find (\<lambda>s. hm_get m s \<noteq> None) snis of
        None \<Rightarrow> (d, None)
      | Some s \<Rightarrow> (upstream_name (the (hm_get m s)), via_override (the (hm_get m s))))"
  by (induction m d snis rule: match_sni.induct) (auto split: option.splits)

lemma route_eq:
  "route proxy snis =
     (case p_sni proxy of
        None \<Rightarrow> (p_default_action proxy, None)
      | Some m \<Rightarrow> match_sni m (p_default_action proxy) snis)"
  by (simp add: route_def split: option.split)

lemma find_first: "(\<forall>x \<in> set xs. \<not> P x) \<Longrightarrow> P s \<Longrightarrow> List.find P (xs @ s # ys) = Some s"
  by (induction xs) auto

text \<open>The frame: only the address cache of the upstream that was used may change.\<close>

lemma hm_get_insert [simp]: "hm_get (hm_insert k v m) k' = (if k' = k then Some v else hm_get m k')"
  by (rule hm.get_ins)

lemma accept_upstreams:
  "snd (accept tp proxy env) = p_upstream proxy \<or>
   (\<exists>k u via target. hm_get (p_upstream proxy) k = Some u \<and>
      snd (accept tp proxy env) = hm_insert k (snd (process u via target env)) (p_upstream proxy))"
proof -
  obtain o1 t1 where io: "io_bind (accept_log proxy env) (\<lambda>_. accept_snis tp proxy env) = (o1, t1)"
    by (metis surj_pair)
  show ?thesis
  proof (cases o1)
    case (Ret snis)
    show ?thesis
    proof (cases "accept_plan proxy snis")
      case (Inr p)
      then obtain k u via target where p: "accept_plan proxy snis = Inr ((k, u), via, target)"
        by (cases p) auto
      with io Ret accept_plan_Inr [OF p] show ?thesis
        by (auto simp: accept_def case_prod_unfold Let_def)
    qed (use io Ret in \<open>simp add: accept_def\<close>)
  qed (use io in \<open>simp_all add: accept_def\<close>)
qed

lemma accept_frame:
  "map_option upstream_key (hm_get (snd (accept tp proxy env)) k) =
     map_option upstream_key (hm_get (p_upstream proxy) k)"
  using accept_upstreams [of tp proxy env] by auto

lemma hm_keys_insert_present:
  "hm_get m k \<noteq> None \<Longrightarrow> hm_keys (hm_insert k v m) = hm_keys m"
  by (induction m) (auto simp: hm_keys_def hm_insert_def)

lemma accept_keys: "hm_keys (snd (accept tp proxy env)) = hm_keys (p_upstream proxy)"
  using accept_upstreams [of tp proxy env] hm_keys_insert_present by (metis option.distinct(1))

definition upstreams_ok :: "upstream_map \<Rightarrow> bool" where
  "upstreams_ok m \<longleftrightarrow> (\<forall>u \<in> set (hm_values m). upstream_ok u)"

lemma upstreams_ok_get: "upstreams_ok m \<Longrightarrow> hm_get m k = Some u \<Longrightarrow> upstream_ok u"
  by (auto simp: upstreams_ok_def dest: hm_get_values)

lemma hm_values_insert: "set (hm_values (hm_insert k v m)) \<subseteq> insert v (set (hm_values m))"
  by (induction m) (auto simp: hm_values_def hm_insert_def)

lemma upstreams_ok_accept:
  "upstreams_ok (p_upstream proxy) \<Longrightarrow> upstreams_ok (snd (accept tp proxy env))"
  using accept_upstreams [of tp proxy env] hm_values_insert
  by (fastforce simp: upstreams_ok_def dest: hm_get_values intro: process_ok)

lemma process_peek [simp]: "process u via target (env\<lparr>ce_peek := x\<rparr>) = process u via target env"
proof (cases env)
  case (fields a b c d e f g h i j k l m n)
  show ?thesis
    unfolding fields conn_env.update_convs
    by (cases u)
      (simp_all only: process.simps proxy_proxy_def connect_upstream_def conn_env.select_convs)
qed

lemma length_peek_into [simp]: "length (peek_into d) = hello_buf_len"
  by (simp add: peek_into_def)

lemma peek_into_idem [simp]: "peek_into (peek_into d) = peek_into d"
  by (simp add: peek_into_def [of "peek_into d"])

lemma accept_snis_some:
  "p_tls proxy \<Longrightarrow> ce_peek env = Some (Inr d) \<Longrightarrow>
     accept_snis tp proxy env = io_ret (get_sni tp (peek_into d))"
  by (simp add: accept_snis_def)

lemma accept_fails:
  assumes "fst (fst (accept tp proxy env)) = Fail e"
  shows "snd (fst (accept tp proxy env)) = [] \<and> snd (accept tp proxy env) = p_upstream proxy \<and>
    ((\<exists>io. ce_info_enabled env \<and> ce_peer_addr env = Inl io \<and> e = Boxed_Io io) \<or>
     (\<exists>io. p_tls proxy \<and> ce_peek env = Some (Inl io) \<and> e = Boxed_Io io) \<or>
     hm_get (p_upstream proxy) (p_default_action proxy) = None)"
proof (cases "accept_log proxy env = io_ret ()")
  case False
  with accept_log_cases [of proxy env] assms show ?thesis
    by (auto simp: accept_def io_fail_def)
next
  case True
  show ?thesis
  proof (cases "fst (accept_snis tp proxy env)")
    case (Ret snis)
    then have s: "accept_snis tp proxy env = io_ret snis"
      by (simp add: prod_eq_iff)
    show ?thesis
      using assms accept_plan_Inl [of proxy snis]
      by (auto simp: accept_eq [OF True s] split: sum.splits outcome.splits)
  next
    case (Fail e')
    then have "accept tp proxy env = ((Fail e', []), p_upstream proxy)"
      using True accept_snis_no_action [of tp proxy env]
      by (cases "accept_snis tp proxy env") (auto simp: accept_def)
    moreover have "\<exists>io. p_tls proxy \<and> ce_peek env = Some (Inl io) \<and> e' = Boxed_Io io"
      using Fail by (auto simp: accept_snis_def io_try_def fst_io_bind
          split: if_splits option.splits sum.splits)
    ultimately show ?thesis using assms by auto
  qed (use assms True in \<open>auto simp: accept_def split: prod.splits\<close>)
qed

section \<open>Upstreams never change their kind\<close>

definition same_upstreams :: "upstream_map \<Rightarrow> upstream_map \<Rightarrow> bool" where
  "same_upstreams m m' \<longleftrightarrow> hm_keys m = hm_keys m' \<and>
     (\<forall>k. map_option upstream_key (hm_get m k) = map_option upstream_key (hm_get m' k))"

lemma same_upstreams_refl [simp]: "same_upstreams m m"
  by (simp add: same_upstreams_def)

lemma same_upstreams_trans: "same_upstreams m m' \<Longrightarrow> same_upstreams m' m'' \<Longrightarrow> same_upstreams m m''"
  by (simp add: same_upstreams_def)

lemma same_upstreams_accept: "same_upstreams (snd (accept tp p env)) (p_upstream p)"
  by (simp add: same_upstreams_def accept_keys accept_frame)

lemma upstream_key_Health: "upstream_key u = Health m \<longleftrightarrow> u = Health m"
  by (cases u) simp_all

lemma same_upstreams_Health:
  assumes "same_upstreams m m'"
  shows "hm_get m k = Some (Health me) \<longleftrightarrow> hm_get m' k = Some (Health me)"
proof -
  have "map_option upstream_key (hm_get m k) = map_option upstream_key (hm_get m' k)"
    using assms by (simp add: same_upstreams_def)
  then show ?thesis
    by (cases "hm_get m k"; cases "hm_get m' k") (auto simp: upstream_key_Health, metis upstream_key_Health)
qed

lemma is_health_server_iff:
  "is_health_server p \<longleftrightarrow> (\<exists>me. hm_get (p_upstream p) (p_default_action p) = Some (Health me))"
  by (simp add: is_health_server_def split: option.split upstream.split)

lemma is_health_same:
  "same_upstreams m (p_upstream p) \<Longrightarrow> is_health_server (p\<lparr>p_upstream := m\<rparr>) = is_health_server p"
  by (simp add: is_health_server_iff same_upstreams_Health)

section \<open>Properties\<close>

text \<open>
  C11. A TLS connection is handled as the first of its server names that the SNI map has an entry
  for says: by that entry's upstream, with the entry's \<open>via\<close> if it has one and the server's
  otherwise; earlier names that are not in the map are passed over. The outcome of the upstream
  does not become an error of \<open>accept\<close>.
\<close>

theorem accept_routes_by_first_configured_name:
  assumes "accept_log proxy env = io_ret ()" and "p_tls proxy" and "ce_peek env = Some (Inr d)"
    and "p_sni proxy = Some m" and "get_sni tp (peek_into d) = xs @ s # ys"
    and "\<forall>x \<in> set xs. hm_get m x = None" and "hm_get m s = Some target"
    and "hm_get (p_upstream proxy) (upstream_name target) = Some u"
    and "via = (case via_override target of Some v \<Rightarrow> v | None \<Rightarrow> p_via proxy)"
  shows "snd (fst (accept tp proxy env)) =
      snd (fst (process u via (connect_target_of via (xs @ s # ys)) env)) \<and>
    fst (fst (accept tp proxy env)) \<in> {Ret (), Pending} \<and>
    snd (accept tp proxy env) = hm_insert (upstream_name target)
      (snd (process u via (connect_target_of via (xs @ s # ys)) env)) (p_upstream proxy)"
proof -
  have "List.find (\<lambda>s. hm_get m s \<noteq> None) (xs @ s # ys) = Some s"
    using assms(6,7) by (intro find_first) auto
  then have "route proxy (xs @ s # ys) = (upstream_name target, via_override target)"
    using assms(4,7) by (simp add: route_eq match_sni_find)
  then have "accept_plan proxy (xs @ s # ys) =
      Inr ((upstream_name target, u), via, connect_target_of via (xs @ s # ys))"
    using assms(8,9) by (simp add: accept_plan_def select_upstream_def Let_def)
  then show ?thesis
    using accept_eq [OF assms(1) accept_snis_some [OF assms(2,3)], of tp] assms(5)
    by (simp split: outcome.split)
qed

text \<open>
  \<open>accept\<close> itself fails only before it has done anything: because the peer address cannot be
  logged, because the peek fails, or because neither the routed upstream nor the server's default
  exists.
\<close>

lemma accept_fails_only_before_acting:
  assumes "fst (fst (accept tp proxy env)) = Fail e"
  shows "snd (fst (accept tp proxy env)) = [] \<and> snd (accept tp proxy env) = p_upstream proxy \<and>
    ((\<exists>io. ce_info_enabled env \<and> ce_peer_addr env = Inl io \<and> e = Boxed_Io io) \<or>
     (\<exists>io. p_tls proxy \<and> ce_peek env = Some (Inl io) \<and> e = Boxed_Io io) \<or>
     hm_get (p_upstream proxy) (p_default_action proxy) = None)"
  using assms by (rule accept_fails)

text \<open>
  The CONNECT target does not follow the routing: when the first server name is not in the
  SNI map and the second is, with a \<open>via\<close> that derives the target from the SNI, the connection
  goes to the second name's upstream, with the second name's \<open>via\<close>, but asks that proxy for a
  tunnel to the first name.
\<close>

lemma connect_target_ignores_the_matched_name:
  assumes "p_sni proxy = Some m" and "hm_get m a = None"
    and "hm_get m b = Some (Extended u (Some via))" and "via_use_sni_as_target via"
    and "hm_get (p_upstream proxy) u = Some up"
  shows "accept_plan proxy (a # b # snis) =
    Inr ((u, up), via, Some (a @ '':'' @ show_nat (unat (via_target_port via))))"
  using assms by (simp add: accept_plan_def route_eq select_upstream_def connect_target_of_def)

text \<open>
  A client that sends no server name is never tunnelled through CONNECT where the target is to
  be taken from the SNI: its bytes are forwarded to the upstream proxy as they are, even if a
  static target is configured; nothing is written on the proxy's own account.
\<close>

lemma no_server_name_no_connect:
  assumes "accept_log proxy env = io_ret ()" and "accept_snis tp proxy env = io_ret []"
    and "via_use_sni_as_target (p_via proxy)"
    and "hm_get (p_upstream proxy) (p_default_action proxy) = Some (Proxy pu)"
  shows "snd (fst (accept tp proxy env)) = proxied pu (p_via proxy) None env \<and>
    up_written (snd (fst (accept tp proxy env))) = [] \<and>
    prefix (wire_up (snd (fst (accept tp proxy env)))) (read_bytes (lefts (ce_relay env)))"
proof -
  have "accept_plan proxy [] = Inr ((p_default_action proxy, Proxy pu), p_via proxy, None)"
    using assms(3,4)
    by (simp add: accept_plan_def route_def select_upstream_def connect_target_of_def)
  then have "snd (fst (accept tp proxy env)) = proxied pu (p_via proxy) None env"
    by (simp add: accept_eq [OF assms(1,2)])
  with direct_stages [of pu "p_via proxy" env] show ?thesis by simp
qed

text \<open>
  How many bytes the peek returned is not looked at: the parser is always given 4096 bytes,
  so a ClientHello of which only a part has arrived is handled like one whose missing bytes are
  zero, and one that is longer is cut.
\<close>

lemma partial_hello_is_zero_padded:
  "accept tp proxy (env\<lparr>ce_peek := Some (Inr d)\<rparr>) =
   accept tp proxy (env\<lparr>ce_peek := Some (Inr (take 4096 d @ replicate (4096 - length d) (CHR 0x00)))\<rparr>)"
proof -
  have "take 4096 d @ replicate (4096 - length d) (CHR 0x00) = peek_into d"
    by (simp add: peek_into_def hello_buf_len_def)
  moreover have "accept_snis tp proxy (env\<lparr>ce_peek := Some (Inr d)\<rparr>) =
      accept_snis tp proxy (env\<lparr>ce_peek := Some (Inr (peek_into d))\<rparr>)"
    by (simp add: accept_snis_def)
  moreover have "accept_log proxy (env\<lparr>ce_peek := x\<rparr>) = accept_log proxy env" for x
    by (simp add: accept_log_def)
  ultimately show ?thesis unfolding accept_def process_peek by (simp only:)
qed

text \<open>
  A ClientHello record that does not fit 4096 bytes has no server name as far as routing goes:
  with a parser that rejects incomplete records, as the library documents, the connection is
  handled by the server's default upstream, whatever names it carries.
\<close>

lemma long_hello_goes_to_default:
  assumes "rejects_incomplete tp" and "accept_log proxy env = io_ret ()" and "p_tls proxy"
    and "ce_peek env = Some (Inr d)" and "hello_buf_len \<le> length d"
    and "hello_buf_len < 5 + announced_len d"
    and "hm_get (p_upstream proxy) (p_default_action proxy) = Some u"
  shows "snd (fst (accept tp proxy env)) =
    snd (fst (process u (p_via proxy) (connect_target_of (p_via proxy) []) env))"
proof -
  have "announced_len (peek_into d) = announced_len d"
    using assms(5) by (simp add: announced_len_def peek_into_def hello_buf_len_def nth_append)
  then have "\<not> complete_record (peek_into d)" using assms(6) by (simp add: complete_record_def)
  then have "get_sni tp (peek_into d) = []" by (rule incomplete_no_sni [OF assms(1)])
  moreover have "accept_plan proxy [] =
      Inr ((p_default_action proxy, u), p_via proxy, connect_target_of (p_via proxy) [])"
    using assms(7) by (simp add: accept_plan_def route_def select_upstream_def Let_def)
  ultimately show ?thesis
    using accept_eq [OF assms(2) accept_snis_some [OF assms(3,4)], of tp] by simp
qed

text \<open>The \<open>via\<close> in force is the server's, or the override of one of its SNI entries.\<close>

lemma route_override:
  "snd (route proxy snis) = Some via \<Longrightarrow>
     \<exists>m k target. p_sni proxy = Some m \<and> hm_get m k = Some target \<and> via_override target = Some via"
  by (simp add: route_eq match_sni_find find_Some_iff split: option.splits) fastforce

text \<open>
  A server that has no \<open>via\<close> block gives every connection attempt a timeout of zero, except where the
  SNI entry that a client was matched with brings a \<open>via\<close> of its own.
\<close>

lemma server_without_via_timeouts:
  assumes "rs_via r = None"
    and "p_via proxy = sc_via (server_of_raw r)" and "p_sni proxy = sc_sni (server_of_raw r)"
    and "upstreams_ok (p_upstream proxy)"
    and "Connect as d \<in> set (snd (fst (accept tp proxy env)))"
  shows "d = 0 \<or> (\<exists>m k name v. rs_sni r = Some m \<and> (k, Raw_Extended name (Some v)) \<in> set m \<and>
    d = via_connect_timeout (via_of_raw v))"
proof -
  from accept_acts [OF assms(5)] obtain snis name u via target
    where plan: "accept_plan proxy snis = Inr ((name, u), via, target)"
      and t: "snd (fst (accept tp proxy env)) = snd (fst (process u via target env))" by blast
  have "upstream_ok u"
    using accept_plan_Inr [OF plan] upstreams_ok_get [OF assms(4)] by blast
  then have d: "d = via_connect_timeout via"
    using process_Connect [of u as d via target env] assms(5) t by auto
  show ?thesis
  proof (cases "snd (route proxy snis)")
    case None
    then have "via = via_default"
      using accept_plan_Inr [OF plan] assms(1,2) by (simp add: server_of_raw_def)
    with d show ?thesis by (simp add: via_default_def)
  next
    case (Some v)
    then obtain m k tg where m: "p_sni proxy = Some m" "hm_get m k = Some tg" "via_override tg = Some v"
      using route_override by blast
    obtain rm where rm: "rs_sni r = Some rm"
      using m(1) assms(3) by (cases "rs_sni r") (auto simp: server_of_raw_def)
    then have "map_option sni_target_of_raw (hm_get rm k) = Some tg"
      using sni_lookup_of_raw [of k r] m(1,2) assms(3) by simp
    then obtain rt where rt: "hm_get rm k = Some rt" "tg = sni_target_of_raw rt" by blast
    with m(3) obtain name rv where "rt = Raw_Extended name (Some rv)" "v = via_of_raw rv"
      by (cases rt) auto
    moreover have "via = v" using accept_plan_Inr [OF plan] Some by simp
    ultimately show ?thesis using rm hm_get_in_set [OF rt(1)] d by blast
  qed
qed

text \<open>
  C39. What the upstream proxy is sent can be chosen by the client: with a \<open>via\<close> that takes the target from
  the SNI, once the tunnel is established and a byte has been relayed, and unless the socket accepted
  a write with zero bytes, a first server name that carries a header line of the client's choice
  behind a line break has put it behind the request line, in front of the configured headers.
\<close>

theorem client_server_name_injects_headers:
  assumes "accept_log proxy env = io_ret ()"
    and "accept_snis tp proxy env = io_ret ((host @ '' HTTP/1.1'' @ crlf @ header_line (n, v) @ junk) # snis)"
    and "accept_plan proxy ((host @ '' HTTP/1.1'' @ crlf @ header_line (n, v) @ junk) # snis) =
      Inr ((k, Proxy pu), via, target)"
    and "via_use_sni_as_target via" and "Try_Write 0 \<notin> set (ce_writes env)"
    and "To_Upstream b \<in> set (snd (fst (accept tp proxy env)))"
  shows "prefix (''CONNECT '' @ host @ '' HTTP/1.1'' @ crlf @ n @ '': '' @ v @ crlf @ junk)
    (wire_up (snd (fst (accept tp proxy env))))"
proof -
  obtain port where tg: "target = Some (host @ '' HTTP/1.1'' @ crlf @ header_line (n, v) @ junk @ port)"
    using accept_plan_Inr [OF assms(3)] assms(4) by (simp add: connect_target_of_def)
  have t: "snd (fst (accept tp proxy env)) = proxied pu via target env"
    using accept_eq [OF assms(1,2)] assms(3) by simp
  from assms(6) have "To_Upstream b \<in> set (proxied pu via target env)" by (simp only: t)
  then have "To_Upstream b \<in> set (proxied pu via
      (Some (host @ '' HTTP/1.1'' @ crlf @ header_line (n, v) @ junk @ port)) env)"
    by (simp only: tg)
  from tunnel_stages [OF this] assms(5) obtain rs u where "wire_up (proxied pu via target env) =
      request_text (host @ '' HTTP/1.1'' @ crlf @ header_line (n, v) @ junk @ port) rs @ u"
    unfolding tg by auto
  then show ?thesis by (simp only: t) (simp add: prefix_def request_text_def)
qed

text \<open>
  An accepted connection changes nothing of the shared upstream map but the address cache of
  the one upstream that processes it: the same names map to upstreams of the same kind, address
  and protocol, and addresses of the wrong family never enter a cache.
\<close>

lemma accept_preserves_upstream_map:
  assumes "upstreams_ok (p_upstream proxy)"
  shows "upstreams_ok (snd (accept tp proxy env)) \<and>
    hm_keys (snd (accept tp proxy env)) = hm_keys (p_upstream proxy) \<and>
    map_option upstream_key (hm_get (snd (accept tp proxy env)) k) =
      map_option upstream_key (hm_get (p_upstream proxy) k)"
  using assms upstreams_ok_accept accept_keys accept_frame by blast

section \<open>Witnesses\<close>

definition hello_ok :: bytes where
  "hello_ok = [CHR 0x16, CHR 0x03, CHR 0x01, CHR 0x00, CHR 0x00]"

definition env_hello :: "bytes \<Rightarrow> conn_env" where
  "env_hello d = (env_up [Try_Read ok_response])\<lparr>ce_peek := Some (Inr d)\<rparr>"

definition proxy_ex :: "(string, sni_target) hash_map \<Rightarrow> via_upstream \<Rightarrow> proxy" where
  "proxy_ex sni via = \<lparr>p_name = ''web'', p_listen = up4, p_protocol = ''tcp'', p_tls = True,
     p_sni = Some sni, p_default_action = ''corp'',
     p_upstream = [(''ban'', Ban), (''corp'', Proxy upstream_h80)],
     p_via = via, p_maxclients = 0, p_maxclients_limit = 100\<rparr>"

definition via_sni :: via_upstream where
  "via_sni = via_pw\<lparr>via_use_sni_as_target := True\<rparr>"

lemma hello_ok_complete: "complete_record (peek_into hello_ok)"
  by (simp add: complete_record_def announced_len_def peek_into_def hello_buf_len_def hello_ok_def
      byte_def)

lemma hello_ok_sni: "get_sni (sni_parser names) (peek_into hello_ok) = filter utf8_valid names"
  by (simp add: sni_parser_get_sni hello_ok_complete)

lemma valid_names: "utf8_valid ''a''" "utf8_valid ''b''"
  by (simp_all add: utf8_valid_ascii ascii_def byte_def)

lemma accept_log_ex [simp]: "accept_log (proxy_ex sni via) (env_hello d) = io_ret ()"
  by (simp add: accept_log_def env_hello_def env_up_def)

lemma accept_snis_ex [simp]:
  "accept_snis tp (proxy_ex sni via) (env_hello d) = io_ret (get_sni tp (peek_into d))"
  by (simp add: accept_snis_def env_hello_def proxy_ex_def)

theorem accept_routes_by_first_configured_name_witness:
  "snd (fst (accept (sni_parser [''a'', ''b'']) (proxy_ex [(''b'', Simple ''ban'')] via_pw) (env_hello hello_ok)))
     = [Shutdown_Client]"
proof -
  have "snd (fst (process Ban via_pw (connect_target_of via_pw ([''a''] @ ''b'' # [])) (env_hello hello_ok)))
      = [Shutdown_Client]"
    by (simp add: env_hello_def env_up_def)
  with accept_routes_by_first_configured_name [of "proxy_ex [(''b'', Simple ''ban'')] via_pw"
      "env_hello hello_ok" hello_ok "[(''b'', Simple ''ban'')]" "sni_parser [''a'', ''b'']"
      "[''a'']" "''b''" "[]" "Simple ''ban''" Ban via_pw]
  show ?thesis
    by (simp add: hello_ok_sni valid_names) (simp add: proxy_ex_def env_hello_def)
qed

definition proxy_no_via :: proxy where
  "proxy_no_via = (proxy_ex [] via_pw)\<lparr>p_via := sc_via (server_of_raw (raw_server_plain None)),
     p_sni := sc_sni (server_of_raw (raw_server_plain None))\<rparr>"

definition evil_name :: string where
  "evil_name = ''a:1'' @ '' HTTP/1.1'' @ crlf @ header_line (''X'', ''1'') @ ''Y''"

lemma proxied_after_handshake:
  "fst (connect_upstream (pu_addresses pu) (pu_protocol pu) (via_connect_timeout via) env) = (Ret (), t) \<Longrightarrow>
   ce_nodelay_outbound env = Inr () \<Longrightarrow> ce_nodelay_inbound env = Inr () \<Longrightarrow>
   fst (handshake via target env) = Ret () \<Longrightarrow>
     proxied pu via (Some target) env =
       t @ snd (handshake via target env) @ snd (relay (via_stats_interval via) (ce_relay env))"
  by (simp add: process_Proxy proxy_proxy_def handshake_def case_prod_unfold Let_def snd_io_bind
      split: outcome.split)

lemma evil_handshake:
  "fst (http_connect no_table env_pw (evil_name @ '':443'') [] [Try_Write 1000] [Try_Read ok_response]) = Ret ()"
proof -
  let ?req = "''CONNECT '' @ (evil_name @ '':443'') @ '' HTTP/1.1'' @ crlf @ crlf"
  have req: "connect_request no_table env_pw (evil_name @ '':443'') [] = Inr ?req"
    by (simp add: connect_request_eq)
  have "fst (write_loop ?req 0 [Try_Write 1000]) = Ret ()"
    by (simp add: evil_name_def Let_def)
  then show ?thesis
    by (simp add: http_connect_unfold [OF req] fst_io_bind ok_response_read check_status_Ret
        del: read_loop.simps write_loop.simps)
qed

theorem client_server_name_injects_headers_witness:
  "prefix (''CONNECT '' @ ''a:1'' @ '' HTTP/1.1'' @ crlf @ ''X'' @ '': '' @ ''1'' @ crlf @ ''Y'')
     (wire_up (snd (fst (accept (sni_parser [evil_name]) (proxy_ex [] (via_sni\<lparr>via_headers := []\<rparr>))
        ((env_hello hello_ok)\<lparr>ce_writes := [Try_Write 1000]\<rparr>)))))"
proof -
  let ?p = "proxy_ex [] (via_sni\<lparr>via_headers := []\<rparr>)"
  let ?e = "(env_hello hello_ok)\<lparr>ce_writes := [Try_Write 1000]\<rparr>"
  have "utf8_valid evil_name" by (simp add: utf8_valid_ascii ascii_def byte_def evil_name_def)
  then have snis: "accept_snis (sni_parser [evil_name]) ?p ?e = io_ret [evil_name]"
    by (simp add: accept_snis_def env_hello_def hello_ok_sni proxy_ex_def)
  have log: "accept_log ?p ?e = io_ret ()"
    by (simp add: accept_log_def env_hello_def env_up_def)
  have plan: "accept_plan ?p [evil_name] =
      Inr ((''corp'', Proxy upstream_h80), via_sni\<lparr>via_headers := []\<rparr>, Some (evil_name @ '':443''))"
    by (simp add: accept_plan_def route_def select_upstream_def connect_target_of_def proxy_ex_def
        via_sni_def via_pw_def show_nat.simps)
  have "fst (handshake (via_sni\<lparr>via_headers := []\<rparr>) (evil_name @ '':443'') ?e) = Ret ()"
    using evil_handshake by (simp add: handshake_def env_hello_def env_up_def)
  moreover have "fst (connect_upstream (pu_addresses upstream_h80) (pu_protocol upstream_h80) (from_secs 5) ?e) =
      (Ret (), [Lookup ''h:80'', Connect [up4] (from_secs 5)])"
    by (simp add: upstream_h80_def proxy_to_upstream_new_def connect_upstream_def env_hello_def
        env_up_def dns_example_defs)
  ultimately have "To_Upstream ''ping'' \<in> set (proxied upstream_h80 (via_sni\<lparr>via_headers := []\<rparr>)
      (Some (evil_name @ '':443'')) ?e)"
    using relay_ping
    by (subst proxied_after_handshake) (simp_all add: via_sni_def via_pw_def env_hello_def env_up_def)
  then have "To_Upstream ''ping'' \<in> set (snd (fst (accept (sni_parser [evil_name]) ?p ?e)))"
    using accept_eq [OF log snis] plan by simp
  from client_server_name_injects_headers [OF log _ _ _ _ this, of "''a:1''" "''X''" "''1''" "''Y''" "[]"]
  show ?thesis
    using snis plan unfolding evil_name_def by (simp add: via_sni_def)
qed

end
