(* ===== verification/Server_Builder.thy ===== *)
theory Server_Builder
  imports Config_Loader Socket_Addr Tcp_Accept
begin

text \<open>
  \<open>src/servers/builder.rs\<close>: from a verified configuration to the list of proxies.

  The three passes of \<open>From<ParsedConfig> for Server\<close> are one definition each. Every \<open>Arc\<close> to a
  semaphore is a reference into \<open>sv_semaphores\<close>, and the shared upstream map is a field of each
  proxy, equal in all of them. The function is partial: \<open>Semaphore::new\<close> panics on a limit above
  its maximum, which is \<open>None\<close>. The lemmas show which proxies there are, that no semaphore is
  shared by two of them, that the metrics describe exactly these proxies, which listen strings open
  a listener and how its address is labelled, that routing a connection of a verified configuration
  cannot fail, and that the warnings of the loader name what no connection can be routed to.
\<close>

section \<open>Building the server\<close>

record 's server =
  sv_proxies :: "proxy list"
  sv_semaphores :: "'s list"

text \<open>Pass 1, for the listen addresses of one server; the map is a placeholder.\<close>

fun build_listen ::
  "'s sem_ops \<Rightarrow> string \<Rightarrow> server_config \<Rightarrow> string list \<Rightarrow>
     proxy list \<times> 's list \<Rightarrow> (proxy list \<times> 's list) option" where
  "build_listen S name cfg [] acc = Some acc"
| "build_listen S name cfg (listen # ls) (ps, sems) =
     (case parse_socket_addr listen of
        None \<Rightarrow> build_listen S name cfg ls (ps, sems)
      | Some listen_addr \<Rightarrow>
          (case sem_new S (sc_maxclients cfg) of
             None \<Rightarrow> None
           | Some s \<Rightarrow>
               build_listen S name cfg ls
                 (ps @ [\<lparr>p_name = name, p_listen = listen_addr,
                    p_protocol = or_else (sc_protocol cfg) ''tcp'',
                    p_tls = or_else (sc_tls cfg) False, p_sni = sc_sni cfg,
                    p_default_action = or_else (sc_default cfg) ''ban'',
                    p_upstream = [], p_via = sc_via cfg,
                    p_maxclients = length sems, p_maxclients_limit = sc_maxclients cfg\<rparr>],
                  sems @ [s])))"

fun build_servers ::
  "'s sem_ops \<Rightarrow> (string \<times> server_config) list \<Rightarrow>
     proxy list \<times> 's list \<Rightarrow> (proxy list \<times> 's list) option" where
  "build_servers S [] acc = Some acc"
| "build_servers S ((name, cfg) # servers) acc =
     (case build_listen S name cfg (sc_listen cfg) acc of
        None \<Rightarrow> None
      | Some acc' \<Rightarrow> build_servers S servers acc')"

text \<open>Pass 2.\<close>

definition build_metrics :: "proxy list \<Rightarrow> metrics" where
  "build_metrics raw_proxies =
     map (\<lambda>p. \<lparr>me_name = p_name p, me_listen = display_socket_addr (p_listen p),
       me_maxclients_limit = p_maxclients_limit p, me_semaphore = p_maxclients p\<rparr>) raw_proxies"

text \<open>Pass 3.\<close>

definition inject_metrics :: "metrics \<Rightarrow> upstream \<Rightarrow> upstream" where
  "inject_metrics metrics v = (case v of Health m \<Rightarrow> Health metrics | _ \<Rightarrow> v)"

definition build_upstream ::
  "metrics \<Rightarrow> (string, upstream) hash_map \<Rightarrow> upstream_map" where
  "build_upstream metrics upstream = map (\<lambda>(k, v). (k, inject_metrics metrics v)) upstream"

definition server_from :: "'s sem_ops \<Rightarrow> parsed_config \<Rightarrow> 's server option" where
  "server_from S config =
     (case build_servers S (pc_servers config) ([], []) of
        None \<Rightarrow> None
      | Some (raw_proxies, sems) \<Rightarrow>
          (let metrics = build_metrics raw_proxies;
               upstream = build_upstream metrics (pc_upstream config)
           in Some \<lparr>sv_proxies = map (\<lambda>p. p\<lparr>p_upstream := upstream\<rparr>) raw_proxies,
                sv_semaphores = sems\<rparr>))"

section \<open>Pass 1\<close>

text \<open>The listeners of a configuration in order: server, and address that parses.\<close>

definition server_listeners ::
  "string \<Rightarrow> server_config \<Rightarrow> string list \<Rightarrow> (string \<times> server_config \<times> sock_addr) list" where
  "server_listeners name cfg ls = map (\<lambda>a. (name, cfg, a)) (List.map_filter (parse_socket_addr) ls)"

definition listeners ::
  "(string \<times> server_config) list \<Rightarrow> (string \<times> server_config \<times> sock_addr) list" where
  "listeners servers =
     concat (map (\<lambda>(name, cfg). server_listeners name cfg (sc_listen cfg)) servers)"

definition proxy_of :: "upstream_map \<Rightarrow> nat \<Rightarrow> string \<times> server_config \<times> sock_addr \<Rightarrow> proxy" where
  "proxy_of upstream ref = (\<lambda>(name, cfg, a).
     \<lparr>p_name = name, p_listen = a, p_protocol = or_else (sc_protocol cfg) ''tcp'',
      p_tls = or_else (sc_tls cfg) False, p_sni = sc_sni cfg,
      p_default_action = or_else (sc_default cfg) ''ban'',
      p_upstream = upstream, p_via = sc_via cfg,
      p_maxclients = ref, p_maxclients_limit = sc_maxclients cfg\<rparr>)"

definition proxies_of ::
  "upstream_map \<Rightarrow> nat \<Rightarrow> (string \<times> server_config \<times> sock_addr) list \<Rightarrow> proxy list" where
  "proxies_of upstream n ls = map (\<lambda>(i, l). proxy_of upstream i l) (zip [n..<n + length ls] ls)"

lemma proxies_of_simps [simp]:
  "proxies_of upstream n [] = []"
  "proxies_of upstream n (l # ls) = proxy_of upstream n l # proxies_of upstream (Suc n) ls"
  by (simp_all add: proxies_of_def upt_conv_Cons del: upt_Suc)

lemma proxies_of_append:
  "proxies_of upstream n (ls @ ls') = proxies_of upstream n ls @ proxies_of upstream (n + length ls) ls'"
  by (induction ls arbitrary: n) simp_all

lemma length_proxies_of [simp]: "length (proxies_of upstream n ls) = length ls"
  by (simp add: proxies_of_def)

lemma proxies_of_nth:
  "i < length ls \<Longrightarrow> proxies_of upstream n ls ! i = proxy_of upstream (n + i) (ls ! i)"
  by (simp add: proxies_of_def)

lemma proxies_of_upstream:
  "map (\<lambda>p. p\<lparr>p_upstream := u\<rparr>) (proxies_of upstream n ls) = proxies_of u n ls"
  by (induction ls arbitrary: n) (auto simp: proxy_of_def)

lemma server_listeners_simps [simp]:
  "server_listeners name cfg [] = []"
  "server_listeners name cfg (l # ls) =
     (case parse_socket_addr l of None \<Rightarrow> [] | Some a \<Rightarrow> [(name, cfg, a)]) @ server_listeners name cfg ls"
  by (auto simp: server_listeners_def List.map_filter_simps split: option.splits)

lemma listeners_simps [simp]:
  "listeners [] = []"
  "listeners ((name, cfg) # servers) =
     server_listeners name cfg (sc_listen cfg) @ listeners servers"
  by (simp_all add: listeners_def)

lemma set_listeners:
  "(name, cfg, a) \<in> set (listeners servers) \<longleftrightarrow>
     (name, cfg) \<in> set servers \<and> (\<exists>l \<in> set (sc_listen cfg). parse_socket_addr l = Some a)"
proof -
  have "x \<in> set (List.map_filter f ls) \<longleftrightarrow> (\<exists>l \<in> set ls. f l = Some x)" for x :: sock_addr and f and ls :: "string list"
    by (induction ls) (auto simp: List.map_filter_simps split: option.splits)
  then have "(name, cfg, a) \<in> set (server_listeners name' cfg' ls) \<longleftrightarrow>
      name' = name \<and> cfg' = cfg \<and> (\<exists>l \<in> set ls. parse_socket_addr l = Some a)" for name' cfg' ls
    by (auto simp: server_listeners_def intro!: image_eqI)
  then show ?thesis by (auto simp: listeners_def)
qed

text \<open>The limits of listeners, next to the semaphores made for them.\<close>

definition limited :: "'s sem_ops \<Rightarrow> (string \<times> server_config \<times> sock_addr) list \<Rightarrow> 's list \<Rightarrow> bool" where
  "limited S ls sems \<longleftrightarrow> list_all2 (\<lambda>(name, cfg, a) s. sem_available S s = sc_maxclients cfg) ls sems"

lemma limited_append:
  "limited S ls sems \<Longrightarrow> limited S ls' sems' \<Longrightarrow> limited S (ls @ ls') (sems @ sems')"
  by (simp add: limited_def list_all2_appendI)

lemma limited_length: "limited S ls sems \<Longrightarrow> length sems = length ls"
  by (auto simp: limited_def dest: list_all2_lengthD)

context semaphore
begin

lemma build_listen_Some:
  "build_listen S name cfg ls (ps, sems) = Some (ps', sems') \<Longrightarrow>
     ps' = ps @ proxies_of [] (length sems) (server_listeners name cfg ls) \<and>
     (\<exists>new. sems' = sems @ new \<and> limited S (server_listeners name cfg ls) new)"
proof (induction ls arbitrary: ps sems)
  case (Cons l ls)
  show ?case
  proof (cases "parse_socket_addr l")
    case None
    with Cons show ?thesis by simp
  next
    case (Some a)
    with Cons.prems obtain s where s: "sem_new S (sc_maxclients cfg) = Some s"
      by (cases "sem_new S (sc_maxclients cfg)") auto
    have one: "limited S [(name, cfg, a)] [s]"
      using new_available [OF s] by (simp add: limited_def)
    from Cons.IH [of "ps @ [_]" "sems @ [s]"] Cons.prems Some s
    obtain new where "ps' = ps @ proxies_of [] (length sems) (server_listeners name cfg (l # ls))"
      "sems' = (sems @ [s]) @ new" "limited S (server_listeners name cfg ls) new"
      by (auto simp: proxy_of_def)
    with limited_append [OF one] Some show ?thesis by (intro conjI exI [of _ "s # new"]) auto
  qed
qed (simp add: limited_def)

lemma build_listen_None:
  "build_listen S name cfg ls acc = None \<longleftrightarrow>
     server_listeners name cfg ls \<noteq> [] \<and> max_permits < sc_maxclients cfg"
proof (induction ls arbitrary: acc)
  case (Cons l ls)
  then show ?case
    using new_panics [of "sc_maxclients cfg"]
    by (cases acc; cases "parse_socket_addr l"; cases "sem_new S (sc_maxclients cfg)") auto
qed (cases acc; simp)

lemma build_servers_Some:
  "build_servers S servers (ps, sems) = Some (ps', sems') \<Longrightarrow>
     ps' = ps @ proxies_of [] (length sems) (listeners servers) \<and>
     (\<exists>new. sems' = sems @ new \<and> limited S (listeners servers) new)"
proof (induction servers arbitrary: ps sems)
  case (Cons server servers)
  obtain name cfg where server: "server = (name, cfg)" by (cases server)
  from Cons.prems obtain ps1 sems1
    where l: "build_listen S name cfg (sc_listen cfg) (ps, sems) = Some (ps1, sems1)"
      and s: "build_servers S servers (ps1, sems1) = Some (ps', sems')"
    by (auto simp: server split: option.splits)
  from build_listen_Some [OF l] obtain new where
    1: "ps1 = ps @ proxies_of [] (length sems) (server_listeners name cfg (sc_listen cfg))"
      "sems1 = sems @ new" "limited S (server_listeners name cfg (sc_listen cfg)) new" by blast
  from Cons.IH [OF s] obtain new' where
    2: "ps' = ps1 @ proxies_of [] (length sems1) (listeners servers)"
      "sems' = sems1 @ new'" "limited S (listeners servers) new'" by blast
  from limited_append [OF 1(3) 2(3)] limited_length [OF 1(3)] 1(1,2) 2(1,2) show ?case
    by (intro conjI exI [of _ "new @ new'"]) (simp_all add: server proxies_of_append)
qed (simp add: limited_def)

lemma build_servers_None:
  "build_servers S servers acc = None \<longleftrightarrow>
     (\<exists>(name, cfg, a) \<in> set (listeners servers). max_permits < sc_maxclients cfg)"
proof (induction servers arbitrary: acc)
  case (Cons server servers)
  obtain name cfg where server: "server = (name, cfg)" by (cases server)
  have "(\<exists>(n, c, a) \<in> set (server_listeners name cfg (sc_listen cfg)). max_permits < sc_maxclients c) \<longleftrightarrow>
      server_listeners name cfg (sc_listen cfg) \<noteq> [] \<and> max_permits < sc_maxclients cfg"
    by (cases "List.map_filter (parse_socket_addr) (sc_listen cfg)") (auto simp: server_listeners_def)
  with Cons show ?case
    by (cases "build_listen S name cfg (sc_listen cfg) acc")
      (use build_listen_None [of name cfg "sc_listen cfg" acc] in \<open>auto simp: server\<close>)
qed simp

text \<open>The server that is built.\<close>

lemma server_from_Some:
  assumes "server_from S pc = Some sv"
  shows "\<exists>metrics. metrics = build_metrics (sv_proxies sv) \<and>
    sv_proxies sv = proxies_of (build_upstream metrics (pc_upstream pc)) 0 (listeners (pc_servers pc)) \<and>
    limited S (listeners (pc_servers pc)) (sv_semaphores sv)"
proof -
  obtain ps sems where b: "build_servers S (pc_servers pc) ([], []) = Some (ps, sems)"
    and sv: "sv = \<lparr>sv_proxies = map (\<lambda>p. p\<lparr>p_upstream := build_upstream (build_metrics ps) (pc_upstream pc)\<rparr>) ps,
      sv_semaphores = sems\<rparr>"
    using assms by (auto simp: server_from_def Let_def split: option.splits)
  have m: "build_metrics (sv_proxies sv) = build_metrics ps"
    by (simp add: build_metrics_def sv)
  from build_servers_Some [OF b] sv show ?thesis unfolding m by (simp add: proxies_of_upstream)
qed

lemma server_from_None:
  "server_from S pc = None \<longleftrightarrow>
     (\<exists>(name, cfg, a) \<in> set (listeners (pc_servers pc)). max_permits < sc_maxclients cfg)"
  using build_servers_None [of "pc_servers pc" "([], [])"]
  by (auto simp: server_from_def Let_def split: option.splits)

end

lemma build_upstream_get:
  "hm_get (build_upstream metrics m) k = map_option (inject_metrics metrics) (hm_get m k)"
  by (simp add: build_upstream_def hm_get_map)

lemma proxies_of_refs: "map p_maxclients (proxies_of u n ls) = [n..<n + length ls]"
  by (induction ls arbitrary: n) (auto simp: proxy_of_def upt_conv_Cons simp del: upt_Suc)

lemma proxies_of_listeners:
  "map (\<lambda>p. (p_name p, p_listen p, p_maxclients_limit p)) (proxies_of u n ls) =
     map (\<lambda>(name, cfg, a). (name, a, sc_maxclients cfg)) ls"
  by (induction ls arbitrary: n) (auto simp: proxy_of_def)

lemma in_proxies_of:
  "p \<in> set (proxies_of u n ls) \<Longrightarrow> \<exists>l ref. l \<in> set ls \<and> p = proxy_of u ref l"
  by (auto simp: proxies_of_def dest: set_zip_rightD)

lemma limited_nth:
  "limited S ls sems \<Longrightarrow> i < length ls \<Longrightarrow>
     sem_available S (sems ! i) = sc_maxclients (fst (snd (ls ! i)))"
  by (cases "ls ! i") (auto simp: limited_def list_all2_conv_all_nth)

lemma limited_sum:
  "limited S ls sems \<Longrightarrow>
     sum_list (map (sem_available S) sems) = sum_list (map (\<lambda>(name, cfg, a). sc_maxclients cfg) ls)"
  unfolding limited_def by (induction rule: list_all2_induct) auto

definition parsed_addresses :: "server_config \<Rightarrow> string list" where
  "parsed_addresses cfg = filter (\<lambda>l. parse_socket_addr l \<noteq> None) (sc_listen cfg)"

lemma sum_server_listeners:
  "sum_list (map (\<lambda>(n, c, a). sc_maxclients c) (server_listeners name cfg ls)) =
     length (filter (\<lambda>l. parse_socket_addr l \<noteq> None) ls) * sc_maxclients cfg"
  by (induction ls) (auto split: option.splits)

lemma sum_listeners:
  "sum_list (map (\<lambda>(name, cfg, a). sc_maxclients cfg) (listeners servers)) =
     sum_list (map (\<lambda>(name, cfg). length (parsed_addresses cfg) * sc_maxclients cfg) servers)"
  by (induction servers) (auto simp: sum_server_listeners parsed_addresses_def)

lemma inject_metrics_ok [simp]: "upstream_ok (inject_metrics metrics v) = upstream_ok v"
  by (cases v) (simp_all add: inject_metrics_def)

section \<open>Properties\<close>

text \<open>
  C40. Building the server panics exactly when some listen address that parses belongs to a server
  whose \<open>maxclients\<close> is above the largest number of permits a semaphore can have, 2^61 - 1; an
  address that does not parse is skipped instead.
\<close>

theorem server_from_panics_iff:
  assumes "semaphore S"
  shows "(server_from S pc = None) =
    (\<exists>(name, cfg) \<in> set (pc_servers pc). 2 ^ 61 - 1 < sc_maxclients cfg \<and>
       (\<exists>l \<in> set (sc_listen cfg). parse_socket_addr l \<noteq> None))"
proof -
  have "server_from S pc = None \<longleftrightarrow>
      (\<exists>(name, cfg) \<in> set (pc_servers pc). max_permits < sc_maxclients cfg \<and>
         (\<exists>l \<in> set (sc_listen cfg). parse_socket_addr l \<noteq> None))"
    unfolding semaphore.server_from_None [OF assms] by (fastforce simp: set_listeners)
  then show ?thesis by (simp only: max_permits_def)
qed

text \<open>
  C27. There is one proxy for each listen address that parses, in the order of the configuration,
  and each has a semaphore of its own that starts with as many permits as its \<open>maxclients\<close>; the
  upstream map is the same for all of them, and every health upstream in it carries a metrics
  table with one entry for each proxy, in order, with that proxy's name, limit and semaphore.
\<close>

theorem one_proxy_and_semaphore_per_listener:
  assumes "semaphore S" and "server_from S pc = Some sv"
  shows "map (\<lambda>p. (p_name p, p_listen p, p_maxclients_limit p)) (sv_proxies sv) =
      map (\<lambda>(name, cfg, a). (name, a, sc_maxclients cfg)) (listeners (pc_servers pc)) \<and>
    map p_maxclients (sv_proxies sv) = [0..<length (sv_semaphores sv)] \<and>
    (\<forall>i < length (sv_semaphores sv). sem_available S (sv_semaphores sv ! i) =
       p_maxclients_limit (sv_proxies sv ! i)) \<and>
    (\<forall>p \<in> set (sv_proxies sv). \<forall>name m. hm_get (p_upstream p) name = Some (Health m) \<longrightarrow>
       map me_semaphore m = [0..<length (sv_semaphores sv)] \<and>
       map (\<lambda>e. (me_name e, me_maxclients_limit e)) m =
         map (\<lambda>p. (p_name p, p_maxclients_limit p)) (sv_proxies sv))"
proof -
  let ?ls = "listeners (pc_servers pc)"
  let ?u = "build_upstream (build_metrics (sv_proxies sv)) (pc_upstream pc)"
  from semaphore.server_from_Some [OF assms] have sv: "sv_proxies sv = proxies_of ?u 0 ?ls"
    and lim: "limited S ?ls (sv_semaphores sv)" by auto
  have len: "length (sv_semaphores sv) = length ?ls" by (rule limited_length [OF lim])
  have refs: "map p_maxclients (sv_proxies sv) = [0..<length (sv_semaphores sv)]"
    using proxies_of_refs [of ?u 0 ?ls] by (simp add: sv [symmetric] len)
  have "sem_available S (sv_semaphores sv ! i) = p_maxclients_limit (sv_proxies sv ! i)"
    if "i < length (sv_semaphores sv)" for i
    using that limited_nth [OF lim, of i] len arg_cong [where f = "\<lambda>ps. p_maxclients_limit (ps ! i)", OF sv]
    by (simp add: proxies_of_nth proxy_of_def split: prod.split)
  moreover have "map me_semaphore m = [0..<length (sv_semaphores sv)] \<and>
      map (\<lambda>e. (me_name e, me_maxclients_limit e)) m =
        map (\<lambda>p. (p_name p, p_maxclients_limit p)) (sv_proxies sv)"
    if "p \<in> set (sv_proxies sv)" and h: "hm_get (p_upstream p) name = Some (Health m)" for p name m
  proof -
    have "p_upstream p = ?u"
      using that(1) in_proxies_of [of p ?u 0 ?ls] arg_cong [where f = set, OF sv]
      by (auto simp: proxy_of_def split: prod.splits)
    with h obtain v where "inject_metrics (build_metrics (sv_proxies sv)) v = Health m"
      by (auto simp: build_upstream_get)
    then have "m = build_metrics (sv_proxies sv)"
      by (cases v) (simp_all add: inject_metrics_def)
    then show ?thesis using refs by (simp add: build_metrics_def comp_def)
  qed
  moreover have "map (\<lambda>p. (p_name p, p_listen p, p_maxclients_limit p)) (sv_proxies sv) =
      map (\<lambda>(name, cfg, a). (name, a, sc_maxclients cfg)) ?ls"
    using proxies_of_listeners [of ?u 0 ?ls] by (simp only: sv [symmetric])
  ultimately show ?thesis using refs by blast
qed

text \<open>
  \<open>maxclients\<close> limits a listen address, not a server: the number of connections a server
  admits in total is its \<open>maxclients\<close> times the number of its listen addresses.
\<close>

lemma maxclients_is_per_listen_address:
  assumes "semaphore S" and "server_from S pc = Some sv"
  shows "sum_list (map (sem_available S) (sv_semaphores sv)) =
    sum_list (map (\<lambda>(name, cfg). length (parsed_addresses cfg) * sc_maxclients cfg) (pc_servers pc))"
  using semaphore.server_from_Some [OF assms] limited_sum sum_listeners by metis

text \<open>A proxy of a verified configuration finds the upstream it routes to.\<close>

lemma verified_route:
  assumes "iterates (le_order env)" and "fst (load_config env path) = Inr pc"
    and "semaphore S" and "server_from S pc = Some sv" and "p \<in> set (sv_proxies sv)"
    and "p_tls p \<or> snis = []"
  shows "\<exists>u. hm_get (p_upstream p) (fst (route p snis)) = Some u"
    and "\<exists>u. hm_get (p_upstream p) (p_default_action p) = Some u"
proof -
  obtain m where wf: "well_formed (hm_values (pc_servers pc)) (pc_upstream pc)"
    and m: "add_upstreams (le_url env) m builtin_upstreams = Inr (pc_upstream pc)"
    using load_config_Inr [OF assms(1), of path pc] assms(2) by auto
  obtain u ref name cfg a where l: "(name, cfg, a) \<in> set (listeners (pc_servers pc))"
    and p: "p = proxy_of u ref (name, cfg, a)"
    and u: "\<exists>me. u = build_upstream me (pc_upstream pc)"
    using semaphore.server_from_Some [OF assms(3,4)] assms(5) in_proxies_of by (metis prod_cases3)
  from l have "cfg \<in> set (hm_values (pc_servers pc))"
    by (force simp: set_listeners hm_values_def)
  with wf have known: "k \<in> uses cfg \<Longrightarrow> hm_get (pc_upstream pc) k \<noteq> None" for k
    by (auto simp: well_formed_def)
  have ban: "hm_get (pc_upstream pc) ''ban'' \<noteq> None"
    using add_upstreams_dom [OF m, of "''ban''"] by simp
  have up: "hm_get (pc_upstream pc) k \<noteq> None \<Longrightarrow> \<exists>v. hm_get (p_upstream p) k = Some v" for k
    using u by (auto simp: p proxy_of_def build_upstream_get)
  have default: "hm_get (pc_upstream pc) (p_default_action p) \<noteq> None"
    using ban known by (cases "sc_default cfg") (auto simp: p proxy_of_def uses_def)
  then show "\<exists>u. hm_get (p_upstream p) (p_default_action p) = Some u" by (rule up)
  have "hm_get (pc_upstream pc) (fst (route p snis)) \<noteq> None"
  proof (cases "\<exists>mp s. p_sni p = Some mp \<and> List.find (\<lambda>s. hm_get mp s \<noteq> None) snis = Some s")
    case True
    then obtain mp s where find: "p_sni p = Some mp" "List.find (\<lambda>s. hm_get mp s \<noteq> None) snis = Some s"
      by blast
    then have "hm_get mp s \<noteq> None" by (auto simp: find_Some_iff)
    with find obtain t where s: "p_sni p = Some mp"
      "List.find (\<lambda>s. hm_get mp s \<noteq> None) snis = Some s" "hm_get mp s = Some t" by blast
    then have "p_tls p" using assms(6) by (cases snis) auto
    then have "sc_tls cfg = Some True" "sc_sni cfg = Some mp"
      using s(1) by (cases "sc_tls cfg"; simp add: p proxy_of_def)+
    moreover have "t \<in> set (hm_values mp)" using s(3) by (rule hm_get_values)
    ultimately have "upstream_name t \<in> uses cfg" by (auto simp: uses_def)
    with known s show ?thesis by (simp add: route_eq match_sni_find)
  next
    case False
    then have "fst (route p snis) = p_default_action p"
      by (cases "p_sni p"; cases "List.find (\<lambda>s. hm_get (the (p_sni p)) s \<noteq> None) snis")
        (auto simp: route_eq match_sni_find)
    with default show ?thesis by simp
  qed
  then show "\<exists>u. hm_get (p_upstream p) (fst (route p snis)) = Some u" by (rule up)
qed

text \<open>
  With a configuration that the loader has accepted, routing cannot fail: whatever a client
  sends to any of the proxies built from it, the upstream it is routed to exists, so that neither
  the fallback to the default nor the missing-default error of \<open>accept\<close> is ever taken, and
  \<open>accept\<close> can only fail with an I/O error of its own socket.
\<close>

lemma accepted_config_always_routes:
  assumes "iterates (le_order env)" and "fst (load_config env path) = Inr pc"
    and "semaphore S" and "server_from S pc = Some sv" and "p \<in> set (sv_proxies sv)"
  shows "(\<forall>snis. p_tls p \<or> snis = [] \<longrightarrow>
      (\<exists>u via target. accept_plan p snis = Inr ((fst (route p snis), u), via, target))) \<and>
    (\<forall>e. fst (fst (accept tp p cenv)) = Fail e \<longrightarrow> (\<exists>io. e = Boxed_Io io))"
proof (intro conjI allI impI)
  fix snis :: "string list" assume "p_tls p \<or> snis = []"
  from verified_route(1) [OF assms this]
  show "\<exists>u via target. accept_plan p snis = Inr ((fst (route p snis), u), via, target)"
    by (auto simp: accept_plan_def select_upstream_def case_prod_unfold Let_def)
next
  fix e assume "fst (fst (accept tp p cenv)) = Fail e"
  from accept_fails [OF this] verified_route(2) [OF assms, of "[]"]
  show "\<exists>io. e = Boxed_Io io" by auto
qed

section \<open>Listen addresses and unused upstreams\<close>

text \<open>
  C28. The \<open>listen\<close> label of every entry of the metrics table is the address of its proxy: parsed
  as a listen string it gives the address back, so two listeners have the same label only if they
  have the same address, and it consists of hexadecimal digits, dots, colons, brackets and percent
  signs, so that no address can end the quoted label value of the metrics page.
\<close>

theorem listen_labels_are_addresses:
  assumes "semaphore S" and "server_from S pc = Some sv"
  shows "map (\<lambda>e. parse_socket_addr (me_listen e)) (build_metrics (sv_proxies sv)) =
      map (\<lambda>p. Some (p_listen p)) (sv_proxies sv) \<and>
    (\<forall>e \<in> set (build_metrics (sv_proxies sv)). list_all addr_char (me_listen e))"
proof -
  let ?ls = "listeners (pc_servers pc)"
  obtain u where sv: "sv_proxies sv = proxies_of u 0 ?ls"
    using semaphore.server_from_Some [OF assms] by blast
  have "parse_socket_addr (display_socket_addr (p_listen p)) = Some (p_listen p)"
    if p: "p \<in> set (sv_proxies sv)" for p
  proof -
    obtain ref name cfg a where "(name, cfg, a) \<in> set ?ls" "p = proxy_of u ref (name, cfg, a)"
      using p sv in_proxies_of [of p u 0 ?ls] by (metis prod_cases3)
    then show ?thesis by (auto simp: set_listeners proxy_of_def parsed_addr_roundtrip)
  qed
  then show ?thesis
    using display_socket_addr_chars by (simp add: build_metrics_def list_all_iff)
qed

text \<open>
  A listen string opens an IPv4 listener exactly if it is a dotted address without leading
  zeros, a colon and a decimal port that fits 16 bits; a string that begins with neither a digit nor
  an opening bracket, such as a host name, opens none, though the loader accepts it.
\<close>

lemma ipv4_listeners:
  assumes "semaphore S" and "server_from S pc = Some sv"
  shows "((\<exists>p \<in> set (sv_proxies sv). p_name p = name \<and> p_listen p = V4 ip port) \<longleftrightarrow>
      (\<exists>cfg ds. (name, cfg) \<in> set (pc_servers pc) \<and> display_ipv4 ip @ '':'' @ ds \<in> set (sc_listen cfg) \<and>
        ds \<noteq> [] \<and> all_digits 10 ds \<and> digits_value 10 0 ds = unat port)) \<and>
    ((\<forall>(name, cfg) \<in> set (pc_servers pc). \<forall>l \<in> set (sc_listen cfg). no_digit 10 l \<and> \<not> starts (CHR ''['') l) \<longrightarrow>
      sv_proxies sv = [])"
proof -
  let ?ls = "listeners (pc_servers pc)"
  obtain u where sv: "sv_proxies sv = proxies_of u 0 ?ls"
    using semaphore.server_from_Some [OF assms] by blast
  have names: "map (\<lambda>p. (p_name p, p_listen p)) (sv_proxies sv) = map (\<lambda>(name, cfg, a). (name, a)) ?ls"
    unfolding sv by (rule nth_equalityI) (auto simp: proxies_of_nth proxy_of_def split: prod.splits)
  have "(\<exists>p \<in> set (sv_proxies sv). p_name p = name \<and> p_listen p = V4 ip port) \<longleftrightarrow>
      (name, V4 ip port) \<in> set (map (\<lambda>p. (p_name p, p_listen p)) (sv_proxies sv))"
    by auto
  also have "\<dots> \<longleftrightarrow> (\<exists>cfg. (name, cfg, V4 ip port) \<in> set ?ls)"
    unfolding names by force
  also have "\<dots> \<longleftrightarrow> (\<exists>cfg ds. (name, cfg) \<in> set (pc_servers pc) \<and>
      display_ipv4 ip @ '':'' @ ds \<in> set (sc_listen cfg) \<and>
      ds \<noteq> [] \<and> all_digits 10 ds \<and> digits_value 10 0 ds = unat port)"
    unfolding set_listeners parse_ipv4_iff by blast
  finally have "(\<exists>p \<in> set (sv_proxies sv). p_name p = name \<and> p_listen p = V4 ip port) \<longleftrightarrow> \<dots>" .
  moreover have "sv_proxies sv = []"
    if hosts: "\<forall>(name, cfg) \<in> set (pc_servers pc). \<forall>l \<in> set (sc_listen cfg).
      no_digit 10 l \<and> \<not> starts (CHR ''['') l"
  proof -
    have "(name, cfg, a) \<notin> set ?ls" for name cfg a
      using hosts host_names_are_no_addresses by (fastforce simp: set_listeners)
    then have "?ls = []" by (metis list.set_intros(1) neq_Nil_conv prod_cases3)
    with sv show ?thesis by simp
  qed
  ultimately show ?thesis by blast
qed

text \<open>The upstreams a server block can route a connection to.\<close>

lemma routes_to:
  assumes "\<And>m. sc_sni server = Some m \<Longrightarrow> hm_ok m"
  shows "(\<exists>snis. (or_else (sc_tls server) False \<or> snis = []) \<and>
      fst (route (proxy_of u i (name, server, a)) snis) = k) \<longleftrightarrow>
    k = or_else (sc_default server) ''ban'' \<or> k \<in> uses server" (is "?routed \<longleftrightarrow> ?used")
proof
  assume ?routed
  then obtain snis where tls: "or_else (sc_tls server) False \<or> snis = []"
    and k: "fst (route (proxy_of u i (name, server, a)) snis) = k" by blast
  show ?used
  proof (cases "\<exists>m s. sc_sni server = Some m \<and> List.find (\<lambda>s. hm_get m s \<noteq> None) snis = Some s")
    case True
    then obtain m s where s: "sc_sni server = Some m" "List.find (\<lambda>s. hm_get m s \<noteq> None) snis = Some s" by blast
    then obtain t where t: "hm_get m s = Some t" by (auto simp: find_Some_iff)
    from s tls have "sc_tls server = Some True" by (cases "sc_tls server"; cases snis) auto
    with s t k hm_get_values [OF t] show ?thesis
      by (auto simp: uses_def route_eq match_sni_find proxy_of_def)
  next
    case False
    with k show ?thesis
      by (cases "sc_sni server"; cases "List.find (\<lambda>s. hm_get (the (sc_sni server)) s \<noteq> None) snis")
        (auto simp: route_eq match_sni_find proxy_of_def)
  qed
next
  assume ?used
  then consider "k = or_else (sc_default server) ''ban''"
    | m t where "sc_tls server = Some True" "sc_sni server = Some m" "t \<in> set (hm_values m)" "k = upstream_name t"
    by (cases "sc_default server") (auto simp: uses_def split: option.splits bool.splits)
  then show ?routed
  proof cases
    case 1
    then show ?thesis by (intro exI [of _ "[]"]) (simp add: route_eq proxy_of_def split: option.splits)
  next
    case 2
    then obtain s where "(s, t) \<in> set m" by (auto simp: hm_values_def)
    with 2 assms have "hm_get m s = Some t" by (simp add: hm_get_iff)
    with 2 show ?thesis by (intro exI [of _ "[s]"]) (simp add: route_eq proxy_of_def)
  qed
qed

text \<open>
  C16. The loader's warnings about unused upstreams are exact but for the names of the built-in ones: it
  never warns about \<open>echo\<close>, \<open>ban\<close> and \<open>health\<close>, not even where the file declares an upstream of that name
  and nothing leads to it; of all other upstreams of an accepted configuration, it warns about exactly
  those that no connection of any server block can be routed to, whichever server names a client
  sends.
\<close>

theorem unused_warnings_are_exact:
  assumes "iterates order" and "verify_config order pc = (Inr pc', warned)"
    and "\<forall>(name, server) \<in> set (pc_servers pc). \<forall>m. sc_sni server = Some m \<longrightarrow> hm_ok m"
  shows "k \<in> set warned \<longleftrightarrow> hm_get (pc_upstream pc) k \<noteq> None \<and> k \<notin> {''echo'', ''ban'', ''health''} \<and>
    \<not> (\<exists>(name, server) \<in> set (pc_servers pc). \<exists>snis. (or_else (sc_tls server) False \<or> snis = []) \<and>
        fst (route (proxy_of u i (name, server, a)) snis) = k)"
proof -
  have routes: "(\<exists>snis. (or_else (sc_tls server) False \<or> snis = []) \<and>
        fst (route (proxy_of u i (name, server, a)) snis) = k) \<longleftrightarrow>
      k = or_else (sc_default server) ''ban'' \<or> k \<in> uses server"
    if "(name, server) \<in> set (pc_servers pc)" for name server
    using assms(3) that by (intro routes_to) blast
  have default: "k \<notin> {''echo'', ''ban'', ''health''} \<Longrightarrow>
      k = or_else (sc_default server) ''ban'' \<or> k \<in> uses server \<longleftrightarrow> k \<in> uses server" for server
    by (cases "sc_default server") (auto simp: uses_def)
  have "(\<exists>(name, server) \<in> set (pc_servers pc). \<exists>snis. (or_else (sc_tls server) False \<or> snis = []) \<and>
        fst (route (proxy_of u i (name, server, a)) snis) = k) \<longleftrightarrow>
      (\<exists>(name, server) \<in> set (pc_servers pc). k = or_else (sc_default server) ''ban'' \<or> k \<in> uses server)"
    by (rule bex_cong [OF refl]) (simp only: case_prod_unfold routes prod.collapse)
  moreover have "k \<in> fst ` set (pc_upstream pc) \<longleftrightarrow> hm_get (pc_upstream pc) k \<noteq> None"
    by (simp add: hm_get_def map_of_eq_None_iff)
  moreover have "(\<forall>server \<in> set (hm_values (pc_servers pc)). k \<notin> uses server) \<longleftrightarrow>
      \<not> (\<exists>(name, server) \<in> set (pc_servers pc). k \<in> uses server)"
    by (auto simp: hm_values_def)
  ultimately show ?thesis
    unfolding verify_config_warned [OF assms(1,2)]
    by (cases "k \<in> {''echo'', ''ban'', ''health''}") (simp_all only: default not_True_eq_False simp_thms)
qed

text \<open>
  The check for duplicate listen addresses compares the strings: a server that lists an IPv4
  address twice, once with a leading zero in the port, is accepted, and two proxies of the server
  that is built listen on the same address.
\<close>

definition raw_twice :: "u32 \<Rightarrow> u16 \<Rightarrow> raw_server" where
  "raw_twice ip port = (raw_server_plain None)\<lparr>rs_listen :=
     [display_ipv4 ip @ '':'' @ show_nat (unat port), display_ipv4 ip @ '':0'' @ show_nat (unat port)]\<rparr>"

lemma duplicate_addresses_are_compared_as_strings:
  "fst (load_config (env_load (raw_ex (raw_twice ip port))) path) = Inr (pc_ex (raw_twice ip port)) \<and>
   map_option (\<lambda>sv. map p_listen (sv_proxies sv)) (server_from counting_sem (pc_ex (raw_twice ip port))) =
     Some [V4 ip port, V4 ip port]"
proof
  show "fst (load_config (env_load (raw_ex (raw_twice ip port))) path) = Inr (pc_ex (raw_twice ip port))"
    by (rule load_one_server) (simp_all add: raw_twice_def raw_server_plain_def)
  have "parse_socket_addr (display_ipv4 ip @ '':'' @ ds) = Some (V4 ip port)"
    if "ds \<noteq> []" "all_digits 10 ds" "digits_value 10 0 ds = unat port" for ds
    using that parse_ipv4_iff by blast
  note parse = this [of "show_nat (unat port)"] this [of "''0'' @ show_nat (unat port)"]
  have ls: "listeners (pc_servers (pc_ex (raw_twice ip port))) =
      [(''web'', server_of_raw (raw_twice ip port), V4 ip port), (''web'', server_of_raw (raw_twice ip port), V4 ip port)]"
    using parse show_radix_digits [of 10 "unat port"]
    by (simp add: pc_ex_def raw_twice_def server_of_raw_def show_nat_show_radix to_digit_def)
  have "server_from counting_sem (pc_ex (raw_twice ip port)) \<noteq> None"
    unfolding counting.server_from_None ls
    by (simp add: raw_twice_def server_of_raw_def raw_server_plain_def default_maxclients_def max_permits_def)
  then obtain sv where sv: "server_from counting_sem (pc_ex (raw_twice ip port)) = Some sv" by blast
  from counting.server_from_Some [OF sv] obtain u where "sv_proxies sv = proxies_of u 0 (listeners
      (pc_servers (pc_ex (raw_twice ip port))))" by blast
  then show "map_option (\<lambda>sv. map p_listen (sv_proxies sv)) (server_from counting_sem (pc_ex (raw_twice ip port))) =
      Some [V4 ip port, V4 ip port]"
    by (simp add: sv ls proxy_of_def)
qed

section \<open>Witnesses\<close>

lemma listen_ex: "parse_socket_addr ''127.0.0.1:8081'' = Some (V4 2130706433 8081)"
  by (simp add: parse_socket_addr_def read_socket_addr_v4_def read_ipv4_addr_def read_port_def
      read_separator_def read_number_def to_digit_def be_value_def)

definition sv_ex :: "usize server" where
  "sv_ex = the (server_from counting_sem (pc_ex (raw_server_plain None)))"

lemma server_ex: "server_from counting_sem (pc_ex (raw_server_plain None)) = Some sv_ex"
proof -
  have "server_from counting_sem (pc_ex (raw_server_plain None)) \<noteq> None"
    unfolding counting.server_from_None
    by (simp add: pc_ex_def server_of_raw_def raw_server_plain_def default_maxclients_def listen_ex max_permits_def)
  then show ?thesis by (simp add: sv_ex_def)
qed

lemma listeners_ex:
  "listeners (pc_servers (pc_ex (raw_server_plain None))) =
     [(''web'', server_of_raw (raw_server_plain None), V4 2130706433 8081)]"
  by (simp add: pc_ex_def server_of_raw_def raw_server_plain_def listen_ex)

lemma proxies_ex: "\<exists>p. sv_proxies sv_ex = [p] \<and> p_tls p = False \<and> p_default_action p = ''remote'' \<and>
  p_listen p = V4 2130706433 8081"
proof -
  obtain u where "sv_proxies sv_ex =
      proxies_of u 0 [(''web'', server_of_raw (raw_server_plain None), V4 2130706433 8081)]"
    using counting.server_from_Some [OF server_ex] unfolding listeners_ex by blast
  then show ?thesis by (simp add: proxy_of_def server_of_raw_def raw_server_plain_def)
qed

theorem server_from_panics_iff_witness:
  "server_from counting_sem (pc_ex ((raw_server_plain None)\<lparr>rs_maxclients := Some (2 ^ 61)\<rparr>)) = None"
  using server_from_panics_iff [OF counting.semaphore_axioms, of
      "pc_ex ((raw_server_plain None)\<lparr>rs_maxclients := Some (2 ^ 61)\<rparr>)"]
  by (simp add: pc_ex_def server_of_raw_def raw_server_plain_def listen_ex)

theorem one_proxy_and_semaphore_per_listener_witness:
  "map (\<lambda>p. (p_name p, p_listen p, p_maxclients_limit p)) (sv_proxies sv_ex) =
     [(''web'', V4 2130706433 8081, 100)]"
  using one_proxy_and_semaphore_per_listener [OF counting.semaphore_axioms server_ex]
  unfolding listeners_ex
  by (simp add: server_of_raw_def raw_server_plain_def default_maxclients_def)

theorem listen_labels_are_addresses_witness:
  "map (\<lambda>e. parse_socket_addr (me_listen e)) (build_metrics (sv_proxies sv_ex)) =
     [Some (V4 2130706433 8081)]"
  using listen_labels_are_addresses [OF counting.semaphore_axioms server_ex]
    proxies_ex by auto

theorem unused_warnings_are_exact_witness:
  "''spare'' \<in> set (snd (verify_config rev ((pc_ex (raw_server_plain None))
     \<lparr>pc_upstream := (''spare'', Proxy upstream_h80) # pc_upstream (pc_ex (raw_server_plain None))\<rparr>)))"
proof -
  let ?pc = "(pc_ex (raw_server_plain None))
     \<lparr>pc_upstream := (''spare'', Proxy upstream_h80) # pc_upstream (pc_ex (raw_server_plain None))\<rparr>"
  have "iterates rev" by (simp add: iterates_def)
  moreover have "verify_config rev ?pc = (Inr ?pc, snd (verify_config rev ?pc))"
    using verify_config_Inr [OF \<open>iterates rev\<close>, of ?pc ?pc]
    by (simp add: prod_eq_iff well_formed_def pc_ex_def hm_values_def uses_def server_of_raw_def
        raw_server_plain_def hm.get_ins)
  ultimately show ?thesis
    using unused_warnings_are_exact [of rev ?pc ?pc "snd (verify_config rev ?pc)" "''spare''" "[]" 0 "V4 0 0"]
    by (simp add: pc_ex_def server_of_raw_def raw_server_plain_def route_eq proxy_of_def)
qed

end
