(* ===== verification/Transitions.thy ===== *)
theory Transitions
  imports Prelude
begin

text \<open>
  Labelled transition relations: the runs of a relation, and the interface through which an
  invariant of the steps holds in every state that a run reaches. The concurrent calls of
  \<open>resolve\<close>, the connection tasks and the whole server are such relations.
\<close>

section \<open>Runs\<close>

inductive run :: "('st \<Rightarrow> 'l \<Rightarrow> 'st \<Rightarrow> bool) \<Rightarrow> 'st \<Rightarrow> 'l list \<Rightarrow> 'st \<Rightarrow> bool"
  for step :: "'st \<Rightarrow> 'l \<Rightarrow> 'st \<Rightarrow> bool" and st where
  run_refl: "run step st [] st"
| run_step: "run step st ls st' \<Longrightarrow> step st' l st'' \<Longrightarrow> run step st (ls @ [l]) st''"

lemma run_append: "run step st' ls' st'' \<Longrightarrow> run step st ls st' \<Longrightarrow> run step st (ls @ ls') st''"
proof (induction rule: run.induct)
  case (run_step ls1 st2 l st3)
  from run.run_step [OF run_step.IH [OF run_step.prems] run_step.hyps(2)]
  show ?case by simp
qed simp

lemma run_single: "step st l st' \<Longrightarrow> run step st [l] st'"
  using run_step [OF run_refl, of step st l st'] by simp

locale invariant =
  fixes step :: "'st \<Rightarrow> 'l \<Rightarrow> 'st \<Rightarrow> bool" and init :: 'st and inv :: "'st \<Rightarrow> bool"
  assumes inv_init: "inv init"
    and inv_step: "inv st \<Longrightarrow> step st l st' \<Longrightarrow> inv st'"
begin

lemma inv_run: "run step init ls st \<Longrightarrow> inv st"
  by (induction rule: run.induct) (auto intro: inv_init inv_step)

end

text \<open>The first step of a run comes first.\<close>

lemma run_Cons: "step st l st' \<Longrightarrow> run step st' ls st'' \<Longrightarrow> run step st (l # ls) st''"
  using run_append [of step st' ls st'' st "[l]"] run_single [of step st l st'] by simp

lemma run_imp:
  assumes "run step st ls st'" and "\<And>s l s'. step s l s' \<Longrightarrow> P s \<Longrightarrow> P s'" and "P st"
  shows "P st'"
  using assms by (induction rule: run.induct) auto

text \<open>
  A relation with an invariant that implements an abstract one: every step is a step of the
  abstract relation with the same observation, or changes nothing there and is not observed. Then
  every run is a run of the abstract relation with the same sequence of observations.
\<close>

locale refinement = invariant step init inv
  for step :: "'st \<Rightarrow> 'l \<Rightarrow> 'st \<Rightarrow> bool" and init :: 'st and inv :: "'st \<Rightarrow> bool" +
  fixes astep :: "'a \<Rightarrow> 'k \<Rightarrow> 'a \<Rightarrow> bool" and abs :: "'st \<Rightarrow> 'a"
    and seen :: "'l \<Rightarrow> 'o option" and aseen :: "'k \<Rightarrow> 'o option"
  assumes simulates: "inv st \<Longrightarrow> step st l st' \<Longrightarrow>
    abs st' = abs st \<and> seen l = None \<or> (\<exists>k. astep (abs st) k (abs st') \<and> aseen k = seen l)"
begin

lemma refines:
  "run step init ls st \<Longrightarrow>
     \<exists>ks. run astep (abs init) ks (abs st) \<and> List.map_filter aseen ks = List.map_filter seen ls"
proof (induction rule: run.induct)
  case run_refl
  then show ?case by (intro exI [of _ "[]"]) (simp add: run.run_refl)
next
  case (run_step ls st1 l st2)
  then obtain ks where ks: "run astep (abs init) ks (abs st1)"
    "List.map_filter aseen ks = List.map_filter seen ls" by blast
  from simulates [OF inv_run [OF run_step.hyps(1)] run_step.hyps(2)] show ?case
  proof
    assume "abs st2 = abs st1 \<and> seen l = None"
    with ks show ?thesis by (intro exI [of _ ks]) (simp add: List.map_filter_def)
  next
    assume "\<exists>k. astep (abs st1) k (abs st2) \<and> aseen k = seen l"
    then obtain k where "astep (abs st1) k (abs st2)" "aseen k = seen l" by blast
    with ks run.run_step [of astep "abs init" ks "abs st1" k "abs st2"] show ?thesis
      by (intro exI [of _ "ks @ [k]"]) (simp add: List.map_filter_def)
  qed
qed

end

end
