(* ===== verification/Resolve_Calls.thy ===== *)
theory Resolve_Calls
  imports Upstream_Address Transitions
begin

text \<open>
  \<open>UpstreamAddress::resolve\<close> of \<open>src/servers/upstream_address/mod.rs\<close> between its awaits: many
  calls at once on one cache.

  The clones of an \<open>UpstreamAddress\<close> share three locked fields, and a call takes each lock for one
  read or write only. \<open>resolve_step\<close> is one such access, or the answer of the resolver;
  \<open>calls_step\<close> lets any of the calls under way take its next step. A call run without
  interruption is the function \<open>resolve\<close> of \<open>Upstream_Address\<close>; the lemmas say what survives of its
  contract when calls overlap, and what does not. The reads with which a log line at debug level
  prints the cache and \<open>time_remaining\<close> are left out: they change nothing and nothing is done with
  what they read.
\<close>

section \<open>The steps of one call\<close>

text \<open>
  Where a call stands: before \<open>is_resolved\<close>, before and between the two reads of \<open>is_valid\<close>, before
  the read of the cached addresses, at the await of \<open>lookup_host\<close>, before each of the writes of the
  two outcomes, and behind the return.
\<close>

datatype resolve_pc =
    R_Start
  | R_Time
  | R_Ttl instant
  | R_Hit
  | R_Lookup
  | R_Err_Time io_error
  | R_Err_Ttl io_error
  | R_Ok_Addresses "sock_addr list"
  | R_Ok_Time "sock_addr list"
  | R_Ok_Ttl "sock_addr list"
  | R_Return "io_error + sock_addr list"

text \<open>
  What a step learns from outside: nothing, the clock, or the answer to the lookup. Nothing is
  assumed about the clock from one step to the next.
\<close>

datatype resolve_event = Go | At instant | Answer "io_error + sock_addr list"

fun resolve_step ::
  "resolution_mode \<Rightarrow> upstream_address \<Rightarrow> resolve_pc \<Rightarrow> resolve_event \<Rightarrow>
     (upstream_address \<times> resolve_pc \<times> action list) option" where
  "resolve_step mode ua R_Start Go =
     Some (if is_resolved ua then (ua, R_Time, []) else (ua, R_Lookup, [Lookup (ua_address ua)]))"
| "resolve_step mode ua R_Time Go =
     Some (case ua_time ua of
        Some resolved \<Rightarrow> (ua, R_Ttl resolved, [])
      | None \<Rightarrow> (ua, R_Lookup, [Lookup (ua_address ua)]))"
| "resolve_step mode ua (R_Ttl resolved) (At now) =
     Some (case ua_ttl ua of
        Some ttl \<Rightarrow>
          if elapsed resolved now < ttl then (ua, R_Hit, [])
          else (ua, R_Lookup, [Lookup (ua_address ua)])
      | None \<Rightarrow> (ua, R_Lookup, [Lookup (ua_address ua)]))"
| "resolve_step mode ua R_Hit Go = Some (ua, R_Return (Inr (ua_resolved ua)), [])"
| "resolve_step mode ua R_Lookup (Answer (Inl e)) = Some (ua, R_Err_Time e, [])"
| "resolve_step mode ua R_Lookup (Answer (Inr found)) =
     Some (ua, R_Ok_Addresses (mode_filter mode found), [])"
| "resolve_step mode ua (R_Err_Time e) (At now) =
     Some (ua\<lparr>ua_time := Some now\<rparr>, R_Err_Ttl e, [])"
| "resolve_step mode ua (R_Err_Ttl e) Go =
     Some (ua\<lparr>ua_ttl := Some error_ttl\<rparr>, R_Return (Inl e), [])"
| "resolve_step mode ua (R_Ok_Addresses addresses) Go =
     Some (ua\<lparr>ua_resolved := addresses\<rparr>, R_Ok_Time addresses, [])"
| "resolve_step mode ua (R_Ok_Time addresses) (At now) =
     Some (ua\<lparr>ua_time := Some now\<rparr>, R_Ok_Ttl addresses, [])"
| "resolve_step mode ua (R_Ok_Ttl addresses) Go =
     Some (ua\<lparr>ua_ttl := Some success_ttl\<rparr>, R_Return (Inr addresses), [])"
| "resolve_step mode ua pc ev = None"

lemmas resolve_step_cases = resolve_step.elims [where y = "Some (ua', pc', t)" for ua' pc' t]

section \<open>Calls that overlap\<close>

text \<open>
  All calls on one upstream use the mode of its protocol. A label says which call moved, what it
  learned and what it did.
\<close>

inductive calls_step ::
  "resolution_mode \<Rightarrow> upstream_address \<times> resolve_pc list \<Rightarrow> nat \<times> resolve_event \<times> action list \<Rightarrow>
     upstream_address \<times> resolve_pc list \<Rightarrow> bool"
  for mode where
  call_moves:
    "j < length pcs \<Longrightarrow> resolve_step mode ua (pcs ! j) ev = Some (ua', pc', t) \<Longrightarrow>
       calls_step mode (ua, pcs) (j, ev, t) (ua', pcs[j := pc'])"

lemma calls_step_iff:
  "calls_step mode st (j, ev, t) st' \<longleftrightarrow> j < length (snd st) \<and>
     (\<exists>pc'. resolve_step mode (fst st) (snd st ! j) ev = Some (fst st', pc', t) \<and>
        snd st' = (snd st)[j := pc'])"
  by (cases st; cases st') (auto simp: calls_step.simps)

lemma calls_length: "run (calls_step mode) (ua, pcs) ls st \<Longrightarrow> length (snd st) = length pcs"
proof (induction rule: run.induct)
  case (run_step ls st1 l st2)
  then show ?case by (cases l) (auto simp: calls_step_iff)
qed simp

lemma resolve_step_address:
  "resolve_step mode ua pc ev = Some (ua', pc', t) \<Longrightarrow> ua_address ua' = ua_address ua"
  by (elim resolve_step_cases) (auto split: if_splits option.splits)

text \<open>A schedule of calls, carried out.\<close>

fun calls_run ::
  "resolution_mode \<Rightarrow> upstream_address \<times> resolve_pc list \<Rightarrow> (nat \<times> resolve_event) list \<Rightarrow>
     ((nat \<times> resolve_event \<times> action list) list \<times> upstream_address \<times> resolve_pc list) option" where
  "calls_run mode st [] = Some ([], st)"
| "calls_run mode (ua, pcs) ((j, ev) # evs) =
     (if j < length pcs then
        (case resolve_step mode ua (pcs ! j) ev of
           None \<Rightarrow> None
         | Some (ua', pc', t) \<Rightarrow>
             map_option (\<lambda>(ls, st). ((j, ev, t) # ls, st)) (calls_run mode (ua', pcs[j := pc']) evs))
      else None)"

lemma calls_run_run: "calls_run mode st evs = Some (ls, st') \<Longrightarrow> run (calls_step mode) st ls st'"
proof (induction mode st evs arbitrary: ls rule: calls_run.induct)
  case (2 mode ua pcs j ev evs)
  then obtain ua' pc' t ls1 where "j < length pcs" "resolve_step mode ua (pcs ! j) ev = Some (ua', pc', t)"
    "calls_run mode (ua', pcs[j := pc']) evs = Some (ls1, st')" "ls = (j, ev, t) # ls1"
    by (auto split: if_splits option.splits)
  with 2(1) [of "(ua', pc', t)" ua' "(pc', t)" pc' t ls1] show ?case
    by (auto intro!: run_Cons call_moves)
qed (simp add: run_refl)

section \<open>A call without interruption\<close>

text \<open>How a call returns when no other moves, by its remaining steps.\<close>

inductive returns ::
  "resolution_mode \<Rightarrow> upstream_address \<Rightarrow> resolve_pc \<Rightarrow>
     (io_error + sock_addr list) \<times> upstream_address \<times> action list \<Rightarrow> bool"
  for mode where
  returns_now: "returns mode ua (R_Return r) (r, ua, [])"
| returns_later:
    "resolve_step mode ua pc ev = Some (ua', pc', t) \<Longrightarrow> returns mode ua' pc' (r, ua'', t') \<Longrightarrow>
       returns mode ua pc (r, ua'', t @ t')"

lemma returns_step_iff:
  assumes "\<And>r. pc \<noteq> R_Return r"
  shows "returns mode ua pc (r, ua'', t) \<longleftrightarrow>
    (\<exists>ev ua' pc' t1 t2. resolve_step mode ua pc ev = Some (ua', pc', t1) \<and>
       returns mode ua' pc' (r, ua'', t2) \<and> t = t1 @ t2)"
  using assms by (subst returns.simps) blast

lemma resolve_event_ex: "(\<exists>ev. P ev) \<longleftrightarrow> P Go \<or> (\<exists>now. P (At now)) \<or> (\<exists>e. P (Answer (Inl e))) \<or> (\<exists>f. P (Answer (Inr f)))"
  by (metis resolve_event.exhaust sum.exhaust)

inductive_simps returns_Return: "returns mode ua (R_Return r) x"

lemma returns_Return_iff [simp]: "returns mode ua (R_Return r0) (r, ua', t) \<longleftrightarrow> r = r0 \<and> ua' = ua \<and> t = []"
  by (auto simp: returns_Return)

lemma returns_writes [simp]:
  "returns mode ua (R_Ok_Ttl as) x \<longleftrightarrow> x = (Inr as, ua\<lparr>ua_ttl := Some success_ttl\<rparr>, [])"
  "returns mode ua (R_Err_Ttl e) x \<longleftrightarrow> x = (Inl e, ua\<lparr>ua_ttl := Some error_ttl\<rparr>, [])"
  "returns mode ua R_Hit x \<longleftrightarrow> x = (Inr (ua_resolved ua), ua, [])"
  by (cases x; auto simp: returns_step_iff resolve_event_ex)+

lemma returns_times [simp]:
  "returns mode ua (R_Ok_Time as) x \<longleftrightarrow>
     (\<exists>now. x = (Inr as, ua\<lparr>ua_time := Some now, ua_ttl := Some success_ttl\<rparr>, []))"
  "returns mode ua (R_Err_Time e) x \<longleftrightarrow>
     (\<exists>now. x = (Inl e, ua\<lparr>ua_time := Some now, ua_ttl := Some error_ttl\<rparr>, []))"
  by (cases x; auto simp: returns_step_iff resolve_event_ex)+

lemma returns_addresses [simp]:
  "returns mode ua (R_Ok_Addresses as) x \<longleftrightarrow>
     (\<exists>now. x = (Inr as, ua\<lparr>ua_resolved := as, ua_time := Some now, ua_ttl := Some success_ttl\<rparr>, []))"
  by (cases x; auto simp: returns_step_iff resolve_event_ex)

text \<open>What a call may return once it has to look the host up, and what it leaves in the cache.\<close>

definition looked_up ::
  "resolution_mode \<Rightarrow> upstream_address \<Rightarrow> io_error + sock_addr list \<Rightarrow> upstream_address \<Rightarrow> bool" where
  "looked_up mode ua r ua' \<longleftrightarrow>
     (\<exists>e now. r = Inl e \<and> ua' = ua\<lparr>ua_time := Some now, ua_ttl := Some error_ttl\<rparr>) \<or>
     (\<exists>found now. r = Inr (mode_filter mode found) \<and>
        ua' = ua\<lparr>ua_resolved := mode_filter mode found, ua_time := Some now, ua_ttl := Some success_ttl\<rparr>)"

lemma returns_Lookup [simp]:
  "returns mode ua R_Lookup (r, ua', t) \<longleftrightarrow> t = [] \<and> looked_up mode ua r ua'"
  by (auto simp: returns_step_iff resolve_event_ex looked_up_def)

lemma resolve_looked_up:
  assumes "\<not> (is_resolved ua \<and> is_valid ua now)"
  shows "looked_up mode ua r ua' \<longleftrightarrow>
    (\<exists>e. de_now e = now \<and> resolve ua mode e = (r, ua', [Lookup (ua_address ua)]))"
proof
  assume "looked_up mode ua r ua'"
  then show "\<exists>e. de_now e = now \<and> resolve ua mode e = (r, ua', [Lookup (ua_address ua)])"
    unfolding looked_up_def
  proof (elim disjE exE conjE)
    fix e fin assume "r = Inl e" "ua' = ua\<lparr>ua_time := Some fin, ua_ttl := Some error_ttl\<rparr>"
    with assms show ?thesis
      by (intro exI [of _ "\<lparr>de_now = now, de_lookup = (\<lambda>_. Inl e), de_done = fin\<rparr>"])
        (simp add: resolve_miss_error)
  next
    fix found fin assume "r = Inr (mode_filter mode found)"
      "ua' = ua\<lparr>ua_resolved := mode_filter mode found, ua_time := Some fin, ua_ttl := Some success_ttl\<rparr>"
    with assms show ?thesis
      by (intro exI [of _ "\<lparr>de_now = now, de_lookup = (\<lambda>_. Inr found), de_done = fin\<rparr>"])
        (simp add: resolve_miss_ok)
  qed
next
  assume "\<exists>e. de_now e = now \<and> resolve ua mode e = (r, ua', [Lookup (ua_address ua)])"
  then obtain e where e: "de_now e = now" "resolve ua mode e = (r, ua', [Lookup (ua_address ua)])" by blast
  show "looked_up mode ua r ua'"
  proof (cases "de_lookup e (ua_address ua)")
    case (Inl err)
    from resolve_miss_error [OF _ Inl, of mode] e assms show ?thesis by (auto simp: looked_up_def)
  next
    case (Inr found)
    from resolve_miss_ok [OF _ Inr, of mode] e assms show ?thesis by (auto simp: looked_up_def)
  qed
qed

lemma resolve_answers:
  "(\<exists>e. resolve ua mode e = (r, ua', t)) \<longleftrightarrow>
     (\<exists>now. if is_resolved ua \<and> is_valid ua now then r = Inr (ua_resolved ua) \<and> ua' = ua \<and> t = []
        else looked_up mode ua r ua' \<and> t = [Lookup (ua_address ua)])"
    (is "?l \<longleftrightarrow> (\<exists>now. ?r now)")
proof
  assume ?l
  then obtain e where e: "resolve ua mode e = (r, ua', t)" ..
  show "\<exists>now. ?r now"
  proof (cases "is_resolved ua \<and> is_valid ua (de_now e)")
    case True
    with e show ?thesis by (intro exI [of _ "de_now e"]) (auto simp: resolve_hit)
  next
    case False
    with e have "t = [Lookup (ua_address ua)]"
      by (cases "de_lookup e (ua_address ua)") (simp_all add: resolve_miss_error resolve_miss_ok)
    with e resolve_looked_up [OF False] False show ?thesis by (intro exI [of _ "de_now e"]) auto
  qed
next
  assume "\<exists>now. ?r now"
  then obtain now where r: "?r now" ..
  show ?l
  proof (cases "is_resolved ua \<and> is_valid ua now")
    case True
    with r show ?thesis
      by (intro exI [of _ "\<lparr>de_now = now, de_lookup = (\<lambda>_. Inr []), de_done = 0\<rparr>"]) (simp add: resolve_hit)
  next
    case False
    with r resolve_looked_up [OF False] show ?thesis by (simp only: if_False) blast
  qed
qed

lemma returns_Start:
  "returns mode ua R_Start (r, ua', t) \<longleftrightarrow> (\<exists>e. resolve ua mode e = (r, ua', t))"
  unfolding resolve_answers
  by (cases "ua_time ua"; cases "ua_ttl ua")
    (auto simp: returns_step_iff resolve_event_ex is_valid_def)

lemma returns_run:
  "returns mode ua pc (r, ua', t) \<Longrightarrow> j < length pcs \<Longrightarrow> pcs ! j = pc \<Longrightarrow>
     \<exists>ls. run (calls_step mode) (ua, pcs) ls (ua', pcs[j := R_Return r]) \<and>
       (\<forall>l \<in> set ls. fst l = j) \<and> concat (map (\<lambda>(i, ev, t). t) ls) = t"
proof (induction ua pc "(r, ua', t)" arbitrary: t pcs rule: returns.induct)
  case returns_now
  have "pcs[j := R_Return r] = pcs" using returns_now by (metis list_update_id)
  with run_refl [of "calls_step mode" "(ua', pcs)"] show ?case by (intro exI [of _ "[]"]) simp
next
  case (returns_later ua pc ev ua1 pc1 t1 t2)
  have "calls_step mode (ua, pcs) (j, ev, t1) (ua1, pcs[j := pc1])"
    using returns_later.hyps(1) returns_later.prems by (simp add: calls_step_iff)
  moreover from returns_later.hyps(3) [of "pcs[j := pc1]"] returns_later.prems obtain ls where
    "run (calls_step mode) (ua1, pcs[j := pc1]) ls (ua', pcs[j := R_Return r])"
    "\<forall>l \<in> set ls. fst l = j" "concat (map (\<lambda>(i, ev, t). t) ls) = t2"
    by auto
  ultimately show ?case
    by (intro exI [of _ "(j, ev, t1) # ls"] conjI run_Cons) auto
qed

lemma run_returns:
  assumes "run (calls_step mode) st ls st'" and "\<forall>l \<in> set ls. fst l = j"
    and "returns mode (fst st') (snd st' ! j) (r, ua', t)"
  shows "returns mode (fst st) (snd st ! j) (r, ua', concat (map (\<lambda>(i, ev, t). t) ls) @ t)"
  using assms
proof (induction arbitrary: t rule: run.induct)
  case (run_step ls st1 l st2)
  then obtain ev t' where l: "l = (j, ev, t')" by (cases l) auto
  with run_step.hyps(2) have "resolve_step mode (fst st1) (snd st1 ! j) ev = Some (fst st2, snd st2 ! j, t')"
    by (auto simp: calls_step_iff)
  from returns_later [OF this run_step.prems(2)] run_step.IH run_step.prems(1) l show ?case by simp
qed simp

section \<open>What overlapping calls keep\<close>

fun pc_addresses :: "resolve_pc \<Rightarrow> sock_addr list" where
  "pc_addresses (R_Ok_Addresses as) = as"
| "pc_addresses (R_Ok_Time as) = as"
| "pc_addresses (R_Ok_Ttl as) = as"
| "pc_addresses (R_Return (Inr as)) = as"
| "pc_addresses _ = []"

text \<open>The addresses that the resolver has answered in a run.\<close>

definition answered :: "(nat \<times> resolve_event \<times> action list) list \<Rightarrow> sock_addr set" where
  "answered ls = {a. \<exists>j found t. (j, Answer (Inr found), t) \<in> set ls \<and> a \<in> set found}"

lemma answered_mono: "answered ls \<subseteq> answered (ls @ [l])"
  by (auto simp: answered_def)

lemma resolve_step_addresses:
  assumes "resolve_step mode ua pc ev = Some (ua', pc', t)"
    and "a \<in> set (ua_resolved ua') \<union> set (pc_addresses pc')"
  shows "a \<in> set (ua_resolved ua) \<union> set (pc_addresses pc) \<or>
    (allowed mode a \<and> (\<exists>found. ev = Answer (Inr found) \<and> a \<in> set found))"
  using assms
  by (elim resolve_step_cases) (auto simp: allowed_mode_filter split: if_splits option.splits)

lemma calls_addresses:
  assumes "run (calls_step mode) (ua0, replicate n R_Start) ls st" and "holds_mode mode ua0"
    and "a \<in> set (ua_resolved (fst st)) \<or> (\<exists>pc \<in> set (snd st). a \<in> set (pc_addresses pc))"
  shows "allowed mode a \<and> a \<in> set (ua_resolved ua0) \<union> answered ls"
  using assms(1,3)
proof (induction arbitrary: a rule: run.induct)
  case run_refl
  with assms(2) show ?case by (auto simp: holds_mode_def list_all_iff)
next
  case (run_step ls st1 l st2)
  obtain j ev t where l: "l = (j, ev, t)" by (cases l) auto
  with run_step.hyps(2) obtain pc' where j: "j < length (snd st1)" "snd st2 = (snd st1)[j := pc']"
    and step: "resolve_step mode (fst st1) (snd st1 ! j) ev = Some (fst st2, pc', t)"
    by (auto simp: calls_step_iff)
  have "a \<in> set (ua_resolved (fst st2)) \<union> set (pc_addresses pc') \<or>
      (\<exists>pc \<in> set (snd st1). a \<in> set (pc_addresses pc))"
    using run_step.prems j set_update_subset_insert by fastforce
  then have "a \<in> set (ua_resolved (fst st1)) \<or> (\<exists>pc \<in> set (snd st1). a \<in> set (pc_addresses pc)) \<or>
      (allowed mode a \<and> (\<exists>found. ev = Answer (Inr found) \<and> a \<in> set found))"
    using resolve_step_addresses [OF step] nth_mem [OF j(1)] by blast
  then show ?case
  proof (elim disjE conjE exE)
    fix found assume "allowed mode a" "ev = Answer (Inr found)" "a \<in> set found"
    with l show ?thesis by (auto simp: answered_def)
  qed (use run_step.IH [of a] answered_mono [of ls l] in blast)+
qed

text \<open>The instants that calls store are taken after their lookups were answered.\<close>

definition stamped :: "(nat \<times> resolve_event \<times> action list) list \<Rightarrow> instant \<Rightarrow> bool" where
  "stamped ls r \<longleftrightarrow>
     (\<exists>ls1 k a t ls2. ls = ls1 @ (k, At r, []) # ls2 \<and> (k, Answer a, t) \<in> set ls1)"

lemma stamped_mono: "stamped ls r \<Longrightarrow> stamped (ls @ [l]) r"
  unfolding stamped_def by (metis append.assoc append_Cons)

lemma stamped_last: "(k, Answer a, t) \<in> set ls \<Longrightarrow> stamped (ls @ [(k, At r, [])]) r"
  unfolding stamped_def by blast

fun pc_stamped :: "(nat \<times> resolve_event \<times> action list) list \<Rightarrow> nat \<Rightarrow> resolve_pc \<Rightarrow> bool" where
  "pc_stamped ls k (R_Ttl r) = stamped ls r"
| "pc_stamped ls k (R_Err_Time e) = (\<exists>a t. (k, Answer a, t) \<in> set ls)"
| "pc_stamped ls k (R_Ok_Addresses as) = (\<exists>a t. (k, Answer a, t) \<in> set ls)"
| "pc_stamped ls k (R_Ok_Time as) = (\<exists>a t. (k, Answer a, t) \<in> set ls)"
| "pc_stamped ls k pc = True"

lemma pc_stamped_mono: "pc_stamped ls k pc \<Longrightarrow> pc_stamped (ls @ [l]) k pc"
  by (cases "(ls, k, pc)" rule: pc_stamped.cases) (auto intro: stamped_mono)

definition cache_stamped :: "(nat \<times> resolve_event \<times> action list) list \<Rightarrow> upstream_address \<Rightarrow> bool" where
  "cache_stamped ls ua \<longleftrightarrow> (\<forall>r. ua_time ua = Some r \<longrightarrow> stamped ls r) \<and>
     (\<forall>l. ua_ttl ua = Some l \<longrightarrow> l \<le> success_ttl)"

lemma error_before_success [simp]: "error_ttl \<le> success_ttl"
  by (simp add: error_ttl_def success_ttl_def)

lemma resolve_step_stamped:
  assumes "resolve_step mode ua pc ev = Some (ua', pc', t)"
    and "cache_stamped ls ua" and "pc_stamped ls k pc"
  shows "cache_stamped (ls @ [(k, ev, t)]) ua' \<and> pc_stamped (ls @ [(k, ev, t)]) k pc'"
  using assms
  by (elim resolve_step_cases)
    (auto simp: cache_stamped_def intro: stamped_mono stamped_last split: if_splits option.splits)

lemma calls_stamped:
  assumes "run (calls_step mode) (upstream_address_new host, replicate n R_Start) ls st"
  shows "cache_stamped ls (fst st) \<and> (\<forall>k < n. pc_stamped ls k (snd st ! k))"
  using assms
proof (induction rule: run.induct)
  case run_refl
  then show ?case by (simp add: cache_stamped_def upstream_address_new_def)
next
  case (run_step ls st1 l st2)
  obtain j ev t where l: "l = (j, ev, t)" by (cases l) auto
  with run_step.hyps(2) obtain pc' where j: "j < length (snd st1)" "snd st2 = (snd st1)[j := pc']"
    and step: "resolve_step mode (fst st1) (snd st1 ! j) ev = Some (fst st2, pc', t)"
    by (auto simp: calls_step_iff)
  have "length (snd st1) = n" using calls_length [OF run_step.hyps(1)] by simp
  with resolve_step_stamped [OF step, of ls j] run_step.IH j l show ?case
    by (auto simp: nth_list_update intro: pc_stamped_mono)
qed

text \<open>How many steps a call has left at most.\<close>

fun pc_steps :: "resolve_pc \<Rightarrow> nat" where
  "pc_steps R_Start = 7"
| "pc_steps R_Time = 6"
| "pc_steps (R_Ttl r) = 5"
| "pc_steps R_Hit = 1"
| "pc_steps R_Lookup = 4"
| "pc_steps (R_Err_Time e) = 2"
| "pc_steps (R_Err_Ttl e) = 1"
| "pc_steps (R_Ok_Addresses as) = 3"
| "pc_steps (R_Ok_Time as) = 2"
| "pc_steps (R_Ok_Ttl as) = 1"
| "pc_steps (R_Return r) = 0"

lemma resolve_step_progress:
  "resolve_step mode ua pc ev = Some (ua', pc', t) \<Longrightarrow> pc_steps pc' < pc_steps pc"
  by (elim resolve_step_cases) (auto split: if_splits option.splits)

lemma resolve_step_enabled:
  "(\<forall>r. pc \<noteq> R_Return r) \<Longrightarrow> \<exists>ev. resolve_step mode ua pc ev \<noteq> None"
  by (cases pc) (simp_all add: resolve_event_ex del: not_None_eq)

lemma calls_progress:
  assumes "run (calls_step mode) (ua0, replicate n R_Start) ls st" and "k < n"
  shows "length (filter (\<lambda>(j, ev, t). j = k) ls) + pc_steps (snd st ! k) \<le> 7"
  using assms(1)
proof (induction rule: run.induct)
  case run_refl
  with assms(2) show ?case by simp
next
  case (run_step ls st1 l st2)
  obtain j ev t where l: "l = (j, ev, t)" by (cases l) auto
  with run_step.hyps(2) run_step.IH show ?case
    by (auto simp: calls_step_iff nth_list_update dest!: resolve_step_progress)
qed

section \<open>Properties\<close>

text \<open>
  C22. A call that no other interrupts is one step: among calls in any state, the results, caches
  and lookups with which a new call can return by its own moves alone are exactly those of the
  function \<open>resolve\<close>, for some clock and some answer of the resolver.
\<close>

theorem uninterrupted_call_is_resolve:
  assumes "j < length pcs" and "pcs ! j = R_Start"
  shows "(\<exists>ls. run (calls_step mode) (ua, pcs) ls (ua', pcs[j := R_Return r]) \<and>
       (\<forall>l \<in> set ls. fst l = j) \<and> concat (map (\<lambda>(i, ev, t). t) ls) = t) \<longleftrightarrow>
    (\<exists>e. resolve ua mode e = (r, ua', t))"
  unfolding returns_Start [symmetric]
proof
  assume "\<exists>ls. run (calls_step mode) (ua, pcs) ls (ua', pcs[j := R_Return r]) \<and>
       (\<forall>l \<in> set ls. fst l = j) \<and> concat (map (\<lambda>(i, ev, t). t) ls) = t"
  then obtain ls where ls: "run (calls_step mode) (ua, pcs) ls (ua', pcs[j := R_Return r])"
    "\<forall>l \<in> set ls. fst l = j" "concat (map (\<lambda>(i, ev, t). t) ls) = t" by blast
  from run_returns [OF ls(1,2), of r ua' "[]"] ls(3) assms show "returns mode ua R_Start (r, ua', t)" by simp
next
  assume "returns mode ua R_Start (r, ua', t)"
  from returns_run [OF this assms] show "\<exists>ls. run (calls_step mode) (ua, pcs) ls (ua', pcs[j := R_Return r]) \<and>
       (\<forall>l \<in> set ls. fst l = j) \<and> concat (map (\<lambda>(i, ev, t). t) ls) = t" .
qed

text \<open>
  However many calls overlap on one cache, and however they are interleaved, whatever a call
  returns has passed the filter of the upstream's mode, and every address in it was in the cache
  at the beginning or in an answer of the resolver to one of the calls.
\<close>

lemma overlapping_calls_return_allowed_answers:
  assumes "run (calls_step mode) (ua0, replicate n R_Start) ls (ua, pcs)" and "holds_mode mode ua0"
    and "R_Return (Inr as) \<in> set pcs"
  shows "list_all (allowed mode) as \<and> set as \<subseteq> set (ua_resolved ua0) \<union> answered ls"
  using calls_addresses [OF assms(1,2)] assms(3) by (fastforce simp: list_all_iff)

text \<open>
  C24. When calls overlap, a call still takes the cached addresses only if some call has finished
  a lookup less than 60 s before: the instant it compares with was stored by a call that had been
  answered. (The cached addresses may be older, since that lookup may have failed.)
\<close>

theorem cache_hit_follows_a_recent_lookup:
  assumes "run (calls_step mode) (upstream_address_new host, replicate n R_Start) ls st"
    and "calls_step mode st (j, At now, t) (ua', pcs')" and "pcs' ! j = R_Hit"
  shows "\<exists>r ls1 k answer t' ls2. ls = ls1 @ (k, At r, []) # ls2 \<and> (k, Answer answer, t') \<in> set ls1 \<and>
    now < r + from_secs 60"
proof -
  obtain r l where r: "snd st ! j = R_Ttl r" "ua_ttl (fst st) = Some l" "elapsed r now < l"
    using assms(2,3) by (auto simp: calls_step_iff elim!: resolve_step_cases split: if_splits option.splits)
  have "j < n" using assms(2) calls_length [OF assms(1)] by (simp add: calls_step_iff)
  with calls_stamped [OF assms(1)] r have "stamped ls r" "l \<le> success_ttl"
    by (auto simp: cache_stamped_def)
  with r(3) show ?thesis by (fastforce simp: stamped_def elapsed_def success_ttl_def)
qed

text \<open>
  C30. Overlapping calls cannot starve or block each other: whatever the others do, a call has
  returned after at most seven of its own moves, and until it has returned its next move is
  possible.
\<close>

theorem overlapping_calls_return:
  assumes "run (calls_step mode) (ua0, replicate n R_Start) ls st" and "k < n"
  shows "length (filter (\<lambda>(j, ev, t). j = k) ls) \<le> 7 \<and>
    ((\<exists>r. snd st ! k = R_Return r) \<or> (\<exists>ev t st'. calls_step mode st (k, ev, t) st'))"
proof -
  have k: "k < length (snd st)" using calls_length [OF assms(1)] assms(2) by simp
  have "\<exists>ev t st'. calls_step mode st (k, ev, t) st'" if "\<forall>r. snd st ! k \<noteq> R_Return r"
  proof -
    from resolve_step_enabled [OF that] obtain ev ua' pc' t
      where "resolve_step mode (fst st) (snd st ! k) ev = Some (ua', pc', t)" by (metis not_None_eq surj_pair)
    with k have "calls_step mode st (k, ev, t) (ua', (snd st)[k := pc'])" by (simp add: calls_step_iff)
    then show ?thesis by blast
  qed
  with calls_progress [OF assms] show ?thesis by auto
qed

text \<open>
  A call can return an empty list of addresses out of a cache that it has just found filled
  and valid, without any lookup of its own: between its checks and its read, another call sees
  the entry expire and replaces it by an answer without an address of the mode. No uninterrupted
  call does this.
\<close>

lemma overtaken_call_returns_no_addresses:
  assumes "is_resolved ua" and "is_valid ua now" and "\<not> is_valid ua later" and "mode_filter mode found = []"
  shows "\<exists>ls ua'. run (calls_step mode) (ua, [R_Start, R_Start]) ls (ua', [R_Return (Inr []), R_Ok_Time []]) \<and>
    (\<forall>(j, ev, t) \<in> set ls. j = 0 \<longrightarrow> t = [])"
proof -
  obtain r l where ua: "ua_time ua = Some r" "ua_ttl ua = Some l" "elapsed r now < l" "\<not> elapsed r later < l"
    using assms(2,3) by (auto simp: is_valid_def split: option.splits)
  let ?ls = "[(0, Go, []), (0, Go, []), (0, At now, []), (1, Go, []), (1, Go, []),
    (1, At later, [Lookup (ua_address ua)]), (1, Answer (Inr found), []), (1, Go, []), (0, Go, [])]"
  have "calls_run mode (ua, [R_Start, R_Start]) (map (\<lambda>(j, ev, t). (j, ev)) ?ls) =
      Some (?ls, ua\<lparr>ua_resolved := []\<rparr>, [R_Return (Inr []), R_Ok_Time []])"
    using assms ua by simp
  from calls_run_run [OF this] show ?thesis by (intro exI [of _ ?ls] exI conjI) auto
qed

section \<open>Witnesses\<close>

theorem uninterrupted_call_is_resolve_witness:
  "\<exists>ls. run (calls_step Ipv4) (ua_example, [R_Start]) ls (ua_example, [R_Return (Inr [up4])])"
  using uninterrupted_call_is_resolve [of 0 "[R_Start]" Ipv4 ua_example ua_example "Inr [up4]" "[]"]
    resolve_hit [of ua_example "dns_up 6" Ipv4]
  by (auto simp: ua_example_def dns_up_def is_resolved_def is_valid_def elapsed_def success_ttl_def)

definition calls_ex :: "(nat \<times> resolve_event) list" where
  "calls_ex = [(0, Go), (1, Go), (1, Answer (Inr [up6, up4])), (1, Go), (1, At 7), (1, Go),
     (2, Go), (2, Go)]"

definition cache_ex :: upstream_address where
  "cache_ex = \<lparr>ua_address = ''h:80'', ua_resolved = [up4], ua_time = Some 7, ua_ttl = Some success_ttl\<rparr>"

lemma calls_ex_run:
  obtains ls where "run (calls_step Ipv4) (upstream_address_new ''h:80'', replicate 3 R_Start) ls
     (cache_ex, [R_Lookup, R_Return (Inr [up4]), R_Ttl 7])"
proof -
  have "map_option snd (calls_run Ipv4 (upstream_address_new ''h:80'', replicate 3 R_Start) calls_ex) =
      Some (cache_ex, [R_Lookup, R_Return (Inr [up4]), R_Ttl 7])"
    by (simp add: calls_ex_def cache_ex_def upstream_address_new_def is_resolved_def eval_nat_numeral
        up4_def up6_def)
  then obtain ls where "calls_run Ipv4 (upstream_address_new ''h:80'', replicate 3 R_Start) calls_ex =
      Some (ls, cache_ex, [R_Lookup, R_Return (Inr [up4]), R_Ttl 7])" by auto
  from that [OF calls_run_run [OF this]] show ?thesis .
qed

theorem cache_hit_follows_a_recent_lookup_witness:
  "\<exists>ls r ls1 k answer t ls2. run (calls_step Ipv4) (upstream_address_new ''h:80'', replicate 3 R_Start) ls
       (cache_ex, [R_Lookup, R_Return (Inr [up4]), R_Ttl 7]) \<and>
     ls = ls1 @ (k, At r, []) # ls2 \<and> (k, Answer answer, t) \<in> set ls1 \<and> 8 < r + from_secs 60"
proof -
  obtain ls where ls: "run (calls_step Ipv4) (upstream_address_new ''h:80'', replicate 3 R_Start) ls
     (cache_ex, [R_Lookup, R_Return (Inr [up4]), R_Ttl 7])" by (rule calls_ex_run)
  moreover have "calls_step Ipv4 (cache_ex, [R_Lookup, R_Return (Inr [up4]), R_Ttl 7]) (2, At 8, [])
      (cache_ex, [R_Lookup, R_Return (Inr [up4]), R_Hit])"
    by (simp add: calls_step_iff cache_ex_def elapsed_def success_ttl_def)
  from cache_hit_follows_a_recent_lookup [OF ls this] have
    "\<exists>r ls1 k answer t' ls2. ls = ls1 @ (k, At r, []) # ls2 \<and> (k, Answer answer, t') \<in> set ls1 \<and>
      8 < r + from_secs 60" by simp
  ultimately show ?thesis by blast
qed

theorem overlapping_calls_return_witness:
  "\<exists>ev t st'. calls_step Ipv4 (cache_ex, [R_Lookup, R_Return (Inr [up4]), R_Ttl 7]) (2, ev, t) st'"
proof -
  obtain ls where "run (calls_step Ipv4) (upstream_address_new ''h:80'', replicate 3 R_Start) ls
     (cache_ex, [R_Lookup, R_Return (Inr [up4]), R_Ttl 7])" by (rule calls_ex_run)
  from overlapping_calls_return [OF this, of 2] show ?thesis by simp
qed

end
