(* ===== verification/Connection.thy ===== *)
theory Connection
  imports Tcp_Accept Resolve_Calls
begin

text \<open>
  One connection task between its awaits: \<open>accept\<close> of \<open>src/servers/protocol/tcp.rs\<close> with all that it
  calls, as a machine that takes one event at a time.

  \<open>accept\<close> of \<open>Tcp_Accept\<close> is a function of everything a connection will ever be answered. Here
  a connection is a state, \<open>conn_step\<close> gives the next state for the next answer, and between two
  steps of one connection any other may move. What connections share is the upstream map with its
  address caches; a connection touches it in the steps of \<open>resolve\<close> only. The lemmas show what
  every step keeps: the upstreams but for their caches, the upstream that a connection was routed
  to, and the family of the addresses it holds; and that a connection can always come to its end.
  \<open>Connection_Accept\<close> relates the machine to \<open>accept\<close>, so that what is proved about \<open>accept\<close> holds for
  connections that run side by side.
\<close>

section \<open>The states of a connection\<close>

text \<open>What does not change while the program runs: the log level, the environment, the tables.\<close>

record host_env =
  he_info_enabled :: bool
  he_vars :: env_vars
  he_alnum :: "nat \<Rightarrow> bool"

text \<open>A connection that has been routed to a proxy upstream: its name, its protocol, and the \<open>via\<close>.\<close>

record tunnel =
  tn_key :: string
  tn_protocol :: string
  tn_via :: via_upstream
  tn_target :: "string option"

text \<open>
  Where a connection task stands: spawned; at the await of \<open>peek\<close>; in \<open>io::copy\<close>; in \<open>resolve\<close>; at
  the await of the connection attempt; in the write loop and in the read loop of the handshake;
  in the relay; returned from \<open>accept\<close>.
\<close>

datatype conn_state =
    C_New
  | C_Peek
  | C_Echo
  | C_Resolve tunnel resolve_pc
  | C_Connect tunnel "sock_addr list"
  | C_Write tunnel bytes nat
  | C_Read tunnel bytes
  | C_Relay tunnel relay_state
  | C_End "unit outcome"

text \<open>An answer of the world outside to the call at which a connection waits.\<close>

datatype conn_event =
    E_Peer "io_error + sock_addr"
  | E_Peek "io_error + bytes"
  | E_Echo echo_event
  | E_Resolve resolve_event
  | E_Connect connect_result "io_error + unit" "io_error + unit"
  | E_Write write_event
  | E_Read read_event
  | E_Relay relay_event

section \<open>The steps of a connection\<close>

text \<open>The beginning of \<open>Upstream::process\<close>, and how \<open>accept\<close> gets there from the server names.\<close>

definition enter_upstream ::
  "string \<Rightarrow> via_upstream \<Rightarrow> string option \<Rightarrow> upstream \<Rightarrow> conn_state \<times> action list" where
  "enter_upstream name via connect_target upstream =
     (case upstream of
        Ban \<Rightarrow> (C_End (Ret ()), [Shutdown_Client])
      | Echo \<Rightarrow> (C_Echo, [])
      | Health metrics \<Rightarrow> (C_End (Ret ()), [Serve_Http])
      | Proxy config \<Rightarrow>
          if pu_protocol config \<notin> {''tcp4'', ''tcp6'', ''tcp''} then (C_End (Ret ()), [])
          else (C_Resolve \<lparr>tn_key = name, tn_protocol = pu_protocol config, tn_via = via,
                  tn_target = connect_target\<rparr> R_Start, []))"

definition enter_process :: "proxy \<Rightarrow> string list \<Rightarrow> conn_state \<times> action list" where
  "enter_process proxy snis =
     (case accept_plan proxy snis of
        Inl e \<Rightarrow> (C_End (Fail e), [])
      | Inr ((name, upstream), via, connect_target) \<Rightarrow> enter_upstream name via connect_target upstream)"

text \<open>Behind \<open>connect_upstream\<close>: the rest of \<open>ProxyToUpstream::proxy\<close> up to its next await.\<close>

definition enter_write :: "tunnel \<Rightarrow> bytes \<Rightarrow> nat \<Rightarrow> conn_state" where
  "enter_write tn buf written =
     (if written < length buf then C_Write tn buf written else C_Read tn [])"

definition enter_tunnel ::
  "host_env \<Rightarrow> tunnel \<Rightarrow> io_error + unit \<Rightarrow> io_error + unit \<Rightarrow> conn_state" where
  "enter_tunnel h tn outbound_nodelay inbound_nodelay =
     (case (outbound_nodelay, inbound_nodelay) of
        (Inr _, Inr _) \<Rightarrow>
          (case tn_target tn of
             None \<Rightarrow> C_Relay tn relay_new
           | Some target \<Rightarrow>
               (case connect_request (he_alnum h) (he_vars h) target (via_headers (tn_via tn)) of
                  Inl e \<Rightarrow> C_End (Ret ())
                | Inr buf \<Rightarrow> enter_write tn buf 0))
      | _ \<Rightarrow> C_End (Ret ()))"

text \<open>An iteration of the write loop, and one of the read loop with what follows it.\<close>

definition step_write :: "tunnel \<Rightarrow> bytes \<Rightarrow> nat \<Rightarrow> write_event \<Rightarrow> conn_state \<times> action list" where
  "step_write tn buf written ev =
     (case ev of
        Writable_Err e \<Rightarrow> (C_End (Ret ()), [])
      | Try_Write n \<Rightarrow>
          (let k = min n (length buf - written) in
           if k = 0 then (C_Read tn [], [])
           else (enter_write tn buf (written + k), [Up_Write (take k (drop written buf))]))
      | Write_Err e \<Rightarrow>
          if err_kind e = WouldBlock then (C_Write tn buf written, []) else (C_End (Ret ()), []))"

definition step_read :: "tunnel \<Rightarrow> bytes \<Rightarrow> read_event \<Rightarrow> conn_state \<times> action list" where
  "step_read tn acc ev =
     (case ev of
        Readable_Err e \<Rightarrow> (C_End (Ret ()), [])
      | Try_Read avail \<Rightarrow>
          (let d = take (inbufs_len - length acc) avail in
           if d = [] then (C_End (Ret ()), [])
           else
             (if has_blank_line (acc @ d) then
                (case parse_connect_status (acc @ d) of
                   Inl e \<Rightarrow> C_End (Ret ())
                 | Inr status \<Rightarrow>
                     if 200 \<le> status \<and> status \<le> 299 then C_Relay tn relay_new else C_End (Ret ()))
              else if inbufs_len \<le> length (acc @ d) then C_End (Ret ())
              else C_Read tn (acc @ d), [Up_Read d]))
      | Read_Err e \<Rightarrow>
          if err_kind e = WouldBlock then (C_Read tn acc, []) else (C_End (Ret ()), []))"

definition step_resolve ::
  "tunnel \<Rightarrow> resolve_pc \<Rightarrow> upstream_map \<Rightarrow> resolve_event \<Rightarrow>
     (upstream_map \<times> conn_state \<times> action list) option" where
  "step_resolve tn pc m ev =
     (case hm_get m (tn_key tn) of
        Some (Proxy config) \<Rightarrow>
          (case resolve_step (mode_from_str (tn_protocol tn)) (pu_addresses config) pc ev of
             None \<Rightarrow> None
           | Some (addresses, pc', t) \<Rightarrow>
               Some (hm_insert (tn_key tn) (Proxy (config\<lparr>pu_addresses := addresses\<rparr>)) m,
                 (case pc' of
                    R_Return (Inl e) \<Rightarrow> (C_End (Ret ()), t)
                  | R_Return (Inr as) \<Rightarrow>
                      (C_Connect tn as, t @ [Connect as (via_connect_timeout (tn_via tn))])
                  | _ \<Rightarrow> (C_Resolve tn pc', t))))
      | _ \<Rightarrow> None)"

text \<open>The whole task; no step where the event does not answer the call it waits at.\<close>

definition step_new ::
  "host_env \<Rightarrow> proxy \<Rightarrow> io_error + sock_addr \<Rightarrow> conn_state \<times> action list" where
  "step_new h proxy peer =
     (case (\<not> is_health_server proxy \<and> he_info_enabled h, peer) of
        (True, Inl e) \<Rightarrow> (C_End (Fail (Boxed_Io e)), [])
      | _ \<Rightarrow> if p_tls proxy then (C_Peek, []) else enter_process proxy [])"

definition step_peek ::
  "'hdr tls_parser \<Rightarrow> proxy \<Rightarrow> io_error + bytes \<Rightarrow> conn_state \<times> action list" where
  "step_peek tp proxy r =
     (case r of
        Inl e \<Rightarrow> (C_End (Fail (Boxed_Io e)), [])
      | Inr d \<Rightarrow> enter_process proxy (get_sni tp (peek_into d)))"

definition step_echo :: "echo_event \<Rightarrow> conn_state \<times> action list" where
  "step_echo ev =
     (case ev of
        Echo_Written b \<Rightarrow> (C_Echo, [To_Client b])
      | Echo_Done r \<Rightarrow> (C_End (Ret ()), [Shutdown_Client]))"

definition step_connect ::
  "host_env \<Rightarrow> tunnel \<Rightarrow> connect_result \<Rightarrow> io_error + unit \<Rightarrow> io_error + unit \<Rightarrow> conn_state \<times> action list" where
  "step_connect h tn r outbound_nodelay inbound_nodelay =
     (case r of
        Connected \<Rightarrow> (enter_tunnel h tn outbound_nodelay inbound_nodelay, [])
      | _ \<Rightarrow> (C_End (Ret ()), []))"

definition step_relay :: "tunnel \<Rightarrow> relay_state \<Rightarrow> relay_event \<Rightarrow> conn_state \<times> action list" where
  "step_relay tn s ev =
     (let (s', t) = relay_step (via_stats_interval (tn_via tn)) s ev in
      (if relay_joined s' then C_End (Ret ()) else C_Relay tn s', t))"

definition conn_step ::
  "host_env \<Rightarrow> 'hdr tls_parser \<Rightarrow> proxy \<Rightarrow> upstream_map \<Rightarrow> conn_state \<Rightarrow> conn_event \<Rightarrow>
     (upstream_map \<times> conn_state \<times> action list) option" where
  "conn_step h tp proxy m st ev =
     (let proxy = proxy\<lparr>p_upstream := m\<rparr> in
      case st of
        C_New \<Rightarrow> (case ev of E_Peer peer \<Rightarrow> Some (m, step_new h proxy peer) | _ \<Rightarrow> None)
      | C_Peek \<Rightarrow> (case ev of E_Peek r \<Rightarrow> Some (m, step_peek tp proxy r) | _ \<Rightarrow> None)
      | C_Echo \<Rightarrow> (case ev of E_Echo e \<Rightarrow> Some (m, step_echo e) | _ \<Rightarrow> None)
      | C_Resolve tn pc \<Rightarrow> (case ev of E_Resolve e \<Rightarrow> step_resolve tn pc m e | _ \<Rightarrow> None)
      | C_Connect tn as \<Rightarrow> (case ev of E_Connect r no ni \<Rightarrow> Some (m, step_connect h tn r no ni) | _ \<Rightarrow> None)
      | C_Write tn buf written \<Rightarrow> (case ev of E_Write e \<Rightarrow> Some (m, step_write tn buf written e) | _ \<Rightarrow> None)
      | C_Read tn acc \<Rightarrow> (case ev of E_Read e \<Rightarrow> Some (m, step_read tn acc e) | _ \<Rightarrow> None)
      | C_Relay tn s \<Rightarrow> (case ev of E_Relay e \<Rightarrow> Some (m, step_relay tn s e) | _ \<Rightarrow> None)
      | C_End r \<Rightarrow> None)"

text \<open>The cases of a step, one for each kind of state.\<close>

lemma conn_step_cases:
  assumes "conn_step h tp proxy m st ev = Some (m', st', t)"
  obtains (at_new) peer where "st = C_New" "ev = E_Peer peer" "m' = m"
      "step_new h (proxy\<lparr>p_upstream := m\<rparr>) peer = (st', t)"
    | (at_peek) r where "st = C_Peek" "ev = E_Peek r" "m' = m"
      "step_peek tp (proxy\<lparr>p_upstream := m\<rparr>) r = (st', t)"
    | (at_echo) e where "st = C_Echo" "ev = E_Echo e" "m' = m" "step_echo e = (st', t)"
    | (at_resolve) tn pc e where "st = C_Resolve tn pc" "ev = E_Resolve e" "step_resolve tn pc m e = Some (m', st', t)"
    | (at_connect) tn as r no ni where "st = C_Connect tn as" "ev = E_Connect r no ni" "m' = m"
      "step_connect h tn r no ni = (st', t)"
    | (at_write) tn buf written e where "st = C_Write tn buf written" "ev = E_Write e" "m' = m"
      "step_write tn buf written e = (st', t)"
    | (at_read) tn acc e where "st = C_Read tn acc" "ev = E_Read e" "m' = m" "step_read tn acc e = (st', t)"
    | (at_relay) tn s e where "st = C_Relay tn s" "ev = E_Relay e" "m' = m" "step_relay tn s e = (st', t)"
  using assms unfolding conn_step_def Let_def
  by (cases st; cases ev) auto

section \<open>What a connection shares\<close>

lemma step_resolve_Some:
  assumes "step_resolve tn pc m ev = Some (m', st', t)"
  obtains config addresses pc' t' where "hm_get m (tn_key tn) = Some (Proxy config)"
    "resolve_step (mode_from_str (tn_protocol tn)) (pu_addresses config) pc ev = Some (addresses, pc', t')"
    "m' = hm_insert (tn_key tn) (Proxy (config\<lparr>pu_addresses := addresses\<rparr>)) m"
    "(\<exists>e. pc' = R_Return (Inl e) \<and> st' = C_End (Ret ()) \<and> t = t') \<or>
     (\<exists>as. pc' = R_Return (Inr as) \<and> st' = C_Connect tn as \<and>
        t = t' @ [Connect as (via_connect_timeout (tn_via tn))]) \<or>
     ((\<forall>r. pc' \<noteq> R_Return r) \<and> st' = C_Resolve tn pc' \<and> t = t')"
  using assms unfolding step_resolve_def
  by (auto split: option.splits upstream.splits resolve_pc.splits sum.splits)

text \<open>A step keeps every upstream but for what its cache holds.\<close>

lemma hm_insert_same_upstreams:
  assumes "hm_get m k = Some u" and "upstream_key v = upstream_key u"
  shows "same_upstreams (hm_insert k v m) m"
  using assms hm_keys_insert_present [of m k v] by (simp add: same_upstreams_def)

lemma conn_step_same_upstreams:
  assumes "conn_step h tp proxy m st ev = Some (m', st', t)"
  shows "same_upstreams m' m"
  using assms
proof (cases rule: conn_step_cases)
  case (at_resolve tn pc e)
  from at_resolve(3) show ?thesis
    by (rule step_resolve_Some) (auto intro!: hm_insert_same_upstreams dest: resolve_step_address)
qed simp_all

text \<open>
  What a connection knows of its upstream, and what that upstream's mode makes of the addresses
  it holds in its hands.
\<close>

fun conn_bound :: "upstream_map \<Rightarrow> conn_state \<Rightarrow> bool" where
  "conn_bound m (C_Resolve tn pc) \<longleftrightarrow> known_protocol (tn_protocol tn) \<and> (\<forall>r. pc \<noteq> R_Return r) \<and>
     (\<exists>config. hm_get m (tn_key tn) = Some (Proxy config) \<and> pu_protocol config = tn_protocol tn)"
| "conn_bound m (C_Connect tn as) \<longleftrightarrow> known_protocol (tn_protocol tn) \<and>
     (\<exists>config. hm_get m (tn_key tn) = Some (Proxy config) \<and> pu_protocol config = tn_protocol tn)"
| "conn_bound m st \<longleftrightarrow> True"

fun conn_ok :: "upstream_map \<Rightarrow> conn_state \<Rightarrow> bool" where
  "conn_ok m (C_Resolve tn pc) \<longleftrightarrow> conn_bound m (C_Resolve tn pc) \<and>
     list_all (allowed (mode_from_str (tn_protocol tn))) (pc_addresses pc)"
| "conn_ok m (C_Connect tn as) \<longleftrightarrow> list_all (allowed (mode_from_str (tn_protocol tn))) as"
| "conn_ok m st \<longleftrightarrow> True"

lemma upstream_key_Proxy:
  "upstream_key u = upstream_key (Proxy pu) \<longleftrightarrow>
     (\<exists>pv. u = Proxy pv \<and> pu_protocol pv = pu_protocol pu \<and> pu_addr pv = pu_addr pu \<and>
        ua_address (pu_addresses pv) = ua_address (pu_addresses pu))"
proof (cases u)
  case (Proxy pv)
  then show ?thesis by (cases pv; cases pu) (auto simp: upstream_address_new_def)
qed simp_all

lemma same_upstreams_Proxy:
  assumes "same_upstreams m m'" and "hm_get m k = Some (Proxy pu)"
  shows "\<exists>pv. hm_get m' k = Some (Proxy pv) \<and> pu_protocol pv = pu_protocol pu \<and> pu_addr pv = pu_addr pu \<and>
    ua_address (pu_addresses pv) = ua_address (pu_addresses pu)"
proof -
  have "map_option upstream_key (hm_get m' k) = Some (upstream_key (Proxy pu))"
    using assms by (metis same_upstreams_def option.map(2))
  then obtain u where "hm_get m' k = Some u" "upstream_key u = upstream_key (Proxy pu)" by auto
  then show ?thesis by (auto simp: upstream_key_Proxy simp del: upstream_key.simps)
qed

lemma same_upstreams_sym: "same_upstreams m m' \<Longrightarrow> same_upstreams m' m"
  by (simp add: same_upstreams_def)

lemma conn_bound_same: "same_upstreams m' m \<Longrightarrow> conn_bound m st \<Longrightarrow> conn_bound m' st"
  by (cases st) (use same_upstreams_Proxy same_upstreams_sym in \<open>fastforce+\<close>)

lemma conn_ok_same: "same_upstreams m' m \<Longrightarrow> conn_ok m st \<Longrightarrow> conn_ok m' st"
  by (cases st) (use conn_bound_same in \<open>simp_all del: conn_bound.simps\<close>)

lemma upstreams_ok_insert: "upstreams_ok m \<Longrightarrow> upstream_ok u \<Longrightarrow> upstreams_ok (hm_insert k u m)"
  using hm_values_insert [of k u m] by (auto simp: upstreams_ok_def)

lemma holds_mode_list: "holds_mode mode ua \<longleftrightarrow> (\<forall>a \<in> set (ua_resolved ua). allowed mode a)"
  by (simp add: holds_mode_def list_all_iff)

lemma enter_process_bound: "enter_process (proxy\<lparr>p_upstream := m\<rparr>) snis = (st', t) \<Longrightarrow> conn_bound m st'"
  by (auto simp: enter_process_def enter_upstream_def known_protocol_def dest!: accept_plan_Inr
      split: sum.splits prod.splits upstream.splits if_splits)

lemma step_resolve_bound:
  assumes "step_resolve tn pc m ev = Some (m', st', t)" and "conn_bound m (C_Resolve tn pc)"
  shows "conn_bound m' st'"
  using assms(1) by (rule step_resolve_Some) (use assms(2) in auto)

lemma conn_step_bound:
  assumes "conn_step h tp proxy m st ev = Some (m', st', t)" and "conn_bound m st"
  shows "conn_bound m' st'"
  using assms(1)
proof (cases rule: conn_step_cases)
  case (at_new peer)
  then show ?thesis
    by (auto simp: step_new_def split: bool.splits sum.splits if_splits dest: enter_process_bound)
next
  case (at_peek r)
  then show ?thesis by (auto simp: step_peek_def split: sum.splits dest: enter_process_bound)
next
  case (at_resolve tn pc e)
  with step_resolve_bound [OF at_resolve(3)] assms(2) show ?thesis by simp
qed (auto simp: step_echo_def step_connect_def step_write_def step_read_def step_relay_def
    enter_tunnel_def enter_write_def case_prod_unfold Let_def
    split: echo_event.splits option.splits connect_result.splits write_event.splits
      read_event.splits if_splits sum.splits)

lemma enter_process_ok: "enter_process (proxy\<lparr>p_upstream := m\<rparr>) snis = (st', t) \<Longrightarrow> conn_ok m st'"
  by (auto simp: enter_process_def enter_upstream_def known_protocol_def dest!: accept_plan_Inr
      split: sum.splits prod.splits upstream.splits if_splits)

lemma enter_tunnel_ok: "conn_ok m (enter_tunnel h tn no ni)"
  by (auto simp: enter_tunnel_def enter_write_def split: sum.splits option.splits)

lemma step_resolve_ok:
  assumes "step_resolve tn pc m ev = Some (m', st', t)" and "upstreams_ok m"
    and "conn_ok m (C_Resolve tn pc)"
  shows "upstreams_ok m' \<and> conn_ok m' st' \<and>
    (\<forall>as d. Connect as d \<in> set t \<longrightarrow> st' = C_Connect tn as \<and> d = via_connect_timeout (tn_via tn))"
  using assms(1)
proof (rule step_resolve_Some)
  fix config addresses pc' t'
  assume get: "hm_get m (tn_key tn) = Some (Proxy config)"
    and step: "resolve_step (mode_from_str (tn_protocol tn)) (pu_addresses config) pc ev = Some (addresses, pc', t')"
    and m': "m' = hm_insert (tn_key tn) (Proxy (config\<lparr>pu_addresses := addresses\<rparr>)) m"
    and st': "(\<exists>e. pc' = R_Return (Inl e) \<and> st' = C_End (Ret ()) \<and> t = t') \<or>
     (\<exists>as. pc' = R_Return (Inr as) \<and> st' = C_Connect tn as \<and>
        t = t' @ [Connect as (via_connect_timeout (tn_via tn))]) \<or>
     ((\<forall>r. pc' \<noteq> R_Return r) \<and> st' = C_Resolve tn pc' \<and> t = t')"
  have proto: "pu_protocol config = tn_protocol tn" using assms(3) get by simp
  have "holds_mode (mode_from_str (tn_protocol tn)) (pu_addresses config)"
    using upstreams_ok_get [OF assms(2) get] proto by simp
  with assms(3) resolve_step_addresses [OF step] have
    "holds_mode (mode_from_str (tn_protocol tn)) addresses"
    "list_all (allowed (mode_from_str (tn_protocol tn))) (pc_addresses pc')"
    by (auto simp: holds_mode_list list_all_iff)
  moreover have "Connect as d \<notin> set t'" for as d
    using step by (elim resolve_step_cases) (auto split: if_splits option.splits)
  ultimately show ?thesis
    using st' assms(2,3) proto by (auto simp: m' intro!: upstreams_ok_insert)
qed

lemma conn_step_ok:
  assumes "conn_step h tp proxy m st ev = Some (m', st', t)" and "upstreams_ok m" and "conn_ok m st"
  shows "upstreams_ok m' \<and> conn_ok m' st'"
  using assms(1)
proof (cases rule: conn_step_cases)
  case (at_new peer)
  with assms(2) show ?thesis
    by (auto simp: step_new_def split: bool.splits sum.splits if_splits dest: enter_process_ok)
next
  case (at_peek r)
  with assms(2) show ?thesis by (auto simp: step_peek_def split: sum.splits dest: enter_process_ok)
next
  case (at_resolve tn pc e)
  with step_resolve_ok [OF at_resolve(3) assms(2)] assms(3) show ?thesis by simp
next
  case (at_connect tn as r no ni)
  with assms(2) show ?thesis
    by (auto simp: step_connect_def enter_tunnel_ok split: connect_result.splits)
next
  case (at_write tn buf written e)
  with assms(2) show ?thesis
    by (auto simp: step_write_def enter_write_def Let_def split: write_event.splits if_splits)
next
  case (at_read tn acc e)
  with assms(2) show ?thesis
    by (auto simp: step_read_def Let_def split: read_event.splits if_splits sum.splits)
next
  case (at_relay tn s e)
  with assms(2) show ?thesis by (auto simp: step_relay_def case_prod_unfold Let_def)
qed (use assms(2) in \<open>auto simp: step_echo_def split: echo_event.splits\<close>)

lemma relay_step_actions: "a \<in> set (snd (relay_step si s ev)) \<Longrightarrow> \<not> before_relay a"
  by (cases ev) (auto simp: case_prod_unfold Let_def dest!: copy_counted_step_actions split: if_splits)

lemma conn_step_Connect:
  assumes "conn_step h tp proxy m st ev = Some (m', st', t)" and "upstreams_ok m" and "conn_ok m st"
    and "Connect as d \<in> set t"
  shows "\<exists>tn pc. st = C_Resolve tn pc \<and> st' = C_Connect tn as \<and> d = via_connect_timeout (tn_via tn)"
  using assms(1)
proof (cases rule: conn_step_cases)
  case (at_resolve tn pc e)
  with step_resolve_ok [OF at_resolve(3) assms(2)] assms(3,4) show ?thesis by auto
next
  case (at_relay tn s e)
  with assms(4) relay_step_actions [of "Connect as d"] show ?thesis
    by (auto simp: step_relay_def case_prod_unfold Let_def)
qed (use assms(4) in \<open>auto simp: step_new_def step_peek_def step_echo_def step_connect_def step_write_def
    step_read_def enter_process_def enter_upstream_def case_prod_unfold Let_def
    split: bool.splits sum.splits if_splits upstream.splits prod.splits echo_event.splits
      connect_result.splits write_event.splits read_event.splits\<close>)

section \<open>A connection can always end\<close>

text \<open>How far a connection is from its end, if every answer it gets is a failure.\<close>

fun conn_left :: "conn_state \<Rightarrow> nat" where
  "conn_left C_New = 12"
| "conn_left C_Peek = 11"
| "conn_left C_Echo = 1"
| "conn_left (C_Resolve tn pc) = 2 + pc_steps pc"
| "conn_left (C_Connect tn as) = 1"
| "conn_left (C_Write tn buf written) = 1"
| "conn_left (C_Read tn acc) = 1"
| "conn_left (C_Relay tn s) = 1 + (if cp_result (rl_tx s) = None then 1 else 0) +
     (if cp_result (rl_rx s) = None then 1 else 0)"
| "conn_left (C_End r) = 0"

lemma enter_process_left: "conn_left (fst (enter_process proxy snis)) < 11"
  by (auto simp: enter_process_def enter_upstream_def split: sum.splits prod.splits upstream.splits)

lemma conn_can_step:
  assumes "conn_bound m st" and "\<forall>r. st \<noteq> C_End r"
  shows "\<exists>ev m' st' t. conn_step h tp proxy m st ev = Some (m', st', t) \<and> conn_left st' < conn_left st"
proof (cases st)
  case C_New
  let ?p = "proxy\<lparr>p_upstream := m\<rparr>"
  have "conn_left (fst (step_new h ?p (Inr (V4 0 0)))) < 12"
    using enter_process_left [of ?p "[]"] by (auto simp: step_new_def split: bool.split)
  then show ?thesis
    by (intro exI [of _ "E_Peer (Inr (V4 0 0))"] exI [of _ m] exI [of _ "fst (step_new h ?p (Inr (V4 0 0)))"]
        exI [of _ "snd (step_new h ?p (Inr (V4 0 0)))"]) (simp add: C_New conn_step_def Let_def)
next
  case C_Peek
  then show ?thesis
    by (intro exI [of _ "E_Peek (Inl (Io_Error (OtherKind 0) ''''))"] exI [of _ m]
        exI [of _ "C_End (Fail (Boxed_Io (Io_Error (OtherKind 0) '''')))"] exI [of _ "[]"])
      (simp add: conn_step_def step_peek_def)
next
  case C_Echo
  then have "conn_step h tp proxy m st (E_Echo (Echo_Done (Inr 0))) = Some (m, C_End (Ret ()), [Shutdown_Client])"
    by (simp add: conn_step_def step_echo_def)
  with C_Echo show ?thesis by fastforce
next
  case (C_Resolve tn pc)
  with assms(1) obtain config where get: "hm_get m (tn_key tn) = Some (Proxy config)" by auto
  from C_Resolve assms(1) resolve_step_enabled [of pc "mode_from_str (tn_protocol tn)" "pu_addresses config"]
  obtain ev addresses pc' t where
    step: "resolve_step (mode_from_str (tn_protocol tn)) (pu_addresses config) pc ev = Some (addresses, pc', t)"
    by (metis conn_bound.simps(1) option.exhaust surj_pair)
  then have "step_resolve tn pc m ev \<noteq> None"
    using get by (simp add: step_resolve_def)
  then obtain m' st' t' where "step_resolve tn pc m ev = Some (m', st', t')"
    by (metis option.exhaust surj_pair)
  moreover from this have "conn_left st' < conn_left (C_Resolve tn pc)"
    by (rule step_resolve_Some) (auto dest: resolve_step_progress)
  ultimately show ?thesis
    by (intro exI [of _ "E_Resolve ev"] exI) (auto simp: C_Resolve conn_step_def)
next
  case (C_Connect tn as)
  then have "conn_step h tp proxy m st (E_Connect (Connect_Timeout '''') (Inr ()) (Inr ())) = Some (m, C_End (Ret ()), [])"
    by (simp add: conn_step_def step_connect_def)
  with C_Connect show ?thesis by fastforce
next
  case (C_Write tn buf written)
  then have "conn_step h tp proxy m st (E_Write (Writable_Err (Io_Error (OtherKind 0) ''''))) = Some (m, C_End (Ret ()), [])"
    by (simp add: conn_step_def step_write_def)
  with C_Write show ?thesis by fastforce
next
  case (C_Read tn acc)
  then have "conn_step h tp proxy m st (E_Read (Readable_Err (Io_Error (OtherKind 0) ''''))) = Some (m, C_End (Ret ()), [])"
    by (simp add: conn_step_def step_read_def)
  with C_Read show ?thesis by fastforce
next
  case (C_Relay tn s)
  let ?err = "Copy_Read_Err (Io_Error (OtherKind 0) '''')"
  have "conn_left (fst (step_relay tn s (Tx ?err))) < conn_left (C_Relay tn s) \<or>
      conn_left (fst (step_relay tn s (Rx ?err))) < conn_left (C_Relay tn s)"
    by (auto simp: step_relay_def copy_counted_step_def relay_joined_def)
  then obtain ev where "conn_left (fst (step_relay tn s ev)) < conn_left (C_Relay tn s)" by blast
  then show ?thesis
    by (intro exI [of _ "E_Relay ev"] exI [of _ m] exI [of _ "fst (step_relay tn s ev)"]
        exI [of _ "snd (step_relay tn s ev)"]) (simp add: C_Relay conn_step_def)
next
  case (C_End r)
  with assms(2) show ?thesis by blast
qed

end
