(* ===== verification/Connection_Accept.thy ===== *)
theory Connection_Accept
  imports Connection
begin

text \<open>
  A connection task among others does what \<open>accept\<close> does.

  \<open>resume_all\<close> is what a connection in a given state has left to do, as a function of its
  environment; from the beginning, it is \<open>accept\<close>. One step of \<open>Connection\<close> is one unfolding of it. So
  whatever path a connection takes, with the shared caches changing under it between any two of
  its steps, its outcome and its trace are those of \<open>accept\<close> in the environment made of the
  events of the path and of the answer its name lookup has got; only whether the host was looked up
  or found in the cache may differ.
\<close>

section \<open>A connection that moves alone\<close>

text \<open>
  What is left for a connection to do from a state on, as functions of its environment: the
  rests of \<open>relay\<close>, of the loops of the handshake, of \<open>ProxyToUpstream::proxy\<close>, and of \<open>accept\<close>, which
  drops the result of \<open>process\<close>.
\<close>

definition relay_rest :: "tunnel \<Rightarrow> relay_state \<Rightarrow> conn_env \<Rightarrow> (action, unit) io" where
  "relay_rest tn s env =
     (let (s', t) = task_run (relay_step (via_stats_interval (tn_via tn))) s (ce_relay env)
      in (if relay_joined s' then Ret () else Pending, t))"

definition read_rest :: "tunnel \<Rightarrow> bytes \<Rightarrow> conn_env \<Rightarrow> (action, unit) io" where
  "read_rest tn acc env =
     io_bind (read_loop acc (ce_reads env)) (\<lambda>(status, inbufs).
     io_bind (check_status status) (\<lambda>_. relay_rest tn relay_new env))"

definition write_rest :: "tunnel \<Rightarrow> bytes \<Rightarrow> nat \<Rightarrow> conn_env \<Rightarrow> (action, unit) io" where
  "write_rest tn buf written env =
     io_bind (write_loop buf written (ce_writes env)) (\<lambda>_. read_rest tn [] env)"

definition tunnel_rest :: "tunnel \<Rightarrow> conn_env \<Rightarrow> (action, unit) io" where
  "tunnel_rest tn env =
     io_bind (io_try (ce_nodelay_outbound env)) (\<lambda>_.
     io_bind (io_try (ce_nodelay_inbound env)) (\<lambda>_.
     case tn_target tn of
       None \<Rightarrow> relay_rest tn relay_new env
     | Some target \<Rightarrow>
         io_bind (lift_err (connect_request (ce_alnum env) (ce_vars env) target (via_headers (tn_via tn))))
           (\<lambda>buf. write_rest tn buf 0 env)))"

definition connect_rest :: "tunnel \<Rightarrow> sock_addr list \<Rightarrow> conn_env \<Rightarrow> (action, unit) io" where
  "connect_rest tn as env =
     (case ce_connect env as (via_connect_timeout (tn_via tn)) of
        None \<Rightarrow> (Pending, [])
      | Some Connected \<Rightarrow> tunnel_rest tn env
      | Some (Connect_Failed e) \<Rightarrow> io_fail (Boxed_Io e)
      | Some (Connect_Timeout m) \<Rightarrow> io_fail (Proxy_Error m))"

definition dropped :: "(action, 'a) io \<Rightarrow> (action, unit) io" where
  "dropped r = (case fst r of Pending \<Rightarrow> Pending | _ \<Rightarrow> Ret (), snd r)"

text \<open>The answer to a connection's name lookup is kept with its environment.\<close>

definition with_answer :: "io_error + sock_addr list \<Rightarrow> conn_env \<Rightarrow> conn_env" where
  "with_answer r env = env\<lparr>ce_dns := \<lparr>de_now = 0, de_lookup = (\<lambda>_. r), de_done = 0\<rparr>\<rparr>"

definition answer_of :: "conn_env \<Rightarrow> io_error + sock_addr list" where
  "answer_of env = de_lookup (ce_dns env) ''''"

fun resume :: "conn_state \<Rightarrow> conn_env \<Rightarrow> (action, unit) io" where
  "resume C_Echo env = dropped (copy_io (ce_echo env))"
| "resume (C_Resolve tn pc) env =
     (case answer_of env of
        Inl e \<Rightarrow> io_ret ()
      | Inr found \<Rightarrow>
          (let as = mode_filter (mode_from_str (tn_protocol tn)) found in
           io_bind (io_act (Connect as (via_connect_timeout (tn_via tn))))
             (\<lambda>_. dropped (connect_rest tn as env))))"
| "resume (C_Connect tn as) env = dropped (connect_rest tn as env)"
| "resume (C_Write tn buf written) env = dropped (write_rest tn buf written env)"
| "resume (C_Read tn acc) env = dropped (read_rest tn acc env)"
| "resume (C_Relay tn s) env = relay_rest tn s env"
| "resume (C_End r) env = (r, [])"
| "resume st env = (Pending, [])"

definition resume_process :: "proxy \<Rightarrow> string list \<Rightarrow> conn_env \<Rightarrow> (action, unit) io" where
  "resume_process proxy snis env =
     (let (st, t) = enter_process proxy snis in (fst (resume st env), t @ snd (resume st env)))"

definition resume_all ::
  "'hdr tls_parser \<Rightarrow> proxy \<Rightarrow> conn_state \<Rightarrow> conn_env \<Rightarrow> (action, unit) io" where
  "resume_all tp proxy st env =
     (case st of
        C_New \<Rightarrow>
          io_bind (accept_log proxy env) (\<lambda>_.
          io_bind (accept_snis tp proxy env) (\<lambda>snis. resume_process proxy snis env))
      | C_Peek \<Rightarrow>
          (case ce_peek env of
             None \<Rightarrow> (Pending, [])
           | Some r \<Rightarrow> io_bind (io_try r) (\<lambda>d. resume_process proxy (get_sni tp (peek_into d)) env))
      | _ \<Rightarrow> resume st env)"

text \<open>An event, added in front of what a connection will be answered.\<close>

fun observe :: "conn_event \<Rightarrow> conn_env \<Rightarrow> conn_env" where
  "observe (E_Peer r) env = env\<lparr>ce_peer_addr := r\<rparr>"
| "observe (E_Peek r) env = env\<lparr>ce_peek := Some r\<rparr>"
| "observe (E_Echo ev) env = env\<lparr>ce_echo := ev # ce_echo env\<rparr>"
| "observe (E_Resolve ev) env = env"
| "observe (E_Connect r outbound_nodelay inbound_nodelay) env =
     env\<lparr>ce_connect := (\<lambda>_ _. Some r), ce_nodelay_outbound := outbound_nodelay,
       ce_nodelay_inbound := inbound_nodelay\<rparr>"
| "observe (E_Write ev) env = env\<lparr>ce_writes := ev # ce_writes env\<rparr>"
| "observe (E_Read ev) env = env\<lparr>ce_reads := ev # ce_reads env\<rparr>"
| "observe (E_Relay ev) env = env\<lparr>ce_relay := ev # ce_relay env\<rparr>"

definition on_host :: "host_env \<Rightarrow> conn_env \<Rightarrow> bool" where
  "on_host h env \<longleftrightarrow> ce_info_enabled env = he_info_enabled h \<and> ce_vars env = he_vars h \<and>
     ce_alnum env = he_alnum h"

lemma dropped_simps [simp]:
  "dropped (io_fail e) = io_ret ()" "dropped (io_ret a) = io_ret ()" "dropped (Pending, t) = (Pending, t)"
  "dropped (Fail e, t) = (Ret (), t)" "dropped (Ret a, t) = (Ret (), t)"
  by (simp_all add: dropped_def io_ret_def io_fail_def)

lemma dropped_prefix [simp]:
  "dropped (fst m, t @ snd m) = (fst (dropped m), t @ snd (dropped m))"
  "dropped (fst m, a # snd m) = (fst (dropped m), a # snd (dropped m))"
  by (simp_all add: dropped_def)

lemma io_bind_prefix [simp]:
  "io_bind (fst m, a # snd m) f = (fst (io_bind m f), a # snd (io_bind m f))"
  by (cases m; cases "fst m") simp_all

lemma dropped_lift_err: "dropped (io_bind (lift_err r) f) = (case r of Inl e \<Rightarrow> io_ret () | Inr a \<Rightarrow> dropped (f a))"
  by (cases r) simp_all

lemma dropped_relay [simp]: "dropped (relay_rest tn s env) = relay_rest tn s env"
  by (simp add: relay_rest_def dropped_def case_prod_unfold Let_def)

text \<open>A relay that has joined does nothing more.\<close>

lemma relay_step_joined: "relay_joined s \<Longrightarrow> relay_step si s ev = (s, [])"
  by (cases ev; cases s) (auto simp: relay_joined_def copy_counted_step_def)

lemma relay_run_joined: "relay_joined s \<Longrightarrow> task_run (relay_step si) s evs = (s, [])"
  by (induction evs) (simp_all add: task_run_Cons relay_step_joined)

lemma relay_rest_Cons:
  "relay_rest tn s (env\<lparr>ce_relay := ev # ce_relay env\<rparr>) =
     (fst (resume (fst (step_relay tn s ev)) env),
      snd (step_relay tn s ev) @ snd (resume (fst (step_relay tn s ev)) env))"
  by (simp add: relay_rest_def step_relay_def task_run_Cons case_prod_unfold Let_def relay_run_joined)

lemma rests_frame [simp]:
  "relay_rest tn s (env\<lparr>ce_writes := ws\<rparr>) = relay_rest tn s env"
  "relay_rest tn s (env\<lparr>ce_reads := rs\<rparr>) = relay_rest tn s env"
  "relay_rest tn s (env\<lparr>ce_connect := c, ce_nodelay_outbound := no, ce_nodelay_inbound := ni\<rparr>) = relay_rest tn s env"
  "read_rest tn acc (env\<lparr>ce_writes := ws\<rparr>) = read_rest tn acc env"
  "read_rest tn acc (env\<lparr>ce_connect := c, ce_nodelay_outbound := no, ce_nodelay_inbound := ni\<rparr>) = read_rest tn acc env"
  "write_rest tn buf w (env\<lparr>ce_connect := c, ce_nodelay_outbound := no, ce_nodelay_inbound := ni\<rparr>) = write_rest tn buf w env"
  by (simp_all add: relay_rest_def read_rest_def write_rest_def)

lemma read_rest_Cons:
  "dropped (read_rest tn acc (env\<lparr>ce_reads := ev # ce_reads env\<rparr>)) =
     (fst (resume (fst (step_read tn acc ev)) env),
      snd (step_read tn acc ev) @ snd (resume (fst (step_read tn acc ev)) env))"
proof (cases ev)
  case (Try_Read avail)
  let ?d = "take (inbufs_len - length acc) avail"
  show ?thesis
  proof (cases "?d = [] \<or> \<not> has_blank_line (acc @ ?d)")
    case True
    then show ?thesis
      by (auto simp: Try_Read read_rest_def step_read_def Let_def io_ret_def)
  next
    case False
    then show ?thesis
      by (cases "parse_connect_status (acc @ ?d)")
        (auto simp: Try_Read read_rest_def step_read_def Let_def check_status_def io_ret_def)
  qed
qed (auto simp: read_rest_def step_read_def io_ret_def)

lemma write_rest_full: "length buf \<le> written \<Longrightarrow> write_rest tn buf written env = read_rest tn [] env"
  by (cases "ce_writes env") (simp_all add: write_rest_def)

lemma resume_enter_write: "resume (enter_write tn buf written) env = dropped (write_rest tn buf written env)"
  by (simp add: enter_write_def write_rest_full)

lemma write_rest_Cons:
  assumes "written < length buf"
  shows "dropped (write_rest tn buf written (env\<lparr>ce_writes := ev # ce_writes env\<rparr>)) =
     (fst (resume (fst (step_write tn buf written ev)) env),
      snd (step_write tn buf written ev) @ snd (resume (fst (step_write tn buf written ev)) env))"
proof (cases ev)
  case (Try_Write n)
  show ?thesis
  proof (cases "n = 0")
    case False
    with assms have "min n (length buf - written) \<noteq> 0" by simp
    then obtain j where "min n (length buf - written) = Suc j" by (cases "min n (length buf - written)") auto
    with Try_Write assms show ?thesis
      by (simp add: step_write_def Let_def resume_enter_write) (simp add: write_rest_def Let_def)
  qed (use Try_Write assms in \<open>simp add: write_rest_def step_write_def\<close>)
qed (use assms in \<open>auto simp: write_rest_def step_write_def io_ret_def\<close>)

lemma echo_Cons:
  "dropped (copy_io (ev # evs)) =
     (fst (resume (fst (step_echo ev)) (env\<lparr>ce_echo := evs\<rparr>)),
      snd (step_echo ev) @ snd (resume (fst (step_echo ev)) (env\<lparr>ce_echo := evs\<rparr>)))"
proof (cases ev)
  case (Echo_Done r)
  then show ?thesis by (cases r) (simp_all add: step_echo_def dropped_def)
qed (simp add: step_echo_def)

lemma connect_rest_observe:
  assumes "on_host h env"
  shows "dropped (connect_rest tn as (observe (E_Connect r no ni) env)) = resume (fst (step_connect h tn r no ni)) env"
proof (cases r)
  case Connected
  show ?thesis
  proof (cases no; cases ni)
    fix u v assume "no = Inr u" "ni = Inr v"
    with Connected assms show ?thesis
      by (cases "tn_target tn")
        (auto simp: connect_rest_def tunnel_rest_def step_connect_def enter_tunnel_def on_host_def
          dropped_lift_err resume_enter_write io_ret_def split: sum.split)
  qed (use Connected in \<open>simp_all add: connect_rest_def tunnel_rest_def step_connect_def enter_tunnel_def io_ret_def\<close>)
qed (simp_all add: connect_rest_def step_connect_def io_ret_def)

text \<open>
  What is true at an await: the write loop has bytes left to write, so that its slice is within
  the buffer; the read loop has room left and no header end yet; the relay has not joined.
\<close>

fun conn_waits :: "conn_state \<Rightarrow> bool" where
  "conn_waits (C_Write tn buf written) = (written < length buf)"
| "conn_waits (C_Read tn acc) = (length acc < inbufs_len \<and> \<not> has_blank_line acc)"
| "conn_waits (C_Relay tn s) = (\<not> relay_joined s)"
| "conn_waits st = True"

lemma relay_new_waits [simp]: "\<not> relay_joined relay_new"
  by (simp add: relay_joined_def)

lemma enter_write_waits [simp]: "conn_waits (enter_write tn buf written)"
  by (simp add: enter_write_def inbufs_len_def)

lemma enter_process_waits: "conn_waits (fst (enter_process proxy snis))"
  by (auto simp: enter_process_def enter_upstream_def split: sum.splits prod.splits upstream.splits)

lemma conn_step_waits:
  assumes "conn_step h tp proxy m st ev = Some (m', st', t)" and "conn_waits st"
  shows "conn_waits st'"
  using assms(1)
proof (cases rule: conn_step_cases)
  case (at_new peer)
  then show ?thesis using enter_process_waits [of "proxy\<lparr>p_upstream := m\<rparr>" "[]"]
    by (auto simp: step_new_def split: bool.splits sum.splits if_splits)
next
  case (at_peek r)
  show ?thesis
  proof (cases r)
    case (Inr d)
    with at_peek enter_process_waits [of "proxy\<lparr>p_upstream := m\<rparr>" "get_sni tp (peek_into d)"]
    show ?thesis by (simp add: step_peek_def)
  qed (use at_peek in \<open>auto simp: step_peek_def\<close>)
next
  case (at_resolve tn pc e)
  from at_resolve(3) show ?thesis by (rule step_resolve_Some) auto
next
  case (at_connect tn as r no ni)
  then show ?thesis
    by (auto simp: step_connect_def enter_tunnel_def split: connect_result.splits sum.splits option.splits)
next
  case (at_write tn buf written e)
  with assms(2) show ?thesis
    by (auto simp: step_write_def Let_def inbufs_len_def split: write_event.splits if_splits)
next
  case (at_read tn acc e)
  with assms(2) show ?thesis
    by (auto simp: step_read_def Let_def split: read_event.splits if_splits sum.splits)
next
  case (at_relay tn s e)
  then show ?thesis by (auto simp: step_relay_def case_prod_unfold Let_def)
qed (auto simp: step_echo_def split: echo_event.splits)

definition idle_env :: "host_env \<Rightarrow> conn_env" where
  "idle_env h = \<lparr>ce_info_enabled = he_info_enabled h, ce_peer_addr = Inr (V4 0 0), ce_peek = None,
     ce_shutdown = Inr (), ce_echo = [], ce_dns = \<lparr>de_now = 0, de_lookup = (\<lambda>_. Inr []), de_done = 0\<rparr>,
     ce_connect = (\<lambda>_ _. None), ce_nodelay_outbound = Inr (), ce_nodelay_inbound = Inr (),
     ce_writes = [], ce_reads = [], ce_relay = [], ce_vars = he_vars h, ce_alnum = he_alnum h\<rparr>"

text \<open>What a connection will be answered, when it is answered these events.\<close>

definition observed :: "host_env \<Rightarrow> conn_event list \<Rightarrow> conn_env" where
  "observed h evs = foldr observe evs (idle_env h)"

fun conn_outcome :: "conn_state \<Rightarrow> unit outcome" where
  "conn_outcome (C_End r) = r"
| "conn_outcome st = Pending"

text \<open>Behind its first step, and not in the middle of a name lookup.\<close>

fun settled :: "conn_state \<Rightarrow> bool" where
  "settled C_New = False"
| "settled (C_Resolve tn pc) = False"
| "settled st = True"

lemma on_host_observed [simp]: "on_host h (observed h evs)" "on_host h (with_answer r env) = on_host h env"
proof -
  have "on_host h (observe ev env) = on_host h env" for ev env
    by (cases ev) (simp_all add: on_host_def)
  then show "on_host h (observed h evs)"
    by (induction evs) (simp_all add: observed_def, simp add: idle_env_def on_host_def)
qed (simp add: with_answer_def on_host_def)

lemma resume_idle:
  "conn_waits st \<Longrightarrow> settled st \<Longrightarrow>
     resume_all tp proxy st (with_answer r (idle_env h)) = (conn_outcome st, [])"
  by (cases st) (simp_all add: resume_all_def with_answer_def idle_env_def connect_rest_def write_rest_def
      read_rest_def relay_rest_def)

lemma resume_answer:
  "\<not> (\<exists>tn pc. st = C_Resolve tn pc) \<Longrightarrow> resume st (with_answer r env) = resume st env"
  by (cases st) (simp_all add: with_answer_def connect_rest_def tunnel_rest_def write_rest_def read_rest_def
      relay_rest_def split: option.split connect_result.split)

lemma observe_answer: "observe ev (with_answer r env) = with_answer r (observe ev env)"
  by (cases ev) (simp_all add: with_answer_def)

section \<open>A connection among others\<close>

text \<open>Routing looks at the upstreams, not at their caches.\<close>

lemma enter_upstream_key:
  "upstream_key u = upstream_key v \<Longrightarrow> enter_upstream name via target u = enter_upstream name via target v"
proof (cases v)
  case (Proxy pv)
  then show "upstream_key u = upstream_key v \<Longrightarrow> ?thesis"
    by (auto simp: enter_upstream_def upstream_key_Proxy simp del: upstream_key.simps(1))
qed (cases u; simp)+

lemma enter_process_key:
  assumes "\<And>k. map_option upstream_key (hm_get m k) = map_option upstream_key (hm_get m' k)"
  shows "enter_process (proxy\<lparr>p_upstream := m\<rparr>) snis = enter_process (proxy\<lparr>p_upstream := m'\<rparr>) snis"
proof -
  have route: "route (proxy\<lparr>p_upstream := x\<rparr>) snis = route proxy snis" for x
    by (simp add: route_def split: option.split)
  have found: "\<exists>v. hm_get m' k = Some v \<and> (\<forall>via target. enter_upstream k via target u = enter_upstream k via target v)"
    if "hm_get m k = Some u" for k u
  proof -
    from assms [of k] that obtain v where v: "hm_get m' k = Some v" "upstream_key u = upstream_key v"
      by (metis option.map_disc_iff option.map_sel option.exhaust_sel option.sel option.distinct(1))
    from v(1) enter_upstream_key [OF v(2)] show ?thesis by blast
  qed
  have missing: "hm_get m k = None \<Longrightarrow> hm_get m' k = None" for k
    using assms [of k] by simp
  have select: "(case select_upstream (proxy\<lparr>p_upstream := m\<rparr>) n of Inl e \<Rightarrow> (C_End (Fail e), [])
        | Inr (k, u) \<Rightarrow> enter_upstream k via target u) =
      (case select_upstream (proxy\<lparr>p_upstream := m'\<rparr>) n of Inl e \<Rightarrow> (C_End (Fail e), [])
        | Inr (k, u) \<Rightarrow> enter_upstream k via target u)" for n via target
  proof (cases "hm_get m n")
    case None
    show ?thesis
    proof (cases "hm_get m (p_default_action proxy)")
      case (Some u)
      with found [OF Some] missing [OF None] None show ?thesis by (auto simp: select_upstream_def)
    qed (use None missing in \<open>simp add: select_upstream_def\<close>)
  next
    case (Some u)
    with found [OF Some] show ?thesis by (auto simp: select_upstream_def)
  qed
  have entered: "enter_process (proxy\<lparr>p_upstream := x\<rparr>) snis =
      (let via = (case snd (route proxy snis) of Some v \<Rightarrow> v | None \<Rightarrow> p_via proxy) in
       case select_upstream (proxy\<lparr>p_upstream := x\<rparr>) (fst (route proxy snis)) of
         Inl e \<Rightarrow> (C_End (Fail e), [])
       | Inr (k, u) \<Rightarrow> enter_upstream k via (connect_target_of via snis) u)" for x
    by (cases "snd (route proxy snis)")
      (simp_all add: enter_process_def accept_plan_def route case_prod_unfold Let_def split: sum.split)
  show ?thesis
    unfolding entered Let_def by (rule select)
qed

lemma step_new_same: 
  assumes "same_upstreams m (p_upstream proxy)"
  shows "step_new h (proxy\<lparr>p_upstream := m\<rparr>) peer = step_new h proxy peer"
  using enter_process_key [of m "p_upstream proxy" proxy "[]"] is_health_same [OF assms] assms
  by (auto simp: step_new_def same_upstreams_def split: bool.split sum.split)

lemma step_peek_same:
  assumes "same_upstreams m (p_upstream proxy)"
  shows "step_peek tp (proxy\<lparr>p_upstream := m\<rparr>) r = step_peek tp proxy r"
  using enter_process_key [of m "p_upstream proxy" proxy] assms
  by (simp add: step_peek_def same_upstreams_def split: sum.split)

lemma enter_process_state: "fst (enter_process proxy snis) \<noteq> C_New \<and> fst (enter_process proxy snis) \<noteq> C_Peek"
  by (auto simp: enter_process_def enter_upstream_def split: sum.splits prod.splits upstream.splits)

lemma resume_process_eq:
  assumes "enter_process proxy snis = (st, t)"
  shows "resume_process proxy snis env =
     (fst (resume_all tp proxy st env), t @ snd (resume_all tp proxy st env))"
  using enter_process_state [of proxy snis] assms
  by (simp add: resume_process_def resume_all_def split: conn_state.split)

lemma enter_process_env [simp]:
  "accept_snis tp proxy (env\<lparr>ce_peer_addr := x\<rparr>) = accept_snis tp proxy env"
  by (simp add: accept_snis_def)

lemma rests_env [simp]:
  "relay_rest tn s (env\<lparr>ce_peer_addr := x\<rparr>) = relay_rest tn s env"
  "relay_rest tn s (env\<lparr>ce_peek := y\<rparr>) = relay_rest tn s env"
  "read_rest tn acc (env\<lparr>ce_peer_addr := x\<rparr>) = read_rest tn acc env"
  "read_rest tn acc (env\<lparr>ce_peek := y\<rparr>) = read_rest tn acc env"
  "write_rest tn buf w (env\<lparr>ce_peer_addr := x\<rparr>) = write_rest tn buf w env"
  "write_rest tn buf w (env\<lparr>ce_peek := y\<rparr>) = write_rest tn buf w env"
  by (simp_all add: relay_rest_def read_rest_def write_rest_def)

lemma tunnel_rest_env [simp]:
  "tunnel_rest tn (env\<lparr>ce_peer_addr := x\<rparr>) = tunnel_rest tn env"
  "tunnel_rest tn (env\<lparr>ce_peek := y\<rparr>) = tunnel_rest tn env"
  by (simp_all add: tunnel_rest_def split: option.split)

lemma connect_rest_env [simp]:
  "connect_rest tn as (env\<lparr>ce_peer_addr := x\<rparr>) = connect_rest tn as env"
  "connect_rest tn as (env\<lparr>ce_peek := y\<rparr>) = connect_rest tn as env"
  by (simp_all add: connect_rest_def split: option.split connect_result.split)

lemma resume_frame [simp]:
  "resume st (env\<lparr>ce_peer_addr := x\<rparr>) = resume st env"
  "resume st (env\<lparr>ce_peek := y\<rparr>) = resume st env"
  by (cases st; simp only: resume.simps answer_of_def connect_rest_env rests_env relay_rest_def; simp)+

lemma resume_process_frame [simp]:
  "resume_process proxy snis (env\<lparr>ce_peer_addr := x\<rparr>) = resume_process proxy snis env"
  "resume_process proxy snis (env\<lparr>ce_peek := y\<rparr>) = resume_process proxy snis env"
  by (simp_all add: resume_process_def case_prod_unfold Let_def)

lemma resume_all_step:
  assumes "conn_step h tp proxy m st ev = Some (m', st', t)" and "\<nexists>tn pc. st = C_Resolve tn pc"
    and "same_upstreams m (p_upstream proxy)" and "on_host h env" and "conn_waits st"
  shows "resume_all tp proxy st (observe ev env) =
    (fst (resume_all tp proxy st' env), t @ snd (resume_all tp proxy st' env))"
  using assms(1)
proof (cases rule: conn_step_cases)
  case (at_new peer)
  have step: "step_new h proxy peer = (st', t)" using at_new step_new_same [OF assms(3)] by simp
  show ?thesis
  proof (cases "\<not> is_health_server proxy \<and> he_info_enabled h \<and> (\<exists>e. peer = Inl e)")
    case True
    with step at_new assms(4) show ?thesis
      by (auto simp: step_new_def resume_all_def accept_log_def on_host_def io_fail_def)
  next
    case False
    with assms(4) have "accept_log proxy (observe ev env) = io_ret ()"
      by (cases peer) (auto simp: at_new accept_log_def on_host_def)
    moreover have "step_new h proxy peer = (if p_tls proxy then (C_Peek, []) else enter_process proxy [])"
      using False by (auto simp: step_new_def split: bool.split sum.split)
    ultimately have "resume_all tp proxy st (observe ev env) =
        io_bind (accept_snis tp proxy env) (\<lambda>snis. resume_process proxy snis env)"
      and st': "(st', t) = (if p_tls proxy then (C_Peek, []) else enter_process proxy [])"
      using at_new(1,2) step by (simp_all add: resume_all_def)
    moreover have "io_bind (accept_snis tp proxy env) (\<lambda>snis. resume_process proxy snis env) =
        resume_all tp proxy C_Peek env" if "p_tls proxy"
      using that by (simp add: resume_all_def accept_snis_def io_bind_assoc split: option.split)
    moreover have "io_bind (accept_snis tp proxy env) (\<lambda>snis. resume_process proxy snis env) =
        resume_process proxy [] env" if "\<not> p_tls proxy"
      using that by (simp add: accept_snis_def)
    ultimately show ?thesis
      using resume_process_eq [of proxy "[]" st' t env tp] by (cases "p_tls proxy") simp_all
  qed
next
  case (at_peek r)
  show ?thesis
  proof (cases r)
    case (Inl e)
    with at_peek show ?thesis by (auto simp: resume_all_def step_peek_def io_fail_def)
  next
    case (Inr d)
    with at_peek step_peek_same [OF assms(3), of tp r]
    have "enter_process proxy (get_sni tp (peek_into d)) = (st', t)" by (simp add: step_peek_def)
    from resume_process_eq [OF this, of env tp] at_peek(1,2) Inr show ?thesis
      by (simp add: resume_all_def [of _ _ C_Peek])
  qed
next
  case (at_echo e)
  then show ?thesis
    using echo_Cons [of e "ce_echo env" env] by (auto simp: resume_all_def step_echo_def split: echo_event.splits)
next
  case (at_resolve tn pc e)
  with assms(2) show ?thesis by blast
next
  case (at_connect tn as r no ni)
  have "t = []" "st' = fst (step_connect h tn r no ni)"
    using at_connect(4) by (auto simp: step_connect_def split: connect_result.splits)
  moreover have "st' \<noteq> C_New" "st' \<noteq> C_Peek"
    using at_connect(4) by (auto simp: step_connect_def enter_tunnel_def enter_write_def
        split: connect_result.splits sum.splits option.splits if_splits)
  ultimately show ?thesis
    using connect_rest_observe [OF assms(4), of tn as r no ni] at_connect(1,2)
    by (simp add: resume_all_def split: conn_state.split)
next
  case (at_write tn buf written e)
  then have "st' \<noteq> C_New" "st' \<noteq> C_Peek"
    by (auto simp: step_write_def enter_write_def Let_def split: write_event.splits if_splits)
  with at_write assms(5) write_rest_Cons [of written buf tn e env] show ?thesis
    by (simp add: resume_all_def split: conn_state.split)
next
  case (at_read tn acc e)
  then have "st' \<noteq> C_New" "st' \<noteq> C_Peek"
    by (auto simp: step_read_def Let_def split: read_event.splits if_splits sum.splits)
  with at_read read_rest_Cons [of tn acc e env] show ?thesis
    by (simp add: resume_all_def split: conn_state.split)
next
  case (at_relay tn s e)
  then have "st' \<noteq> C_New" "st' \<noteq> C_Peek"
    by (auto simp: step_relay_def case_prod_unfold Let_def split: if_splits)
  with at_relay relay_rest_Cons [of tn s e env] show ?thesis
    by (simp add: resume_all_def split: conn_state.split)
qed

section \<open>Paths\<close>

text \<open>
  The path of one connection: its events and its actions. Between two steps the map may have
  become any other with the same upstreams, whose caches only hold addresses of their modes.
\<close>

inductive conn_path ::
  "host_env \<Rightarrow> 'hdr tls_parser \<Rightarrow> proxy \<Rightarrow> conn_state \<Rightarrow> conn_event list \<Rightarrow> action list \<Rightarrow> conn_state \<Rightarrow> bool"
  for h tp proxy where
  path_refl: "conn_path h tp proxy st [] [] st"
| path_step:
    "conn_step h tp proxy m st ev = Some (m', st1, t) \<Longrightarrow> same_upstreams m (p_upstream proxy) \<Longrightarrow>
     upstreams_ok m \<Longrightarrow> conn_path h tp proxy st1 evs t' st2 \<Longrightarrow>
       conn_path h tp proxy st (ev # evs) (t @ t') st2"

lemma path_snoc:
  assumes "conn_path h tp proxy st evs t st1" and "conn_step h tp proxy m st1 ev = Some (m', st2, t')"
    and "same_upstreams m (p_upstream proxy)" and "upstreams_ok m"
  shows "conn_path h tp proxy st (evs @ [ev]) (t @ t') st2"
  using assms
proof (induction rule: conn_path.induct)
  case (path_refl st)
  from path_step [OF path_refl conn_path.path_refl] show ?case by simp
next
  case (path_step m1 st ev1 m1' st1 t1 evs t1' st3)
  from conn_path.path_step [OF path_step.hyps(1-3) path_step.IH [OF path_step.prems]] show ?case by simp
qed

text \<open>A trace without the name lookups in it.\<close>

definition but_lookups :: "action list \<Rightarrow> action list" where
  "but_lookups t = filter (\<lambda>a. case a of Lookup host \<Rightarrow> False | _ \<Rightarrow> True) t"

lemma but_lookups_simps [simp]:
  "but_lookups [] = []" "but_lookups (t @ t') = but_lookups t @ but_lookups t'"
  "but_lookups (a # t) = (case a of Lookup host \<Rightarrow> but_lookups t | _ \<Rightarrow> a # but_lookups t)"
  by (simp_all add: but_lookups_def split: action.split)

lemma observed_resolve: "observed h (E_Resolve e # evs) = observed h evs"
  by (simp add: observed_def)

lemma step_resolve_lookups:
  assumes "resolve_step mode ua pc ev = Some (ua', pc', t)"
  shows "but_lookups t = []"
  using assms by (elim resolve_step_cases) (auto split: if_splits option.splits)

lemma path_resumes:
  assumes "conn_path h tp proxy st evs t st'" and "conn_ok (p_upstream proxy) st" and "conn_waits st"
    and "settled st'"
  shows "\<exists>r. fst (resume_all tp proxy st (with_answer r (observed h evs))) = conn_outcome st' \<and>
    but_lookups (snd (resume_all tp proxy st (with_answer r (observed h evs)))) = but_lookups t"
  using assms
proof (induction rule: conn_path.induct)
  case (path_refl st)
  then show ?case by (simp add: observed_def resume_idle)
next
  case (path_step m st ev m' st1 t evs t' st2)
  have "conn_ok m st" using path_step.prems(1) conn_ok_same [OF path_step.hyps(2)] by blast
  from conn_step_ok [OF path_step.hyps(1,3) this] conn_step_same_upstreams [OF path_step.hyps(1)]
  have ok: "conn_ok (p_upstream proxy) st1"
    using conn_ok_same same_upstreams_sym same_upstreams_trans path_step.hyps(2) by meson
  from path_step.IH [OF this conn_step_waits [OF path_step.hyps(1) path_step.prems(2)] path_step.prems(3)]
  obtain r where r: "fst (resume_all tp proxy st1 (with_answer r (observed h evs))) = conn_outcome st2"
    "but_lookups (snd (resume_all tp proxy st1 (with_answer r (observed h evs)))) = but_lookups t'" by blast
  have obs: "with_answer a (observed h (ev # evs)) = observe ev (with_answer a (observed h evs))" for a
    by (simp add: observed_def observe_answer)
  show ?case
  proof (cases "\<exists>tn pc. st = C_Resolve tn pc")
    case False
    from resume_all_step [OF path_step.hyps(1) False path_step.hyps(2) _ path_step.prems(2),
        of "with_answer r (observed h evs)"] r
    show ?thesis by (intro exI [of _ r]) (simp add: obs)
  next
    case True
    then obtain tn pc e where st: "st = C_Resolve tn pc" "ev = E_Resolve e" and
      "step_resolve tn pc m e = Some (m', st1, t)"
      using path_step.hyps(1) by (auto elim: conn_step_cases)
    from this(3) show ?thesis
    proof (rule step_resolve_Some)
      fix config addresses pc' t1
      assume step: "resolve_step (mode_from_str (tn_protocol tn)) (pu_addresses config) pc e = Some (addresses, pc', t1)"
        and st1: "(\<exists>e. pc' = R_Return (Inl e) \<and> st1 = C_End (Ret ()) \<and> t = t1) \<or>
         (\<exists>as. pc' = R_Return (Inr as) \<and> st1 = C_Connect tn as \<and>
            t = t1 @ [Connect as (via_connect_timeout (tn_via tn))]) \<or>
         ((\<forall>r. pc' \<noteq> R_Return r) \<and> st1 = C_Resolve tn pc' \<and> t = t1)"
      note t1 = step_resolve_lookups [OF step]
      from st1 show ?thesis
      proof (elim disjE exE conjE)
        fix err assume "st1 = C_End (Ret ())" "t = t1"
        with r t1 show ?thesis
          by (intro exI [of _ "Inl err"]) (simp add: resume_all_def st with_answer_def answer_of_def io_ret_def)
      next
        fix as assume as: "st1 = C_Connect tn as" "t = t1 @ [Connect as (via_connect_timeout (tn_via tn))]"
        with ok have "mode_filter (mode_from_str (tn_protocol tn)) as = as"
          by (simp add: mode_filter_idem)
        moreover have "dropped (connect_rest tn as (with_answer a env)) = dropped (connect_rest tn as env)" for a env
          using resume_answer [of "C_Connect tn as"] by simp
        ultimately show ?thesis
          using r t1 as
          by (intro exI [of _ "Inr as"])
            (simp add: resume_all_def st obs answer_of_def, simp add: with_answer_def observed_def)
      next
        assume "st1 = C_Resolve tn pc'" "t = t1"
        with r t1 show ?thesis
          by (intro exI [of _ r]) (simp add: resume_all_def st observed_resolve answer_of_def)
      qed
    qed
  qed
qed

section \<open>From the beginning it is accept\<close>

lemma dropped_bind:
  "(\<And>a. dropped (f a) = dropped (g a)) \<Longrightarrow> dropped (io_bind m f) = dropped (io_bind m g)"
  by (cases m; cases "fst m") (auto simp: dropped_def)

lemma dropped_bind_ret [simp]: "dropped (io_bind m (\<lambda>a. io_ret (k a))) = dropped m"
  by (cases m; cases "fst m") (auto simp: dropped_def)

lemma dropped_bind_Ret: "dropped (io_bind (Ret a, t) f) = (fst (dropped (f a)), t @ snd (dropped (f a)))"
  by (simp add: dropped_def)

lemma dropped_relay_new:
  "dropped (relay (via_stats_interval (tn_via tn)) (ce_relay env)) = relay_rest tn relay_new env"
  by (auto simp: relay_def relay_rest_def dropped_def relay_joined_def case_prod_unfold Let_def split: option.split)

lemma dropped_handshake:
  "dropped (io_bind (http_connect (ce_alnum env) (ce_vars env) target (via_headers (tn_via tn))
       (ce_writes env) (ce_reads env)) (\<lambda>_. io_bind (relay (via_stats_interval (tn_via tn)) (ce_relay env)) (\<lambda>_. io_ret ()))) =
     dropped (io_bind (lift_err (connect_request (ce_alnum env) (ce_vars env) target (via_headers (tn_via tn))))
       (\<lambda>buf. write_rest tn buf 0 env))"
  unfolding http_connect_def write_rest_def read_rest_def io_bind_assoc
  by (intro dropped_bind) (auto simp: io_bind_assoc dropped_relay_new split: prod.split intro!: dropped_bind)

lemma fresh_resolve:
  "resolve (upstream_address_new host) mode \<lparr>de_now = 0, de_lookup = (\<lambda>_. r), de_done = 0\<rparr> =
     (case r of
        Inl e \<Rightarrow> (Inl e, (upstream_address_new host)\<lparr>ua_time := Some 0, ua_ttl := Some error_ttl\<rparr>, [Lookup host])
      | Inr found \<Rightarrow> (Inr (mode_filter mode found),
          \<lparr>ua_address = host, ua_resolved = mode_filter mode found, ua_time = Some 0,
             ua_ttl = Some success_ttl\<rparr>, [Lookup host]))"
  by (simp add: resolve_def is_resolved_def upstream_address_new_def Let_def split: sum.split)

lemma connect_upstream_fresh:
  assumes "known_protocol p" and "ce_dns env = \<lparr>de_now = 0, de_lookup = (\<lambda>_. r), de_done = 0\<rparr>"
  shows "fst (connect_upstream (upstream_address_new host) p d env) =
    (case r of
       Inl e \<Rightarrow> (Fail (Boxed_Io e), [Lookup host])
     | Inr found \<Rightarrow>
         let as = mode_filter (mode_from_str p) found; t = [Lookup host, Connect as d] in
         (case ce_connect env as d of
            None \<Rightarrow> (Pending, t)
          | Some Connected \<Rightarrow> (Ret (), t)
          | Some (Connect_Failed e) \<Rightarrow>
              (Fail (Proxy_Error (''failed to connect to upstream: '' @ err_msg e)), t)
          | Some (Connect_Timeout m) \<Rightarrow>
              (Fail (Proxy_Error (''connection to upstream timed out: '' @ m)), t)))"
proof -
  have known: "(p \<notin> {''tcp4'', ''tcp6'', ''tcp''}) = False"
    using assms(1) by (simp only: known_protocol_def not_True_eq_False simp_thms)
  show ?thesis
    unfolding connect_upstream_def assms(2) fresh_resolve known if_False
    by (cases r) (simp_all add: Let_def split: option.split connect_result.split)
qed

text \<open>The upstreams with empty caches, as the program starts with them.\<close>

definition fresh_caches :: "proxy \<Rightarrow> proxy" where
  "fresh_caches proxy =
     proxy\<lparr>p_upstream := map (\<lambda>(name, upstream). (name, upstream_key upstream)) (p_upstream proxy)\<rparr>"

lemma process_resumes:
  assumes "enter_upstream name via target u = (st, t)"
  shows "fst (dropped (fst (process (upstream_key u) via target (with_answer r env)))) = fst (resume st (with_answer r env)) \<and>
    but_lookups (snd (fst (process (upstream_key u) via target (with_answer r env)))) =
      but_lookups (t @ snd (resume st (with_answer r env)))"
proof (cases u)
  case Ban
  with assms show ?thesis
    by (cases "ce_shutdown env") (auto simp: enter_upstream_def with_answer_def dropped_def)
next
  case Echo
  with assms show ?thesis
    by (auto simp: enter_upstream_def snd_io_bind fst_io_bind dropped_def split: outcome.split)
next
  case (Health me)
  with assms show ?thesis by (auto simp: enter_upstream_def dropped_def)
next
  case (Proxy config)
  let ?env = "with_answer r env" and ?d = "via_connect_timeout via"
  let ?u = "upstream_address_new (ua_address (pu_addresses config))"
  let ?p = "config\<lparr>pu_addresses := ?u\<rparr>"
  have run: "fst (process (upstream_key u) via target ?env) = fst (proxy_proxy ?p via target ?env)"
    by (simp add: Proxy process_Proxy)
  show ?thesis
  proof (cases "known_protocol (pu_protocol config)")
    case False
    with assms have "st = C_End (Ret ())" "t = []"
      by (auto simp: Proxy enter_upstream_def known_protocol_def)
    with False show ?thesis
      unfolding run by (simp add: proxy_proxy_def connect_upstream_unknown dropped_def)
  next
    case True
    define tn where "tn = \<lparr>tn_key = name, tn_protocol = pu_protocol config, tn_via = via, tn_target = target\<rparr>"
    have st: "st = C_Resolve tn R_Start" "t = []"
      using assms True by (auto simp: Proxy enter_upstream_def known_protocol_def tn_def)
    let ?rest = "\<lambda>_ :: unit. io_bind (io_try (ce_nodelay_outbound ?env)) (\<lambda>_.
       io_bind (io_try (ce_nodelay_inbound ?env)) (\<lambda>_.
       case target of
         None \<Rightarrow> io_bind (relay (via_stats_interval via) (ce_relay ?env)) (\<lambda>_. io_ret ())
       | Some tg \<Rightarrow>
           io_bind (http_connect (ce_alnum ?env) (ce_vars ?env) tg (via_headers via)
                      (ce_writes ?env) (ce_reads ?env)) (\<lambda>_.
           io_bind (relay (via_stats_interval via) (ce_relay ?env)) (\<lambda>_. io_ret ()))))"
    have proxy: "fst (proxy_proxy ?p via target ?env) = io_bind (fst (connect_upstream ?u (pu_protocol config) ?d ?env)) ?rest"
      by (simp add: proxy_proxy_def case_prod_unfold Let_def)
    have rest: "dropped (?rest ()) = dropped (tunnel_rest tn ?env)"
      unfolding tunnel_rest_def tn_def
      by (intro dropped_bind)
        (use dropped_handshake [of ?env _ tn] dropped_relay_new [of tn ?env] in \<open>simp add: tn_def split: option.split\<close>)
    have dns: "ce_dns ?env = \<lparr>de_now = 0, de_lookup = (\<lambda>_. r), de_done = 0\<rparr>"
      by (simp add: with_answer_def)
    then have answer: "answer_of ?env = r" by (simp add: answer_of_def)
    have connect: "fst (connect_upstream ?u (pu_protocol config) ?d ?env) =
        (case r of
           Inl e \<Rightarrow> (Fail (Boxed_Io e), [Lookup (ua_address (pu_addresses config))])
         | Inr found \<Rightarrow>
             let as = mode_filter (mode_from_str (pu_protocol config)) found;
                 t = [Lookup (ua_address (pu_addresses config)), Connect as ?d] in
             (case ce_connect ?env as ?d of
                None \<Rightarrow> (Pending, t)
              | Some Connected \<Rightarrow> (Ret (), t)
              | Some (Connect_Failed e) \<Rightarrow>
                  (Fail (Proxy_Error (''failed to connect to upstream: '' @ err_msg e)), t)
              | Some (Connect_Timeout m) \<Rightarrow>
                  (Fail (Proxy_Error (''connection to upstream timed out: '' @ m)), t)))"
      by (rule connect_upstream_fresh [OF True dns])
    show ?thesis
    proof (cases r)
      case (Inl e)
      then show ?thesis
        unfolding run proxy connect using answer by (simp add: st io_ret_def)
    next
      case (Inr found)
      let ?as = "mode_filter (mode_from_str (pu_protocol config)) found"
      have resume: "resume st ?env = (fst (dropped (connect_rest tn ?as ?env)),
          Connect ?as ?d # snd (dropped (connect_rest tn ?as ?env)))"
        using answer by (simp add: st Inr tn_def Let_def)
      show ?thesis
      proof (cases "ce_connect ?env ?as ?d = Some Connected")
        case True
        have "dropped (io_bind (fst (connect_upstream ?u (pu_protocol config) ?d ?env)) ?rest) =
            (fst (dropped (?rest ())), [Lookup (ua_address (pu_addresses config)), Connect ?as ?d] @
               snd (dropped (?rest ())))"
        proof -
          have "fst (connect_upstream ?u (pu_protocol config) ?d ?env) =
              (Ret (), [Lookup (ua_address (pu_addresses config)), Connect ?as ?d])"
            unfolding connect using True by (simp add: Let_def Inr)
          then show ?thesis by (simp only: dropped_bind_Ret)
        qed
        moreover have "connect_rest tn ?as ?env = tunnel_rest tn ?env"
          using True by (simp add: connect_rest_def tn_def)
        ultimately show ?thesis
          unfolding run proxy resume rest st(2) by (simp add: dropped_def)
      next
        case False
        then show ?thesis
          unfolding run proxy connect resume st(2)
          by (auto simp: Inr connect_rest_def tn_def dropped_def io_fail_def Let_def
              split: option.split connect_result.split)
      qed
    qed
  qed
qed

lemma accept_io:
  "fst (accept tp proxy env) =
     io_bind (accept_log proxy env) (\<lambda>_. io_bind (accept_snis tp proxy env) (\<lambda>snis.
       case accept_plan proxy snis of
         Inl e \<Rightarrow> io_fail e
       | Inr ((name, upstream), via, target) \<Rightarrow> dropped (fst (process upstream via target env))))"
proof -
  obtain r t where x: "io_bind (accept_log proxy env) (\<lambda>_. accept_snis tp proxy env) = (r, t)"
    by (metis surj_pair)
  have "fst (accept tp proxy env) = io_bind (r, t) (\<lambda>snis.
       case accept_plan proxy snis of
         Inl e \<Rightarrow> io_fail e
       | Inr ((name, upstream), via, target) \<Rightarrow> dropped (fst (process upstream via target env)))"
  proof (cases r)
    case (Ret snis)
    with x show ?thesis
      by (cases "accept_plan proxy snis")
        (auto simp: accept_def dropped_def io_fail_def case_prod_unfold Let_def)
  qed (use x in \<open>simp_all add: accept_def\<close>)
  then show ?thesis unfolding x [symmetric] io_bind_assoc .
qed

lemma accept_resumes:
  "fst (fst (accept tp (fresh_caches proxy) (with_answer r env))) =
     fst (resume_all tp proxy C_New (with_answer r env)) \<and>
   but_lookups (snd (fst (accept tp (fresh_caches proxy) (with_answer r env)))) =
     but_lookups (snd (resume_all tp proxy C_New (with_answer r env)))"
proof -
  let ?env = "with_answer r env" and ?p = "fresh_caches proxy"
  have get: "hm_get (p_upstream ?p) k = map_option upstream_key (hm_get (p_upstream proxy) k)" for k
    by (simp add: fresh_caches_def hm_get_map)
  have key: "upstream_key (upstream_key u) = upstream_key u" for u
    by (cases u) (simp_all add: upstream_address_new_def)
  have "p_upstream ?p = map (\<lambda>(k, u). (k, upstream_key u)) (p_upstream proxy)" by (simp add: fresh_caches_def)
  have same: "same_upstreams (p_upstream ?p) (p_upstream proxy)"
    unfolding same_upstreams_def get
    by (auto simp: fresh_caches_def hm_keys_def key option.map_comp comp_def)
  have log: "accept_log ?p ?env = accept_log proxy ?env" and snis: "accept_snis tp ?p ?env = accept_snis tp proxy ?env"
    using is_health_same [of "p_upstream ?p" proxy] same
    by (simp_all add: accept_log_def accept_snis_def fresh_caches_def)
  have enter: "enter_process ?p snis = enter_process proxy snis" for snis
    using enter_process_key [of "p_upstream ?p" "p_upstream proxy" proxy snis] same
    by (simp add: same_upstreams_def fresh_caches_def)
  have plan: "fst (case accept_plan ?p snis of
        Inl e \<Rightarrow> io_fail e
      | Inr ((name, upstream), via, target) \<Rightarrow> dropped (fst (process upstream via target ?env))) =
      fst (resume_process proxy snis ?env) \<and>
    but_lookups (snd (case accept_plan ?p snis of
        Inl e \<Rightarrow> io_fail e
      | Inr ((name, upstream), via, target) \<Rightarrow> dropped (fst (process upstream via target ?env)))) =
      but_lookups (snd (resume_process proxy snis ?env))" for snis
  proof (cases "accept_plan ?p snis")
    case (Inl e)
    then have "enter_process proxy snis = (C_End (Fail e), [])"
      unfolding enter [symmetric] by (simp add: enter_process_def)
    with Inl show ?thesis by (simp add: resume_process_def)
  next
    case (Inr x)
    obtain name u via target where x: "x = ((name, u), via, target)" by (metis surj_pair)
    obtain v where u: "u = upstream_key v"
      using accept_plan_Inr [of ?p snis name u via target] Inr x get by auto
    obtain st t where st: "enter_upstream name via target u = (st, t)" by (metis surj_pair)
    then have "enter_process proxy snis = (st, t)"
      unfolding enter [symmetric] using Inr x by (simp add: enter_process_def)
    with process_resumes [OF st, of r env] Inr x u key show ?thesis
      by (simp add: resume_process_def dropped_def)
  qed
  have "fst (accept tp ?p ?env) = io_bind (accept_log proxy ?env) (\<lambda>_. io_bind (accept_snis tp proxy ?env) (\<lambda>snis.
       case accept_plan ?p snis of
         Inl e \<Rightarrow> io_fail e
       | Inr ((name, upstream), via, target) \<Rightarrow> dropped (fst (process upstream via target ?env))))"
    unfolding accept_io log snis ..
  with plan show ?thesis
    by (simp add: resume_all_def fst_io_bind snd_io_bind split: outcome.split)
qed

text \<open>A connection that is not settled has only looked its host up.\<close>

lemma unsettled_step:
  assumes "conn_step h tp proxy m st ev = Some (m', st', t)" and "\<not> settled st' \<or> st' = C_Peek"
  shows "(\<not> settled st \<or> st = C_Peek) \<and> but_lookups t = []"
  using assms(1)
proof (cases rule: conn_step_cases)
  case (at_resolve tn pc e)
  from at_resolve(3) show ?thesis
    by (rule step_resolve_Some) (use assms(2) at_resolve(1) step_resolve_lookups in auto)
qed (use assms(2) in \<open>auto simp: step_new_def step_peek_def step_echo_def step_connect_def step_write_def
    step_read_def step_relay_def enter_process_def enter_upstream_def enter_tunnel_def enter_write_def
    case_prod_unfold Let_def
    split: bool.splits sum.splits if_splits upstream.splits prod.splits echo_event.splits option.splits
      connect_result.splits write_event.splits read_event.splits\<close>)

lemma unsettled_path:
  "conn_path h tp proxy st evs t st' \<Longrightarrow> \<not> settled st' \<or> st' = C_Peek \<Longrightarrow>
     (\<not> settled st \<or> st = C_Peek) \<and> but_lookups t = []"
  by (induction rule: conn_path.induct) (use unsettled_step in \<open>fastforce+\<close>)

section \<open>Every path is a path of accept\<close>

text \<open>
  On whatever path a connection has come to where it stands, its outcome and its trace are those of
  \<open>accept\<close> with empty caches in the environment made of the events of that path, for some answer
  to its name lookup; until it has an answer, it has done nothing but look up.
\<close>

lemma path_is_accept:
  assumes "conn_path h tp proxy C_New evs t st"
  shows "if settled st
    then \<exists>r. fst (fst (accept tp (fresh_caches proxy) (with_answer r (observed h evs)))) = conn_outcome st \<and>
      but_lookups (snd (fst (accept tp (fresh_caches proxy) (with_answer r (observed h evs))))) = but_lookups t
    else but_lookups t = []"
proof (cases "settled st")
  case True
  from path_resumes [OF assms _ _ True] obtain r where
    "fst (resume_all tp proxy C_New (with_answer r (observed h evs))) = conn_outcome st"
    "but_lookups (snd (resume_all tp proxy C_New (with_answer r (observed h evs)))) = but_lookups t"
    by auto
  with accept_resumes [of tp proxy r "observed h evs"] True show ?thesis by auto
next
  case False
  with unsettled_path [OF assms] show ?thesis by simp
qed

text \<open>What the wires carry does not depend on the lookups; what a connection has been answered.\<close>

lemma but_lookups_in: "a \<in> set (but_lookups t) \<longleftrightarrow> a \<in> set t \<and> (\<forall>host. a \<noteq> Lookup host)"
  by (auto simp: but_lookups_def split: action.splits)

lemma but_lookups_wire [simp]:
  "wire_up (but_lookups t) = wire_up t" "wire_down (but_lookups t) = wire_down t"
  "up_read (but_lookups t) = up_read t" "up_written (but_lookups t) = up_written t"
  by (induction t) (simp_all add: wire_up_def wire_down_def up_read_def up_written_def split: action.split)

lemma observed_frame [simp]:
  "ce_relay (with_answer r env) = ce_relay env" "ce_writes (with_answer r env) = ce_writes env"
  "accept_snis tp proxy (with_answer r env) = accept_snis tp proxy env"
  by (simp_all add: with_answer_def accept_snis_def)

lemma observed_writes: "w \<in> set (ce_writes (observed h evs)) \<longleftrightarrow> E_Write w \<in> set evs"
proof (induction evs)
  case (Cons ev evs)
  have "ce_writes (observe ev env) = (case ev of E_Write w \<Rightarrow> w # ce_writes env | _ \<Rightarrow> ce_writes env)" for env
    by (cases ev) simp_all
  with Cons show ?case by (cases ev) (simp_all add: observed_def)
qed (simp add: observed_def idle_env_def)

end
