(* ===== verification/Server_Tasks.thy ===== *)
theory Server_Tasks
  imports Server_Builder Connection_Accept
begin

text \<open>
  \<open>Server::run\<close> of \<open>src/servers/mod.rs\<close> and the accept loop \<open>proxy\<close> of
  \<open>src/servers/protocol/tcp.rs\<close>: the tasks of the running server as a step relation.

  A state holds the listener tasks spawned so far, the connection tasks that run, the semaphores
  and the upstream map they share, the cancellation token, the main task, and the number of HTTP
  tasks that health connections have detached. One step is one turn of one task between two points
  at which it awaits, and any task that can move may move: a step of a connection is a \<open>conn_step\<close>
  of \<open>Connection\<close> on the shared map, so that connections interleave with each other, with the
  listeners and with the shutdown. When its task has returned from \<open>accept\<close>, a connection drops
  its permit; one that is never answered never gets there. The invariants account for every permit
  and describe every connection in every reachable state.
\<close>

section \<open>The state of a running server\<close>

text \<open>A listener task: spawned, in its accept loop (with the flag it computed first), or returned.\<close>

datatype listener = Spawned | Listening bool | Ended

text \<open>
  A connection task: the proxy it was accepted by, whether it holds a permit of it, and where it
  stands. The last two fields are its history, for the properties: no step looks at them.
\<close>

record conn =
  cn_proxy :: nat
  cn_permit :: bool
  cn_state :: conn_state
  cn_events :: "conn_event list"
  cn_trace :: "action list"

definition conn_new :: "nat \<Rightarrow> bool \<Rightarrow> conn" where
  "conn_new i permit = \<lparr>cn_proxy = i, cn_permit = permit, cn_state = C_New, cn_events = [], cn_trace = []\<rparr>"

definition conn_advance :: "conn \<Rightarrow> conn_event \<Rightarrow> conn_state \<Rightarrow> action list \<Rightarrow> conn" where
  "conn_advance c ev s t = c\<lparr>cn_state := s, cn_events := cn_events c @ [ev], cn_trace := cn_trace c @ t\<rparr>"

lemma conn_new_simps [simp]:
  "cn_proxy (conn_new i b) = i" "cn_permit (conn_new i b) = b" "cn_state (conn_new i b) = C_New"
  "cn_events (conn_new i b) = []" "cn_trace (conn_new i b) = []"
  by (simp_all add: conn_new_def)

lemma conn_advance_simps [simp]:
  "cn_proxy (conn_advance c ev s t) = cn_proxy c" "cn_permit (conn_advance c ev s t) = cn_permit c"
  "cn_state (conn_advance c ev s t) = s" "cn_events (conn_advance c ev s t) = cn_events c @ [ev]"
  "cn_trace (conn_advance c ev s t) = cn_trace c @ t"
  by (simp_all add: conn_advance_def)

datatype main_task = Running | Draining | Done

record 's run_state =
  rn_listeners :: "listener list"
  rn_conns :: "conn list"
  rn_sems :: "'s list"
  rn_upstream :: upstream_map
  rn_cancelled :: bool
  rn_main :: main_task
  rn_http :: nat

definition server_upstream :: "'s server \<Rightarrow> upstream_map" where
  "server_upstream sv = (case sv_proxies sv of [] \<Rightarrow> [] | p # _ \<Rightarrow> p_upstream p)"

definition run_init :: "'s server \<Rightarrow> 's run_state" where
  "run_init sv = \<lparr>rn_listeners = [], rn_conns = [], rn_sems = sv_semaphores sv,
     rn_upstream = server_upstream sv, rn_cancelled = False, rn_main = Running, rn_http = 0\<rparr>"

section \<open>Steps\<close>

datatype event =
    Spawn
  | Signal
  | Bind_Ok nat
  | Bind_Err nat
  | Invalid_Protocol nat
  | Accept_Would_Block nat
  | Accept_Err nat
  | Accept_Health nat
  | Accept_Admit nat
  | Accept_Reject nat
  | Token_Cancelled nat
  | Conn_Run nat conn_event
  | Conn_Drop nat
  | Http_End
  | Main_Close
  | Main_Return

definition tracked_tasks :: "'s run_state \<Rightarrow> nat" where
  "tracked_tasks st = length (filter (\<lambda>l. l \<noteq> Ended) (rn_listeners st)) + length (rn_conns st)"

abbreviation listener_is :: "'s run_state \<Rightarrow> nat \<Rightarrow> listener \<Rightarrow> bool" where
  "listener_is st i l \<equiv> i < length (rn_listeners st) \<and> rn_listeners st ! i = l"

text \<open>A proxy as a task sees it now: its upstream map is the shared one.\<close>

definition proxy_now :: "proxy list \<Rightarrow> 's run_state \<Rightarrow> nat \<Rightarrow> proxy" where
  "proxy_now proxies st i = (proxies ! i)\<lparr>p_upstream := rn_upstream st\<rparr>"

text \<open>
  The main task, and the task it spawns for each proxy up to the check of its protocol.
\<close>

inductive main_step :: "proxy list \<Rightarrow> 's run_state \<Rightarrow> event \<Rightarrow> 's run_state \<Rightarrow> bool"
  for proxies where
  main_spawn:
    "rn_main st = Running \<Longrightarrow> length (rn_listeners st) < length proxies \<Longrightarrow>
       main_step proxies st Spawn (st\<lparr>rn_listeners := rn_listeners st @ [Spawned]\<rparr>)"
| main_signal:
    "rn_main st \<noteq> Done \<Longrightarrow> main_step proxies st Signal (st\<lparr>rn_cancelled := True\<rparr>)"
| main_invalid_protocol:
    "rn_main st \<noteq> Done \<Longrightarrow> listener_is st i Spawned \<Longrightarrow>
     p_protocol (proxies ! i) \<notin> {''tcp'', ''tcp4'', ''tcp6''} \<Longrightarrow>
       main_step proxies st (Invalid_Protocol i)
         (st\<lparr>rn_listeners := (rn_listeners st)[i := Ended]\<rparr>)"
| main_close:
    "rn_main st = Running \<Longrightarrow> length (rn_listeners st) = length proxies \<Longrightarrow> rn_cancelled st \<Longrightarrow>
       main_step proxies st Main_Close (st\<lparr>rn_main := Draining\<rparr>)"
| main_return:
    "rn_main st = Draining \<Longrightarrow> tracked_tasks st = 0 \<Longrightarrow>
       main_step proxies st Main_Return (st\<lparr>rn_main := Done\<rparr>)"

text \<open>
  The accept loop of a listener from its \<open>bind\<close> on, the connection tasks that it spawns, and the
  HTTP tasks that health connections detach.
\<close>

inductive proxy_step ::
  "'s sem_ops \<Rightarrow> host_env \<Rightarrow> 'hdr tls_parser \<Rightarrow> proxy list \<Rightarrow> 's run_state \<Rightarrow> event \<Rightarrow> 's run_state \<Rightarrow> bool"
  for S h tp proxies where
  proxy_bind_ok:
    "rn_main st \<noteq> Done \<Longrightarrow> listener_is st i Spawned \<Longrightarrow>
     p_protocol (proxies ! i) \<in> {''tcp'', ''tcp4'', ''tcp6''} \<Longrightarrow>
       proxy_step S h tp proxies st (Bind_Ok i) (st\<lparr>rn_listeners :=
         (rn_listeners st)[i := Listening (is_health_server (proxy_now proxies st i))]\<rparr>)"
| proxy_bind_err:
    "rn_main st \<noteq> Done \<Longrightarrow> listener_is st i Spawned \<Longrightarrow>
     p_protocol (proxies ! i) \<in> {''tcp'', ''tcp4'', ''tcp6''} \<Longrightarrow>
       proxy_step S h tp proxies st (Bind_Err i) (st\<lparr>rn_listeners := (rn_listeners st)[i := Ended]\<rparr>)"
| proxy_would_block:
    "rn_main st \<noteq> Done \<Longrightarrow> listener_is st i (Listening health) \<Longrightarrow>
       proxy_step S h tp proxies st (Accept_Would_Block i) st"
| proxy_accept_err:
    "rn_main st \<noteq> Done \<Longrightarrow> listener_is st i (Listening health) \<Longrightarrow>
       proxy_step S h tp proxies st (Accept_Err i) (st\<lparr>rn_listeners := (rn_listeners st)[i := Ended]\<rparr>)"
| proxy_token_cancelled:
    "rn_main st \<noteq> Done \<Longrightarrow> listener_is st i (Listening health) \<Longrightarrow> rn_cancelled st \<Longrightarrow>
       proxy_step S h tp proxies st (Token_Cancelled i)
         (st\<lparr>rn_listeners := (rn_listeners st)[i := Ended]\<rparr>)"
| proxy_accept_health:
    "rn_main st \<noteq> Done \<Longrightarrow> listener_is st i (Listening True) \<Longrightarrow>
       proxy_step S h tp proxies st (Accept_Health i) (st\<lparr>rn_conns := rn_conns st @
         [conn_new i False]\<rparr>)"
| proxy_accept_admit:
    "rn_main st \<noteq> Done \<Longrightarrow> listener_is st i (Listening False) \<Longrightarrow>
     ref = p_maxclients (proxies ! i) \<Longrightarrow> sem_try_acquire S (rn_sems st ! ref) = Some s' \<Longrightarrow>
       proxy_step S h tp proxies st (Accept_Admit i) (st\<lparr>rn_sems := (rn_sems st)[ref := s'],
         rn_conns := rn_conns st @ [conn_new i True]\<rparr>)"
| proxy_accept_reject:
    "rn_main st \<noteq> Done \<Longrightarrow> listener_is st i (Listening False) \<Longrightarrow>
     sem_try_acquire S (rn_sems st ! p_maxclients (proxies ! i)) = None \<Longrightarrow>
       proxy_step S h tp proxies st (Accept_Reject i) st"
| proxy_conn_run:
    "rn_main st \<noteq> Done \<Longrightarrow> j < length (rn_conns st) \<Longrightarrow> c = rn_conns st ! j \<Longrightarrow>
     conn_step h tp (proxies ! cn_proxy c) (rn_upstream st) (cn_state c) ev = Some (upstream', s, t) \<Longrightarrow>
       proxy_step S h tp proxies st (Conn_Run j ev) (st\<lparr>
         rn_conns := (rn_conns st)[j := conn_advance c ev s t],
         rn_upstream := upstream', rn_http := rn_http st + count_list t Serve_Http\<rparr>)"
| proxy_conn_drop:
    "rn_main st \<noteq> Done \<Longrightarrow> j < length (rn_conns st) \<Longrightarrow> c = rn_conns st ! j \<Longrightarrow>
     cn_state c = C_End r \<Longrightarrow> ref = p_maxclients (proxies ! cn_proxy c) \<Longrightarrow>
       proxy_step S h tp proxies st (Conn_Drop j) (st\<lparr>
         rn_conns := take j (rn_conns st) @ drop (Suc j) (rn_conns st),
         rn_sems := (if cn_permit c
           then (rn_sems st)[ref := sem_release S (rn_sems st ! ref)] else rn_sems st)\<rparr>)"
| proxy_http_end:
    "rn_main st \<noteq> Done \<Longrightarrow> 0 < rn_http st \<Longrightarrow>
       proxy_step S h tp proxies st Http_End (st\<lparr>rn_http := rn_http st - 1\<rparr>)"

inductive server_step ::
  "'s sem_ops \<Rightarrow> host_env \<Rightarrow> 'hdr tls_parser \<Rightarrow> proxy list \<Rightarrow> 's run_state \<Rightarrow> event \<Rightarrow> 's run_state \<Rightarrow> bool"
  for S h tp proxies where
  by_main: "main_step proxies st e st' \<Longrightarrow> server_step S h tp proxies st e st'"
| by_proxy: "proxy_step S h tp proxies st e st' \<Longrightarrow> server_step S h tp proxies st e st'"

lemmas step_spawn = by_main [OF main_spawn]
lemmas step_signal = by_main [OF main_signal]
lemmas step_invalid_protocol = by_main [OF main_invalid_protocol]
lemmas step_main_close = by_main [OF main_close]
lemmas step_main_return = by_main [OF main_return]
lemmas step_bind_ok = by_proxy [OF proxy_bind_ok]
lemmas step_bind_err = by_proxy [OF proxy_bind_err]
lemmas step_would_block = by_proxy [OF proxy_would_block]
lemmas step_accept_err = by_proxy [OF proxy_accept_err]
lemmas step_token_cancelled = by_proxy [OF proxy_token_cancelled]
lemmas step_accept_health = by_proxy [OF proxy_accept_health]
lemmas step_accept_admit = by_proxy [OF proxy_accept_admit]
lemmas step_accept_reject = by_proxy [OF proxy_accept_reject]
lemmas step_conn_run = by_proxy [OF proxy_conn_run]
lemmas step_conn_drop = by_proxy [OF proxy_conn_drop]
lemmas step_http_end = by_proxy [OF proxy_http_end]

inductive_cases no_mainE:
  "main_step proxies st (Accept_Admit i) st'"
  "main_step proxies st (Accept_Reject i) st'"
  "main_step proxies st (Accept_Health i) st'"

inductive_cases admitE: "proxy_step S h tp proxies st (Accept_Admit i) st'"
inductive_cases rejectE: "proxy_step S h tp proxies st (Accept_Reject i) st'"
inductive_cases healthE: "proxy_step S h tp proxies st (Accept_Health i) st'"

lemma accept_is_proxy_step:
  "server_step S h tp proxies st (Accept_Admit i) st' = proxy_step S h tp proxies st (Accept_Admit i) st'"
  "server_step S h tp proxies st (Accept_Reject i) st' = proxy_step S h tp proxies st (Accept_Reject i) st'"
  "server_step S h tp proxies st (Accept_Health i) st' = proxy_step S h tp proxies st (Accept_Health i) st'"
  by (auto elim: server_step.cases no_mainE intro: by_proxy)

section \<open>Where a server starts\<close>

text \<open>
  What building a server guarantees and running it relies on: proxy \<open>i\<close> has semaphore \<open>i\<close>, with
  all permits free, and every proxy has the same upstream map.
\<close>

definition server_wf :: "'s sem_ops \<Rightarrow> 's server \<Rightarrow> bool" where
  "server_wf S sv \<longleftrightarrow>
     length (sv_semaphores sv) = length (sv_proxies sv) \<and>
     (\<forall>i < length (sv_proxies sv). p_maxclients (sv_proxies sv ! i) = i \<and>
        sem_available S (sv_semaphores sv ! i) = p_maxclients_limit (sv_proxies sv ! i) \<and>
        p_upstream (sv_proxies sv ! i) = server_upstream sv)"

lemma server_from_wf:
  assumes "semaphore S" and "server_from S pc = Some sv"
  shows "server_wf S sv"
proof -
  let ?ls = "listeners (pc_servers pc)"
  obtain u where sv: "sv_proxies sv = proxies_of u 0 ?ls" and lim: "limited S ?ls (sv_semaphores sv)"
    using semaphore.server_from_Some [OF assms] by blast
  have u: "server_upstream sv = u" if "?ls \<noteq> []"
    using that by (cases ?ls) (auto simp: server_upstream_def sv proxy_of_def)
  show ?thesis
    using limited_length [OF lim] limited_nth [OF lim] u
    by (cases "?ls = []") (auto simp: server_wf_def sv proxies_of_nth proxy_of_def split: prod.split)
qed

lemma proxies_of_map: "p \<in> set (proxies_of u n ls) \<Longrightarrow> p_upstream p = u"
  by (drule in_proxies_of) (auto simp: proxy_of_def)

lemma server_metrics:
  assumes "semaphore S" and "server_from S pc = Some sv"
    and "hm_get (server_upstream sv) name = Some (Health m)"
  shows "m = build_metrics (sv_proxies sv)"
proof (cases "sv_proxies sv")
  case Nil
  with assms(3) show ?thesis by (simp add: server_upstream_def)
next
  case (Cons p ps)
  let ?u = "build_upstream (build_metrics (sv_proxies sv)) (pc_upstream pc)"
  have "sv_proxies sv = proxies_of ?u 0 (listeners (pc_servers pc))"
    using semaphore.server_from_Some [OF assms(1,2)] by blast
  then have "p \<in> set (proxies_of ?u 0 (listeners (pc_servers pc)))"
    using Cons by (metis list.set_intros(1))
  then have "p_upstream p = ?u" by (rule proxies_of_map)
  then have "server_upstream sv = ?u" by (simp only: server_upstream_def Cons list.case)
  with assms(3) obtain v where "inject_metrics (build_metrics (sv_proxies sv)) v = Health m"
    by (auto simp: build_upstream_get)
  then show ?thesis by (cases v) (simp_all add: inject_metrics_def)
qed

text \<open>The metrics page contains the two lines of every entry.\<close>

lemma concat_map_sublist: "i < length xs \<Longrightarrow> sublist (f (xs ! i)) (concat (map f xs))"
proof -
  assume i: "i < length xs"
  have "concat (map f xs) = concat (map f (take i xs)) @ f (xs ! i) @ concat (map f (drop (Suc i) xs))"
    using arg_cong [where f = "\<lambda>l. concat (map f l)", OF id_take_nth_drop [OF i]] by simp
  then show ?thesis by (auto simp: sublist_def)
qed

lemma sublist_middle: "sublist xs ys \<Longrightarrow> sublist xs (as @ ys @ bs)"
  unfolding sublist_def by (metis append.assoc)

lemma metrics_body_lines:
  assumes "i < length m"
  shows "sublist (metric_line ''tpt_active_connections'' (m ! i)
      (active_connections (me_maxclients_limit (m ! i)) (permits (me_semaphore (m ! i))))) (metrics_body permits m)"
    and "sublist (metric_line ''tpt_maxclients'' (m ! i) (me_maxclients_limit (m ! i))) (metrics_body permits m)"
proof -
  let ?a = "\<lambda>e. metric_line ''tpt_active_connections'' e
    (active_connections (me_maxclients_limit e) (permits (me_semaphore e)))"
  let ?l = "\<lambda>e. metric_line ''tpt_maxclients'' e (me_maxclients_limit e)"
  have b: "\<exists>h h'. metrics_body permits m = h @ concat (map ?a m) @ h' @ concat (map ?l m)"
    unfolding metrics_body_def
    by (intro exI [of _ "writeln _ @ writeln _"]) (simp only: append_assoc)
  then obtain h h' where b: "metrics_body permits m = h @ concat (map ?a m) @ h' @ concat (map ?l m)"
    by blast
  show "sublist (?a (m ! i)) (metrics_body permits m)"
    unfolding b using sublist_middle [OF concat_map_sublist [OF assms, of ?a]] by blast
  show "sublist (?l (m ! i)) (metrics_body permits m)"
    using sublist_middle [OF concat_map_sublist [OF assms, of ?l], of "h @ concat (map ?a m) @ h'" "[]"]
    by (simp add: b)
qed

section \<open>Invariants\<close>

definition inv_upstream :: "'s server \<Rightarrow> 's run_state \<Rightarrow> bool" where
  "inv_upstream sv st \<longleftrightarrow> same_upstreams (rn_upstream st) (server_upstream sv)"

lemma inv_upstream_main: "main_step proxies st l st' \<Longrightarrow> inv_upstream sv st \<Longrightarrow> inv_upstream sv st'"
  by (cases rule: main_step.cases) (auto simp: inv_upstream_def)

lemma inv_upstream_proxy:
  assumes "inv_upstream sv st" and "proxy_step S h tp proxies st l st'"
  shows "inv_upstream sv st'"
  using assms(2)
proof cases
  case (proxy_conn_run j c ev upstream' s t)
  with assms(1) conn_step_same_upstreams [OF proxy_conn_run(6)] show ?thesis
    by (auto simp: inv_upstream_def intro: same_upstreams_trans)
qed (use assms(1) in \<open>simp_all add: inv_upstream_def\<close>)

lemma inv_upstream_step: "inv_upstream sv st \<Longrightarrow> server_step S h tp proxies st l st' \<Longrightarrow> inv_upstream sv st'"
  by (erule server_step.cases) (blast intro: inv_upstream_main inv_upstream_proxy)+

text \<open>What each task knows of itself, and how far the main task is.\<close>

definition inv_tasks :: "'s server \<Rightarrow> 's run_state \<Rightarrow> bool" where
  "inv_tasks sv st \<longleftrightarrow>
     length (rn_listeners st) \<le> length (sv_proxies sv) \<and>
     (\<forall>i < length (rn_listeners st). \<forall>h. rn_listeners st ! i = Listening h \<longrightarrow>
        h = is_health_server (sv_proxies sv ! i)) \<and>
     (\<forall>c \<in> set (rn_conns st). cn_proxy c < length (sv_proxies sv) \<and>
        cn_permit c = (\<not> is_health_server (sv_proxies sv ! cn_proxy c))) \<and>
     (rn_main st \<noteq> Running \<longrightarrow> rn_cancelled st \<and> length (rn_listeners st) = length (sv_proxies sv)) \<and>
     (rn_main st = Done \<longrightarrow> tracked_tasks st = 0)"

lemma proxy_now_health:
  assumes "server_wf S sv" and "inv_upstream sv st" and "i < length (sv_proxies sv)"
  shows "is_health_server (proxy_now (sv_proxies sv) st i) = is_health_server (sv_proxies sv ! i)"
  unfolding proxy_now_def using assms
  by (intro is_health_same) (simp add: server_wf_def inv_upstream_def)

lemma inv_tasks_main:
  assumes "inv_tasks sv st" and "main_step (sv_proxies sv) st l st'"
  shows "inv_tasks sv st'"
  using assms(2)
proof cases
  case main_spawn
  with assms(1) show ?thesis by (auto simp: inv_tasks_def nth_append)
qed (use assms(1) in \<open>auto simp: inv_tasks_def nth_list_update tracked_tasks_def\<close>)

lemma inv_tasks_proxy:
  assumes wf: "server_wf S sv" and up: "inv_upstream sv st" and inv: "inv_tasks sv st"
    and st: "proxy_step S h tp (sv_proxies sv) st l st'"
  shows "inv_tasks sv st'"
  using st
proof cases
  case (proxy_bind_ok i)
  then have "i < length (sv_proxies sv)" using inv by (auto simp: inv_tasks_def)
  with proxy_now_health [OF wf up] proxy_bind_ok inv show ?thesis
    by (auto simp: inv_tasks_def nth_list_update)
next
  case (proxy_accept_health i)
  with inv have "is_health_server (sv_proxies sv ! i)" by (auto simp: inv_tasks_def)
  with proxy_accept_health inv show ?thesis by (auto simp: inv_tasks_def)
next
  case (proxy_accept_admit i ref s')
  with inv have "\<not> is_health_server (sv_proxies sv ! i)" by (auto simp: inv_tasks_def)
  with proxy_accept_admit inv show ?thesis by (auto simp: inv_tasks_def)
next
  case (proxy_conn_run j c ev upstream' s t)
  then have "rn_conns st ! j \<in> set (rn_conns st)" by simp
  with proxy_conn_run inv show ?thesis
    by (auto simp: inv_tasks_def dest!: subsetD [OF set_update_subset_insert])
next
  case (proxy_conn_drop j c r ref)
  with inv show ?thesis by (auto simp: inv_tasks_def dest: in_set_takeD in_set_dropD)
qed (use inv in \<open>auto simp: inv_tasks_def nth_list_update tracked_tasks_def\<close>)

lemma inv_tasks_step:
  "server_wf S sv \<Longrightarrow> inv_upstream sv st \<Longrightarrow> inv_tasks sv st \<Longrightarrow>
     server_step S h tp (sv_proxies sv) st l st' \<Longrightarrow> inv_tasks sv st'"
  by (erule server_step.cases) (blast intro: inv_tasks_main inv_tasks_proxy)+

text \<open>The accounting: for each proxy, free permits and permits held by running connections.\<close>

definition held :: "nat \<Rightarrow> conn list \<Rightarrow> nat" where
  "held i conns = length (filter (\<lambda>c. cn_proxy c = i \<and> cn_permit c) conns)"

lemma held_simps [simp]:
  "held i [] = 0"
  "held i (c # cs) = (if cn_proxy c = i \<and> cn_permit c then Suc (held i cs) else held i cs)"
  "held i (cs @ ds) = held i cs + held i ds"
  by (simp_all add: held_def)

lemma held_split:
  assumes "j < length cs"
  shows "held i cs = held i (take j cs) +
    (if cn_proxy (cs ! j) = i \<and> cn_permit (cs ! j) then 1 else 0) + held i (drop (Suc j) cs)"
proof -
  have "held i cs = held i (take j cs @ cs ! j # drop (Suc j) cs)"
    using id_take_nth_drop [OF assms] by simp
  then show ?thesis by (simp only: held_simps) simp
qed

lemma held_advance:
  "j < length cs \<Longrightarrow> held i (cs[j := conn_advance (cs ! j) ev s t]) = held i cs"
  using held_split [of j cs i] held_split [of j "cs[j := conn_advance (cs ! j) ev s t]" i]
  by simp

definition inv_permits :: "'s sem_ops \<Rightarrow> 's server \<Rightarrow> 's run_state \<Rightarrow> bool" where
  "inv_permits S sv st \<longleftrightarrow> length (rn_sems st) = length (sv_proxies sv) \<and>
     (\<forall>i < length (sv_proxies sv). sem_available S (rn_sems st ! i) + held i (rn_conns st) =
        p_maxclients_limit (sv_proxies sv ! i))"

lemma inv_permits_main: "main_step proxies st l st' \<Longrightarrow> inv_permits S sv st \<Longrightarrow> inv_permits S sv st'"
  by (cases rule: main_step.cases) (auto simp: inv_permits_def)

lemma inv_permits_proxy:
  assumes sem: "semaphore S" and wf: "server_wf S sv" and tasks: "inv_tasks sv st"
    and inv: "inv_permits S sv st" and st: "proxy_step S h tp (sv_proxies sv) st l st'"
  shows "inv_permits S sv st'"
  using st
proof cases
  case (proxy_accept_admit i ref s')
  then have i: "i < length (sv_proxies sv)" using tasks by (auto simp: inv_tasks_def)
  with wf proxy_accept_admit have "ref = i" by (simp add: server_wf_def)
  with proxy_accept_admit have "Suc (sem_available S s') = sem_available S (rn_sems st ! i)"
    by (simp add: semaphore.acquire_some [OF sem])
  moreover have "sem_available S (rn_sems st ! i) + held i (rn_conns st) = p_maxclients_limit (sv_proxies sv ! i)"
    using inv i by (simp add: inv_permits_def)
  ultimately have "sem_available S s' + Suc (held i (rn_conns st)) = p_maxclients_limit (sv_proxies sv ! i)"
    by simp
  with inv \<open>ref = i\<close> proxy_accept_admit show ?thesis
    by (auto simp: inv_permits_def nth_list_update)
next
  case (proxy_conn_drop j c r ref)
  have c: "cn_proxy (rn_conns st ! j) < length (sv_proxies sv)"
    using tasks proxy_conn_drop(4) by (auto simp: inv_tasks_def)
  with wf proxy_conn_drop have "ref = cn_proxy (rn_conns st ! j)" by (simp add: server_wf_def)
  with c inv semaphore.release_adds [OF sem] proxy_conn_drop show ?thesis
    by (auto simp: inv_permits_def nth_list_update held_split [OF proxy_conn_drop(4)])
qed (use inv in \<open>auto simp: inv_permits_def held_advance\<close>)

lemma inv_permits_step:
  "semaphore S \<Longrightarrow> server_wf S sv \<Longrightarrow> inv_tasks sv st \<Longrightarrow> inv_permits S sv st \<Longrightarrow>
     server_step S h tp (sv_proxies sv) st l st' \<Longrightarrow> inv_permits S sv st'"
  by (erule server_step.cases) (blast intro: inv_permits_main inv_permits_proxy)+

text \<open>
  What every connection knows of the shared map, and the path that has brought it where it is.
\<close>

definition conn_inv :: "host_env \<Rightarrow> 'hdr tls_parser \<Rightarrow> 's server \<Rightarrow> upstream_map \<Rightarrow> conn \<Rightarrow> bool" where
  "conn_inv h tp sv m c \<longleftrightarrow> conn_bound m (cn_state c) \<and> conn_waits (cn_state c) \<and>
     (upstreams_ok (server_upstream sv) \<longrightarrow> conn_ok m (cn_state c) \<and>
        conn_path h tp (sv_proxies sv ! cn_proxy c) C_New (cn_events c) (cn_trace c) (cn_state c))"

definition inv_conns :: "host_env \<Rightarrow> 'hdr tls_parser \<Rightarrow> 's server \<Rightarrow> 's run_state \<Rightarrow> bool" where
  "inv_conns h tp sv st \<longleftrightarrow> (upstreams_ok (server_upstream sv) \<longrightarrow> upstreams_ok (rn_upstream st)) \<and>
     (\<forall>c \<in> set (rn_conns st). conn_inv h tp sv (rn_upstream st) c)"

lemma conn_inv_new: "conn_inv h tp sv m (conn_new i permit)"
  by (simp add: conn_inv_def path_refl)

lemma conn_inv_same: "same_upstreams m' m \<Longrightarrow> conn_inv h tp sv m c \<Longrightarrow> conn_inv h tp sv m' c"
  using conn_bound_same conn_ok_same by (auto simp: conn_inv_def)

lemma conn_inv_advance:
  assumes "conn_step h tp (sv_proxies sv ! cn_proxy c) m (cn_state c) ev = Some (m', s, t)"
    and "conn_inv h tp sv m c" and "same_upstreams m (p_upstream (sv_proxies sv ! cn_proxy c))"
    and "upstreams_ok (server_upstream sv) \<longrightarrow> upstreams_ok m"
  shows "conn_inv h tp sv m' (conn_advance c ev s t)"
    and "upstreams_ok (server_upstream sv) \<longrightarrow> upstreams_ok m'"
proof -
  have "conn_bound m' s" "conn_waits s"
    using conn_step_bound [OF assms(1)] conn_step_waits [OF assms(1)] assms(2) by (simp_all add: conn_inv_def)
  moreover have ok: "upstreams_ok m' \<and> conn_ok m' s" if "upstreams_ok (server_upstream sv)"
    using conn_step_ok [OF assms(1)] assms(2,4) that by (simp add: conn_inv_def)
  moreover have "conn_path h tp (sv_proxies sv ! cn_proxy c) C_New (cn_events c @ [ev]) (cn_trace c @ t) s"
    if "upstreams_ok (server_upstream sv)"
    using path_snoc [OF _ assms(1,3)] assms(2,4) that by (simp add: conn_inv_def)
  ultimately show "conn_inv h tp sv m' (conn_advance c ev s t)" by (simp add: conn_inv_def)
  from ok show "upstreams_ok (server_upstream sv) \<longrightarrow> upstreams_ok m'" by blast
qed

lemma inv_conns_main: "main_step proxies st l st' \<Longrightarrow> inv_conns h tp sv st \<Longrightarrow> inv_conns h tp sv st'"
  by (cases rule: main_step.cases) (auto simp: inv_conns_def)

lemma inv_conns_proxy:
  assumes wf: "server_wf S sv" and up: "inv_upstream sv st" and tasks: "inv_tasks sv st"
    and inv: "inv_conns h tp sv st" and st: "proxy_step S h tp (sv_proxies sv) st l st'"
  shows "inv_conns h tp sv st'"
  using st
proof cases
  case (proxy_accept_health i)
  with inv show ?thesis by (auto simp: inv_conns_def conn_inv_new)
next
  case (proxy_accept_admit i ref s')
  with inv show ?thesis by (auto simp: inv_conns_def conn_inv_new)
next
  case (proxy_conn_run j c ev upstream' s t)
  then have c: "c \<in> set (rn_conns st)" by simp
  then have "cn_proxy c < length (sv_proxies sv)" using tasks by (simp add: inv_tasks_def)
  then have "same_upstreams (rn_upstream st) (p_upstream (sv_proxies sv ! cn_proxy c))"
    using wf up by (simp add: server_wf_def inv_upstream_def)
  from conn_inv_advance [OF proxy_conn_run(6) _ this] c inv
  have new: "conn_inv h tp sv upstream' (conn_advance c ev s t)"
    "upstreams_ok (server_upstream sv) \<longrightarrow> upstreams_ok upstream'"
    by (simp_all add: inv_conns_def)
  have "conn_inv h tp sv upstream' d" if "d \<in> set (rn_conns st)" for d
    by (rule conn_inv_same [OF conn_step_same_upstreams [OF proxy_conn_run(6)]])
      (use inv that in \<open>simp add: inv_conns_def\<close>)
  with new proxy_conn_run(2) show ?thesis
    by (auto simp: inv_conns_def dest!: subsetD [OF set_update_subset_insert])
next
  case (proxy_conn_drop j c r ref)
  with inv show ?thesis by (auto simp: inv_conns_def dest: in_set_takeD in_set_dropD)
qed (use inv in \<open>simp_all add: inv_conns_def\<close>)

lemma inv_conns_step:
  "server_wf S sv \<Longrightarrow> inv_upstream sv st \<Longrightarrow> inv_tasks sv st \<Longrightarrow> inv_conns h tp sv st \<Longrightarrow>
     server_step S h tp (sv_proxies sv) st l st' \<Longrightarrow> inv_conns h tp sv st'"
  by (erule server_step.cases) (blast intro: inv_conns_main inv_conns_proxy)+

definition server_inv ::
  "'s sem_ops \<Rightarrow> host_env \<Rightarrow> 'hdr tls_parser \<Rightarrow> 's server \<Rightarrow> 's run_state \<Rightarrow> bool" where
  "server_inv S h tp sv st \<longleftrightarrow>
     inv_upstream sv st \<and> inv_tasks sv st \<and> inv_permits S sv st \<and> inv_conns h tp sv st"

lemma server_inv_init: "server_wf S sv \<Longrightarrow> server_inv S h tp sv (run_init sv)"
  by (simp add: server_inv_def inv_upstream_def inv_tasks_def inv_permits_def inv_conns_def run_init_def
      server_wf_def)

lemma server_inv_step:
  assumes "semaphore S" and "server_wf S sv" and "server_inv S h tp sv st"
    and "server_step S h tp (sv_proxies sv) st l st'"
  shows "server_inv S h tp sv st'"
  using assms inv_upstream_step [OF _ assms(4)] inv_tasks_step [OF assms(2) _ _ assms(4)]
    inv_permits_step [OF assms(1,2) _ _ assms(4)] inv_conns_step [OF assms(2) _ _ _ assms(4)]
  by (simp add: server_inv_def)

interpretation serving: invariant "server_step S h tp (sv_proxies sv)" "run_init sv"
  "\<lambda>st. semaphore S \<and> server_wf S sv \<longrightarrow> server_inv S h tp sv st" for S h tp sv
  by unfold_locales (auto intro: server_inv_init server_inv_step)

lemma server_run_inv:
  assumes "semaphore S" and "server_from S pc = Some sv"
    and "run (server_step S h tp (sv_proxies sv)) (run_init sv) ls st"
  shows "server_wf S sv" "inv_upstream sv st" "inv_tasks sv st" "inv_permits S sv st" "inv_conns h tp sv st"
  using serving.inv_run [OF assms(3)] server_from_wf [OF assms(1,2)] assms(1)
  by (simp_all add: server_inv_def)

lemma held_all:
  "\<forall>c \<in> set cs. cn_permit c = (\<not> h (cn_proxy c)) \<Longrightarrow>
     held i cs = (if h i then 0 else length (filter (\<lambda>c. cn_proxy c = i) cs))"
  by (induction cs) auto

end
