(* ===== verification/Server_Liveness.thy ===== *)
theory Server_Liveness
  imports Server_Tasks
begin

text \<open>
  From every state the server can come to rest: whatever a connection waits for, answers exist that
  end it (\<open>conn_ends\<close>); a listener whose token is cancelled ends; and with no listener and no connection
  left \<open>run\<close> returns (\<open>server_stops\<close>), by \<open>quiet\<close> steps only. Then runs that are built for the properties
  and witnesses: all listeners bound, one connection on its own.
\<close>

section \<open>A connection can always end, a server can always stop\<close>

text \<open>Steps that take no new connection and need no signal.\<close>

fun quiet :: "event \<Rightarrow> bool" where
  "quiet Spawn = True"
| "quiet (Bind_Err i) = True"
| "quiet (Invalid_Protocol i) = True"
| "quiet (Token_Cancelled i) = True"
| "quiet (Conn_Run j ev) = True"
| "quiet (Conn_Drop j) = True"
| "quiet Main_Close = True"
| "quiet Main_Return = True"
| "quiet _ = False"

definition quiet_run ::
  "'s sem_ops \<Rightarrow> host_env \<Rightarrow> 'hdr tls_parser \<Rightarrow> proxy list \<Rightarrow> 's run_state \<Rightarrow> 's run_state \<Rightarrow> bool" where
  "quiet_run S h tp proxies st st' \<longleftrightarrow>
     (\<exists>ls. list_all quiet ls \<and> run (server_step S h tp proxies) st ls st')"

lemma quiet_refl: "quiet_run S h tp proxies st st"
  unfolding quiet_run_def by (intro exI [of _ "[]"]) (simp add: run_refl)

lemma quiet_step:
  "server_step S h tp proxies st l st' \<Longrightarrow> quiet l \<Longrightarrow> quiet_run S h tp proxies st' st'' \<Longrightarrow>
     quiet_run S h tp proxies st st''"
  unfolding quiet_run_def using run_append [OF _ run_single, of "server_step S h tp proxies" st' _ st'' st l]
  by (metis append_Cons append_Nil list.pred_inject(2))

lemma quiet_trans: "quiet_run S h tp proxies st st' \<Longrightarrow> quiet_run S h tp proxies st' st'' \<Longrightarrow> quiet_run S h tp proxies st st''"
  unfolding quiet_run_def by (metis list_all_append run_append)

lemma quiet_single: "server_step S h tp proxies st l st' \<Longrightarrow> quiet l \<Longrightarrow> quiet_run S h tp proxies st st'"
  using quiet_step quiet_refl by blast

text \<open>Connections that know their upstream can always move on, until they have ended.\<close>

definition conns_bound :: "'s run_state \<Rightarrow> bool" where
  "conns_bound st \<longleftrightarrow> (\<forall>c \<in> set (rn_conns st). conn_bound (rn_upstream st) (cn_state c))"

lemma conns_bound_listeners [simp]:
  "conns_bound (st\<lparr>rn_listeners := ls\<rparr>) = conns_bound st"
  "conns_bound (st\<lparr>rn_listeners := ls, rn_main := x\<rparr>) = conns_bound st"
  by (simp_all add: conns_bound_def)

text \<open>What the end of a connection does not touch.\<close>

definition same_tasks :: "'s run_state \<Rightarrow> 's run_state \<Rightarrow> bool" where
  "same_tasks st st' \<longleftrightarrow> rn_listeners st' = rn_listeners st \<and> rn_cancelled st' = rn_cancelled st \<and>
     rn_main st' = rn_main st"

lemma conn_moves_on:
  assumes "rn_main st \<noteq> Done" and "conns_bound st" and "rn_conns st = c # cs"
    and "\<forall>r. cn_state c \<noteq> C_End r"
  shows "\<exists>st' c' cs'. quiet_run S h tp proxies st st' \<and> same_tasks st st' \<and> conns_bound st' \<and>
    rn_conns st' = c' # cs' \<and> length cs' = length cs \<and> conn_left (cn_state c') < conn_left (cn_state c)"
proof -
  have "conn_bound (rn_upstream st) (cn_state c)" using assms(2,3) by (simp add: conns_bound_def)
  from conn_can_step [OF this assms(4), of h tp "proxies ! cn_proxy c"] obtain ev m s t where
    step: "conn_step h tp (proxies ! cn_proxy c) (rn_upstream st) (cn_state c) ev = Some (m, s, t)"
    and left: "conn_left s < conn_left (cn_state c)" by blast
  let ?st = "st\<lparr>rn_conns := conn_advance c ev s t # cs, rn_upstream := m,
    rn_http := rn_http st + count_list t Serve_Http\<rparr>"
  have "0 < length (rn_conns st)" "c = rn_conns st ! 0" using assms(3) by simp_all
  from step_conn_run [where S = S, OF assms(1) this step]
  have "server_step S h tp proxies st (Conn_Run 0 ev) ?st" by (simp add: assms(3))
  then have "quiet_run S h tp proxies st ?st" by (rule quiet_single) simp
  moreover have "conns_bound ?st"
  proof -
    have "conn_bound m s" using assms(2,3) by (intro conn_step_bound [OF step]) (simp add: conns_bound_def)
    moreover have "conn_bound m (cn_state d)" if "d \<in> set cs" for d
      using assms(2,3) that
      by (intro conn_bound_same [OF conn_step_same_upstreams [OF step]]) (simp add: conns_bound_def)
    ultimately show ?thesis by (simp add: conns_bound_def)
  qed
  ultimately show ?thesis
    using left
    by (intro exI [of _ ?st] exI [of _ "conn_advance c ev s t"] exI [of _ cs]) (simp add: same_tasks_def)
qed

lemma conn_ends:
  "rn_main st \<noteq> Done \<Longrightarrow> conns_bound st \<Longrightarrow> rn_conns st = c # cs \<Longrightarrow>
     \<exists>st' c' cs' r. quiet_run S h tp proxies st st' \<and> same_tasks st st' \<and> conns_bound st' \<and>
       rn_conns st' = c' # cs' \<and> length cs' = length cs \<and> cn_state c' = C_End r"
proof (induction "conn_left (cn_state c)" arbitrary: st c cs rule: less_induct)
  case less
  show ?case
  proof (cases "\<exists>r. cn_state c = C_End r")
    case True
    then obtain r where "cn_state c = C_End r" by blast
    with less.prems quiet_refl show ?thesis
      by (intro exI [of _ st] exI [of _ c] exI [of _ cs] exI [of _ r]) (auto simp: same_tasks_def)
  next
    case False
    then obtain st1 c1 cs1 where 1: "quiet_run S h tp proxies st st1" "same_tasks st st1" "conns_bound st1"
      "rn_conns st1 = c1 # cs1" "length cs1 = length cs" "conn_left (cn_state c1) < conn_left (cn_state c)"
      using conn_moves_on [OF less.prems, of S h tp proxies] by blast
    have "rn_main st1 \<noteq> Done" using 1(2) less.prems(1) by (simp add: same_tasks_def)
    from less.hyps [OF 1(6) this 1(3,4)] obtain st2 c2 cs2 r where
      2: "quiet_run S h tp proxies st1 st2" "same_tasks st1 st2" "conns_bound st2"
      "rn_conns st2 = c2 # cs2" "length cs2 = length cs1" "cn_state c2 = C_End r" by blast
    have "same_tasks st st2" using 1(2) 2(2) by (simp add: same_tasks_def)
    with 1(5) 2 quiet_trans [OF 1(1) 2(1)] show ?thesis by metis
  qed
qed

lemma conns_end:
  "rn_main st \<noteq> Done \<Longrightarrow> conns_bound st \<Longrightarrow>
     \<exists>st'. quiet_run S h tp proxies st st' \<and> rn_conns st' = [] \<and> same_tasks st st'"
proof (induction "length (rn_conns st)" arbitrary: st)
  case 0
  then show ?case
    using quiet_refl by (intro exI [of _ st]) (simp add: same_tasks_def)
next
  case (Suc n)
  then obtain c cs where "rn_conns st = c # cs" by (cases "rn_conns st") auto
  from conn_ends [OF Suc.prems this, of S h tp proxies] obtain st1 c1 cs1 r where
    1: "quiet_run S h tp proxies st st1" "same_tasks st st1" "conns_bound st1" "rn_conns st1 = c1 # cs1"
      "length cs1 = length cs" "cn_state c1 = C_End r" by blast
  have live: "rn_main st1 \<noteq> Done" using 1(2) Suc.prems(1) by (simp add: same_tasks_def)
  have "0 < length (rn_conns st1)" "c1 = rn_conns st1 ! 0" using 1(4) by simp_all
  from step_conn_drop [where S = S and h = h and tp = tp and proxies = proxies, OF live this 1(6) refl]
  obtain sems where drop: "server_step S h tp proxies st1 (Conn_Drop 0) (st1\<lparr>rn_conns := cs1, rn_sems := sems\<rparr>)"
    by (simp add: 1(4))
  let ?st = "st1\<lparr>rn_conns := cs1, rn_sems := sems\<rparr>"
  have "n = length (rn_conns ?st)" "rn_main ?st \<noteq> Done" "conns_bound ?st"
    using Suc.hyps(2) \<open>rn_conns st = c # cs\<close> 1 live by (simp_all add: conns_bound_def)
  from Suc.hyps(1) [OF this] obtain st' where
    "quiet_run S h tp proxies ?st st'" "rn_conns st' = []" "same_tasks ?st st'" by blast
  moreover from this have "quiet_run S h tp proxies st st'"
    by (intro quiet_trans [OF 1(1)] quiet_step [OF drop]) simp_all
  ultimately show ?case
    using 1(2) by (intro exI [of _ st']) (simp add: same_tasks_def)
qed

lemma listener_ends:
  assumes "rn_main st \<noteq> Done" and "rn_cancelled st" and "i < length (rn_listeners st)"
  shows "quiet_run S h tp proxies st (st\<lparr>rn_listeners := (rn_listeners st)[i := Ended]\<rparr>)"
proof (cases "rn_listeners st ! i")
  case Spawned
  show ?thesis
  proof (cases "p_protocol (proxies ! i) \<in> {''tcp'', ''tcp4'', ''tcp6''}")
    case True
    show ?thesis using assms Spawned True by (intro quiet_single [OF step_bind_err]) auto
  next
    case False
    show ?thesis using assms Spawned False by (intro quiet_single [OF step_invalid_protocol]) auto
  qed
next
  case (Listening h)
  with assms show ?thesis by (intro quiet_single [OF step_token_cancelled]) auto
next
  case Ended
  then have "st\<lparr>rn_listeners := (rn_listeners st)[i := Ended]\<rparr> = st"
    using list_update_id [of "rn_listeners st" i] by simp
  then show ?thesis using quiet_refl by metis
qed

lemma listeners_end:
  assumes "rn_main st \<noteq> Done" and "rn_cancelled st"
  shows "k \<le> length (rn_listeners st) \<Longrightarrow> \<exists>ls. quiet_run S h tp proxies st (st\<lparr>rn_listeners := ls\<rparr>) \<and>
    length ls = length (rn_listeners st) \<and> (\<forall>i < k. ls ! i = Ended)"
proof (induction k)
  case 0
  have "st\<lparr>rn_listeners := rn_listeners st\<rparr> = st" by simp
  then show ?case using quiet_refl by (intro exI [of _ "rn_listeners st"]) simp
next
  case (Suc k)
  then obtain ls where ls: "quiet_run S h tp proxies st (st\<lparr>rn_listeners := ls\<rparr>)"
    "length ls = length (rn_listeners st)" "\<forall>i < k. ls ! i = Ended" by auto
  then have "quiet_run S h tp proxies (st\<lparr>rn_listeners := ls\<rparr>) (st\<lparr>rn_listeners := ls[k := Ended]\<rparr>)"
    using listener_ends [of "st\<lparr>rn_listeners := ls\<rparr>" k S h tp proxies] assms Suc.prems by simp
  with ls Suc.prems show ?case
    by (intro exI [of _ "ls[k := Ended]"]) (auto intro: quiet_trans simp: nth_list_update)
qed

lemma all_spawned:
  "rn_main st = Running \<Longrightarrow> length (rn_listeners st) \<le> length proxies \<Longrightarrow>
     \<exists>ls. quiet_run S h tp proxies st (st\<lparr>rn_listeners := ls\<rparr>) \<and> length ls = length proxies"
proof (induction "length proxies - length (rn_listeners st)" arbitrary: st)
  case 0
  have "st\<lparr>rn_listeners := rn_listeners st\<rparr> = st" by simp
  with 0 show ?case using quiet_refl by (intro exI [of _ "rn_listeners st"]) simp
next
  case (Suc n)
  let ?st = "st\<lparr>rn_listeners := rn_listeners st @ [Spawned]\<rparr>"
  have "quiet_run S h tp proxies st ?st"
    using Suc by (intro quiet_single [OF step_spawn]) auto
  moreover obtain ls where "quiet_run S h tp proxies ?st (?st\<lparr>rn_listeners := ls\<rparr>)" "length ls = length proxies"
  proof -
    have "n = length proxies - length (rn_listeners ?st)" "rn_main ?st = Running"
      "length (rn_listeners ?st) \<le> length proxies"
      using Suc.hyps(2) Suc.prems by simp_all
    from Suc.hyps(1) [OF this] show ?thesis using that by auto
  qed
  ultimately show ?case by (auto intro: quiet_trans)
qed

lemma server_stops:
  assumes "rn_main st \<noteq> Done" and "rn_cancelled st" and "length (rn_listeners st) \<le> length proxies"
    and "rn_main st = Draining \<Longrightarrow> length (rn_listeners st) = length proxies" and "conns_bound st"
  shows "\<exists>st'. quiet_run S h tp proxies st st' \<and> rn_main st' = Done"
proof -
  have "\<exists>st1. quiet_run S h tp proxies st st1 \<and> rn_main st1 = Draining \<and> rn_cancelled st1 \<and>
      conns_bound st1"
  proof (cases "rn_main st")
    case Running
    from all_spawned [OF this assms(3)] obtain ls
      where ls: "quiet_run S h tp proxies st (st\<lparr>rn_listeners := ls\<rparr>)" "length ls = length proxies" by blast
    have "quiet_run S h tp proxies (st\<lparr>rn_listeners := ls\<rparr>) (st\<lparr>rn_listeners := ls, rn_main := Draining\<rparr>)"
      using Running ls assms(2)
      by (intro quiet_single [OF step_main_close [of "st\<lparr>rn_listeners := ls\<rparr>", simplified]]) auto
    with ls assms(2,5) show ?thesis
      by (intro exI [of _ "st\<lparr>rn_listeners := ls, rn_main := Draining\<rparr>"]) (auto intro: quiet_trans)
  next
    case Draining
    with assms show ?thesis using quiet_refl by blast
  qed (use assms(1) in simp)
  then obtain st1 where 1: "quiet_run S h tp proxies st st1" "rn_main st1 = Draining" "rn_cancelled st1"
    "conns_bound st1" by blast
  obtain st2 where 2: "quiet_run S h tp proxies st1 st2" "rn_conns st2 = []" "rn_main st2 = Draining" "rn_cancelled st2"
    using conns_end [of st1 S h tp proxies] 1 unfolding same_tasks_def by fastforce
  obtain ls where 3: "quiet_run S h tp proxies st2 (st2\<lparr>rn_listeners := ls\<rparr>)" "\<forall>i < length ls. ls ! i = Ended"
    using listeners_end [OF _ 2(4) order_refl, of S h tp proxies] 2(3) by auto
  then have "tracked_tasks (st2\<lparr>rn_listeners := ls\<rparr>) = 0"
    using 2(2) by (auto simp: tracked_tasks_def filter_empty_conv in_set_conv_nth)
  then have "quiet_run S h tp proxies (st2\<lparr>rn_listeners := ls\<rparr>) (st2\<lparr>rn_listeners := ls, rn_main := Done\<rparr>)"
    using 2(3) by (intro quiet_single [OF step_main_return [of "st2\<lparr>rn_listeners := ls\<rparr>", simplified]]) auto
  with 1(1) 2(1) 3(1) show ?thesis
    by (intro exI [of _ "st2\<lparr>rn_listeners := ls, rn_main := Done\<rparr>"]) (auto intro: quiet_trans)
qed

section \<open>Particular runs\<close>

lemma cancelled_signal:
  "run (server_step S h tp proxies) st ls st' \<Longrightarrow> \<not> rn_cancelled st \<Longrightarrow> rn_cancelled st' \<Longrightarrow> Signal \<in> set ls"
proof (induction rule: run.induct)
  case (run_step ls st' l st'')
  from run_step.hyps(2) have "rn_cancelled st'' \<Longrightarrow> rn_cancelled st' \<or> l = Signal"
    by (auto elim!: server_step.cases main_step.cases proxy_step.cases)
  with run_step show ?case by auto
qed simp

lemma spawn_run:
  "k \<le> length (sv_proxies sv) \<Longrightarrow> run (server_step S h tp (sv_proxies sv)) (run_init sv) (replicate k Spawn)
     ((run_init sv)\<lparr>rn_listeners := replicate k Spawned\<rparr>)"
proof (induction k)
  case 0
  have "(run_init sv)\<lparr>rn_listeners := []\<rparr> = run_init sv" by (simp add: run_init_def)
  then show ?case using run_refl [of "server_step S h tp (sv_proxies sv)" "run_init sv"] by simp
next
  case (Suc k)
  let ?st = "(run_init sv)\<lparr>rn_listeners := replicate k Spawned\<rparr>"
  have "server_step S h tp (sv_proxies sv) ?st Spawn (?st\<lparr>rn_listeners := rn_listeners ?st @ [Spawned]\<rparr>)"
    using Suc.prems by (intro step_spawn) (simp_all add: run_init_def)
  from run_step [OF Suc.IH this] Suc.prems show ?case
    by (simp add: replicate_append_same)
qed

text \<open>All spawned, proxy \<open>i\<close> bound.\<close>

definition bound_state :: "'s server \<Rightarrow> nat \<Rightarrow> 's run_state" where
  "bound_state sv i = (run_init sv)\<lparr>rn_listeners :=
     (replicate (length (sv_proxies sv)) Spawned)[i := Listening (is_health_server (sv_proxies sv ! i))]\<rparr>"

lemma bound_run:
  assumes "server_wf S sv" and "i < length (sv_proxies sv)"
    and "p_protocol (sv_proxies sv ! i) \<in> {''tcp'', ''tcp4'', ''tcp6''}"
  shows "run (server_step S h tp (sv_proxies sv)) (run_init sv)
    (replicate (length (sv_proxies sv)) Spawn @ [Bind_Ok i]) (bound_state sv i)"
proof -
  let ?st = "(run_init sv)\<lparr>rn_listeners := replicate (length (sv_proxies sv)) Spawned\<rparr>"
  have "proxy_now (sv_proxies sv) ?st i = sv_proxies sv ! i"
    using assms(1,2) by (simp add: proxy_now_def run_init_def server_wf_def)
  moreover have "server_step S h tp (sv_proxies sv) ?st (Bind_Ok i) (?st\<lparr>rn_listeners :=
      (rn_listeners ?st)[i := Listening (is_health_server (proxy_now (sv_proxies sv) ?st i))]\<rparr>)"
    using assms by (intro step_bind_ok) (simp_all add: run_init_def)
  ultimately show ?thesis
    using run_step [OF spawn_run [OF order_refl]] by (simp add: bound_state_def)
qed

lemma bound_state_simps [simp]:
  "rn_main (bound_state sv i) = Running" "rn_conns (bound_state sv i) = []" "rn_http (bound_state sv i) = 0"
  "rn_sems (bound_state sv i) = sv_semaphores sv" "rn_upstream (bound_state sv i) = server_upstream sv"
  "length (rn_listeners (bound_state sv i)) = length (sv_proxies sv)"
  "i < length (sv_proxies sv) \<Longrightarrow>
     rn_listeners (bound_state sv i) ! i = Listening (is_health_server (sv_proxies sv ! i))"
  by (simp_all add: bound_state_def run_init_def)

lemma quiet_keeps_http:
  "run (server_step S h tp proxies) st ls st' \<Longrightarrow> list_all quiet ls \<Longrightarrow> rn_http st \<le> rn_http st'"
proof (induction rule: run.induct)
  case (run_step ls st' l st'')
  from run_step.hyps(2) have "quiet l \<Longrightarrow> rn_http st' \<le> rn_http st''"
    by (auto elim!: server_step.cases main_step.cases proxy_step.cases)
  with run_step show ?case by auto
qed simp

text \<open>A connection that moves alone, and the server that runs it.\<close>

fun conn_alone ::
  "host_env \<Rightarrow> 'hdr tls_parser \<Rightarrow> proxy \<Rightarrow> upstream_map \<Rightarrow> conn_state \<Rightarrow> conn_event list \<Rightarrow>
     (upstream_map \<times> conn_state \<times> action list) option" where
  "conn_alone h tp proxy m st [] = Some (m, st, [])"
| "conn_alone h tp proxy m st (ev # evs) =
     (case conn_step h tp proxy m st ev of
        None \<Rightarrow> None
      | Some (m', st', t) \<Rightarrow>
          map_option (\<lambda>(m'', st'', t'). (m'', st'', t @ t')) (conn_alone h tp proxy m' st' evs))"

lemma alone_run:
  "conn_alone h tp (proxies ! cn_proxy c) (rn_upstream st) (cn_state c) evs = Some (m, s, t) \<Longrightarrow>
   rn_conns st = [c] \<Longrightarrow> rn_main st \<noteq> Done \<Longrightarrow>
     run (server_step S h tp proxies) st (map (Conn_Run 0) evs) (st\<lparr>rn_upstream := m,
       rn_conns := [c\<lparr>cn_state := s, cn_events := cn_events c @ evs, cn_trace := cn_trace c @ t\<rparr>],
       rn_http := rn_http st + count_list t Serve_Http\<rparr>)"
proof (induction evs arbitrary: st c t)
  case Nil
  then have "st\<lparr>rn_upstream := m,
      rn_conns := [c\<lparr>cn_state := s, cn_events := cn_events c @ [], cn_trace := cn_trace c @ t\<rparr>],
      rn_http := rn_http st + count_list t Serve_Http\<rparr> = st"
    by (cases st; cases c) simp
  then show ?case by (simp add: run_refl)
next
  case (Cons ev evs)
  from Cons.prems(1) obtain m1 s1 t1 t2 where
    step: "conn_step h tp (proxies ! cn_proxy c) (rn_upstream st) (cn_state c) ev = Some (m1, s1, t1)"
    and rest: "conn_alone h tp (proxies ! cn_proxy c) m1 s1 evs = Some (m, s, t2)" and t: "t = t1 @ t2"
    by (auto split: option.splits)
  let ?st = "st\<lparr>rn_conns := [conn_advance c ev s1 t1], rn_upstream := m1,
    rn_http := rn_http st + count_list t1 Serve_Http\<rparr>"
  have "0 < length (rn_conns st)" "c = rn_conns st ! 0" using Cons.prems(2) by simp_all
  from step_conn_run [where S = S, OF Cons.prems(3) this step]
  have "server_step S h tp proxies st (Conn_Run 0 ev) ?st" by (simp add: Cons.prems(2))
  from run_Cons [where step = "server_step S h tp proxies", OF this] have "run (server_step S h tp proxies) st (map (Conn_Run 0) (ev # evs)) (?st\<lparr>rn_upstream := m,
       rn_conns := [(conn_advance c ev s1 t1)\<lparr>cn_state := s, cn_events := cn_events (conn_advance c ev s1 t1) @ evs,
         cn_trace := cn_trace (conn_advance c ev s1 t1) @ t2\<rparr>],
       rn_http := rn_http ?st + count_list t2 Serve_Http\<rparr>)"
    using Cons.IH [of "conn_advance c ev s1 t1" ?st t2] rest Cons.prems(3) by simp
  then show ?case by (simp add: t conn_advance_def add.assoc)
qed

text \<open>One connection at proxy \<open>i\<close>, which has just been accepted.\<close>

definition one_conn :: "'s server \<Rightarrow> nat \<Rightarrow> conn \<Rightarrow> 's list \<Rightarrow> 's run_state" where
  "one_conn sv i c sems = (bound_state sv i)\<lparr>rn_conns := [c], rn_sems := sems\<rparr>"

lemma accepted_run:
  assumes "server_wf S sv" and "i < length (sv_proxies sv)"
    and "p_protocol (sv_proxies sv ! i) \<in> {''tcp'', ''tcp4'', ''tcp6''}"
    and "\<not> is_health_server (sv_proxies sv ! i) \<Longrightarrow> sem_try_acquire S (sv_semaphores sv ! i) \<noteq> None"
  shows "\<exists>ls sems. run (server_step S h tp (sv_proxies sv)) (run_init sv) ls
    (one_conn sv i (conn_new i (\<not> is_health_server (sv_proxies sv ! i))) sems)"
proof (cases "is_health_server (sv_proxies sv ! i)")
  case True
  with assms(2) have "server_step S h tp (sv_proxies sv) (bound_state sv i) (Accept_Health i)
      ((bound_state sv i)\<lparr>rn_conns := rn_conns (bound_state sv i) @ [conn_new i False]\<rparr>)"
    by (intro step_accept_health) simp_all
  moreover have "(bound_state sv i)\<lparr>rn_conns := rn_conns (bound_state sv i) @ [conn_new i False]\<rparr> =
      one_conn sv i (conn_new i False) (sv_semaphores sv)"
    by (simp add: one_conn_def bound_state_def run_init_def)
  ultimately have "server_step S h tp (sv_proxies sv) (bound_state sv i) (Accept_Health i)
      (one_conn sv i (conn_new i False) (sv_semaphores sv))" by (simp only:)
  from run_step [OF bound_run [OF assms(1-3)] this] True show ?thesis by auto
next
  case False
  then obtain s where s: "sem_try_acquire S (sv_semaphores sv ! i) = Some s" using assms(4) by blast
  have i: "p_maxclients (sv_proxies sv ! i) = i" using assms(1,2) by (simp add: server_wf_def)
  have "server_step S h tp (sv_proxies sv) (bound_state sv i) (Accept_Admit i)
      ((bound_state sv i)\<lparr>rn_sems := (rn_sems (bound_state sv i))[i := s],
         rn_conns := rn_conns (bound_state sv i) @ [conn_new i True]\<rparr>)"
    using step_accept_admit [of "bound_state sv i" i i "sv_proxies sv" S s h tp] False s i assms(2) by simp
  moreover have "(bound_state sv i)\<lparr>rn_sems := (rn_sems (bound_state sv i))[i := s],
         rn_conns := rn_conns (bound_state sv i) @ [conn_new i True]\<rparr> =
      one_conn sv i (conn_new i True) ((sv_semaphores sv)[i := s])"
    by (simp add: one_conn_def bound_state_def run_init_def)
  ultimately have "server_step S h tp (sv_proxies sv) (bound_state sv i) (Accept_Admit i)
      (one_conn sv i (conn_new i True) ((sv_semaphores sv)[i := s]))" by (simp only:)
  from run_step [OF bound_run [OF assms(1-3)] this] False show ?thesis by auto
qed

lemma step_new_health:
  assumes "is_health_server p" and "\<not> p_tls p"
  shows "step_new h p peer = (C_End (Ret ()), [Serve_Http])"
proof -
  obtain me where "hm_get (p_upstream p) (p_default_action p) = Some (Health me)"
    using assms(1) by (auto simp: is_health_server_iff)
  then have "accept_plan p [] =
      Inr ((p_default_action p, Health me), p_via p, connect_target_of (p_via p) [])"
    by (simp add: accept_plan_def route_def select_upstream_def Let_def)
  with assms show ?thesis
    by (simp add: step_new_def enter_process_def enter_upstream_def)
qed

end
