(* ===== verification/Server_Run.thy ===== *)
theory Server_Run
  imports Server_Liveness
begin

text \<open>
  The running server as a whole: what holds in every reachable state of \<open>Server_Tasks\<close>. The permits are
  accounted for, the limits and the metrics page are exact, a shutdown waits for the connections and
  can always be completed, a connection that has completed has lost nothing, and every connection,
  whatever the others do to the shared caches between its steps, behaves as \<open>accept\<close> would.
\<close>

section \<open>The upstreams of a loaded configuration\<close>

lemma add_upstreams_keeps:
  assumes "\<And>address scheme. P (Proxy (proxy_to_upstream_new address scheme))"
  shows "add_upstreams parse urls m = Inr m' \<Longrightarrow> \<forall>u \<in> set (hm_values m). P u \<Longrightarrow>
    \<forall>u \<in> set (hm_values m'). P u"
proof (induction parse urls m rule: add_upstreams.induct)
  case (2 parse name url urls m)
  then obtain p where p: "proxy_try_from parse url = Inr p"
    by (cases "proxy_try_from parse url") auto
  then have "P (Proxy p)" using assms by (auto simp: proxy_try_from_Inr)
  with 2(3) have "\<forall>u \<in> set (hm_values (hm_insert name (Proxy p) m)). P u"
    using hm_values_insert [of name "Proxy p" m] by auto
  with 2(1,2) p show ?case by simp
qed simp

lemma loaded_upstreams:
  assumes "iterates (le_order env)" and "fst (load_config env path) = Inr pc"
    and "\<And>address scheme. P (Proxy (proxy_to_upstream_new address scheme))"
    and "P Ban" and "P Echo" and "P (Health [])"
  shows "\<forall>u \<in> set (hm_values (pc_upstream pc)). P u"
proof -
  have "\<forall>u \<in> set (hm_values builtin_upstreams). P u"
    using assms(4-6) by (simp add: hm_values_def builtin_upstreams_def)
  with add_upstreams_keeps [where P = P, OF assms(3)] show ?thesis
    using assms(2) load_config_Inr [OF assms(1), of path pc] by fastforce
qed

lemma loaded_upstreams_ok:
  assumes "iterates (le_order env)" and "fst (load_config env path) = Inr pc"
  shows "upstreams_ok (pc_upstream pc)"
  unfolding upstreams_ok_def
  by (rule loaded_upstreams [OF assms]) (simp_all add: proxy_to_upstream_new_def holds_mode_new)

text \<open>Every cache is empty in a configuration that has just been loaded.\<close>

definition upstreams_fresh :: "upstream_map \<Rightarrow> bool" where
  "upstreams_fresh m \<longleftrightarrow> (\<forall>u \<in> set (hm_values m). upstream_key u = u)"

lemma loaded_upstreams_fresh:
  assumes "iterates (le_order env)" and "fst (load_config env path) = Inr pc"
  shows "upstreams_fresh (pc_upstream pc)"
  unfolding upstreams_fresh_def
  by (rule loaded_upstreams [OF assms]) (simp_all add: proxy_to_upstream_new_def upstream_address_new_def)

lemma fresh_caches_id: "upstreams_fresh (p_upstream p) \<Longrightarrow> fresh_caches p = p"
  unfolding fresh_caches_def upstreams_fresh_def
  by (subst map_idI) (auto simp: hm_values_def image_iff Ball_def)

lemma server_upstream_map:
  assumes "semaphore S" and "server_from S pc = Some sv"
  shows "sv_proxies sv = [] \<or> (\<exists>me. server_upstream sv = build_upstream me (pc_upstream pc))"
proof (cases "sv_proxies sv")
  case (Cons p ps)
  obtain me n where "sv_proxies sv = proxies_of (build_upstream me (pc_upstream pc)) n (listeners (pc_servers pc))"
    using semaphore.server_from_Some [OF assms(1,2)] by blast
  with Cons in_proxies_of [of p "build_upstream me (pc_upstream pc)" n "listeners (pc_servers pc)"]
  have "server_upstream sv = build_upstream me (pc_upstream pc)"
    by (auto simp: server_upstream_def proxy_of_def split: prod.splits)
  then show ?thesis by blast
qed simp

lemma inject_metrics_Proxy [simp]: "inject_metrics me v = Proxy pu \<longleftrightarrow> v = Proxy pu"
  by (cases v) (simp_all add: inject_metrics_def)

lemma upstreams_ok_inject: "upstreams_ok m \<Longrightarrow> upstreams_ok (build_upstream me m)"
  by (auto simp: upstreams_ok_def hm_values_def build_upstream_def)

lemma upstreams_fresh_inject:
  assumes "upstreams_fresh m"
  shows "upstreams_fresh (build_upstream me m)"
proof -
  have "upstream_key u = u \<Longrightarrow> upstream_key (inject_metrics me u) = inject_metrics me u" for u
    by (cases u) (simp_all add: inject_metrics_def)
  with assms show ?thesis by (auto simp: upstreams_fresh_def hm_values_def build_upstream_def)
qed

lemma server_upstream_from:
  assumes "semaphore S" and "server_from S pc = Some sv" and "upstreams_ok (pc_upstream pc)"
  shows "upstreams_ok (server_upstream sv) \<and>
    (\<forall>k pu. hm_get (server_upstream sv) k = Some (Proxy pu) \<longrightarrow> hm_get (pc_upstream pc) k = Some (Proxy pu))"
proof (cases "sv_proxies sv = []")
  case True
  then show ?thesis by (simp add: server_upstream_def upstreams_ok_def hm_values_def)
next
  case False
  with server_upstream_map [OF assms(1,2)] upstreams_ok_inject [OF assms(3)] show ?thesis
    by (auto simp: build_upstream_get)
qed

text \<open>So every connection of a server that runs a loaded configuration is one of \<open>accept\<close>.\<close>

lemma running_conn_is_accept:
  assumes "iterates (le_order env)" and "fst (load_config env path) = Inr pc"
    and "semaphore S" and "server_from S pc = Some sv"
    and "run (server_step S h tp (sv_proxies sv)) (run_init sv) ls st" and "c \<in> set (rn_conns st)"
  shows "if settled (cn_state c)
    then \<exists>r. fst (fst (accept tp (sv_proxies sv ! cn_proxy c) (with_answer r (observed h (cn_events c))))) =
        conn_outcome (cn_state c) \<and>
      but_lookups (snd (fst (accept tp (sv_proxies sv ! cn_proxy c) (with_answer r (observed h (cn_events c)))))) =
        but_lookups (cn_trace c)
    else but_lookups (cn_trace c) = []"
proof -
  note inv = server_run_inv [OF assms(3-5)]
  note ok = loaded_upstreams_ok [OF assms(1,2)]
  have p: "cn_proxy c < length (sv_proxies sv)" using inv(3) assms(6) by (simp add: inv_tasks_def)
  then have u: "p_upstream (sv_proxies sv ! cn_proxy c) = server_upstream sv"
    using inv(1) by (simp add: server_wf_def)
  have "upstreams_fresh (server_upstream sv)"
    using server_upstream_map [OF assms(3,4)] p upstreams_fresh_inject [OF loaded_upstreams_fresh [OF assms(1,2)]]
    by auto
  then have fresh: "fresh_caches (sv_proxies sv ! cn_proxy c) = sv_proxies sv ! cn_proxy c"
    by (simp add: fresh_caches_id u)
  have "conn_path h tp (sv_proxies sv ! cn_proxy c) C_New (cn_events c) (cn_trace c) (cn_state c)"
    using inv(5) assms(6) server_upstream_from [OF assms(3,4) ok] by (simp add: inv_conns_def conn_inv_def)
  from path_is_accept [OF this] show ?thesis unfolding fresh .
qed

lemma running_conn_attempts:
  assumes "iterates (le_order env)" and "fst (load_config env path) = Inr pc"
    and "semaphore S" and "server_from S pc = Some sv"
    and "run (server_step S h tp (sv_proxies sv)) (run_init sv) ls st" and "c \<in> set (rn_conns st)"
    and "Connect as d \<in> set (cn_trace c)"
  shows "\<exists>cenv. Connect as d \<in> set (snd (fst (accept tp (sv_proxies sv ! cn_proxy c) cenv)))"
proof -
  have a: "Connect as d \<in> set (but_lookups (cn_trace c))" using assms(7) by (simp add: but_lookups_in)
  with running_conn_is_accept [OF assms(1-6)] obtain r where
    "but_lookups (snd (fst (accept tp (sv_proxies sv ! cn_proxy c)
      (with_answer r (observed h (cn_events c)))))) = but_lookups (cn_trace c)"
    by (auto split: if_splits)
  with a show ?thesis by (metis but_lookups_in)
qed

text \<open>What such a connection has done it has done in the course of \<open>process\<close>.\<close>

lemma only_proxies_relay:
  assumes "a \<in> set (snd (fst (process u via target env)))" and "toward_upstream a"
  shows "\<exists>pu. u = Proxy pu"
proof (cases u)
  case Echo
  have "a \<notin> set (snd (copy_io evs))" for evs
    using assms(2) by (induction evs rule: copy_io.induct) auto
  with Echo assms show ?thesis by (auto simp: snd_io_bind split: outcome.splits)
qed (use assms in \<open>auto simp: snd_io_bind\<close>)

lemma only_proxies_send:
  assumes "wire_up (snd (fst (process u via target env))) \<noteq> []"
  shows "\<exists>pu. u = Proxy pu"
proof (cases u)
  case Echo
  have "wire_up (snd (copy_io evs)) = []" for evs
    by (induction evs rule: copy_io.induct) (auto simp: snd_io_bind)
  with Echo assms show ?thesis by (auto simp: snd_io_bind split: outcome.splits)
qed (use assms in \<open>auto simp: snd_io_bind\<close>)

lemma tunnelled_but_lookups: "tunnelled rs target wevs revs (but_lookups t) = tunnelled rs target wevs revs t"
proof -
  have "(\<exists>a \<in> set (but_lookups t). \<not> before_relay a) \<longleftrightarrow> (\<exists>a \<in> set t. \<not> before_relay a)"
    by (metis but_lookups_in before_relay.simps(1))
  then show ?thesis by (simp add: tunnelled_def)
qed

lemma running_conn_acts:
  assumes "iterates (le_order env)" and "fst (load_config env path) = Inr pc"
    and "semaphore S" and "server_from S pc = Some sv"
    and "run (server_step S h tp (sv_proxies sv)) (run_init sv) ls st" and "c \<in> set (rn_conns st)"
    and "a \<in> set (cn_trace c)" and "\<forall>host. a \<noteq> Lookup host"
  shows "\<exists>r snis name u via target. accept_snis tp (sv_proxies sv ! cn_proxy c) (observed h (cn_events c)) = io_ret snis \<and>
    accept_plan (sv_proxies sv ! cn_proxy c) snis = Inr ((name, u), via, target) \<and>
    conn_outcome (cn_state c) = (case fst (fst (process u via target (with_answer r (observed h (cn_events c))))) of
       Pending \<Rightarrow> Pending | _ \<Rightarrow> Ret ()) \<and>
    but_lookups (snd (fst (process u via target (with_answer r (observed h (cn_events c)))))) =
      but_lookups (cn_trace c)"
proof -
  note acc = running_conn_is_accept [OF assms(1-6)]
  have a: "a \<in> set (but_lookups (cn_trace c))" using assms(7,8) by (simp add: but_lookups_in)
  then have "settled (cn_state c)" using acc by (auto split: if_splits)
  with acc obtain r where r: "fst (fst (accept tp (sv_proxies sv ! cn_proxy c)
      (with_answer r (observed h (cn_events c))))) = conn_outcome (cn_state c)"
    "but_lookups (snd (fst (accept tp (sv_proxies sv ! cn_proxy c)
      (with_answer r (observed h (cn_events c)))))) = but_lookups (cn_trace c)"
    by auto
  with a have "a \<in> set (snd (fst (accept tp (sv_proxies sv ! cn_proxy c)
      (with_answer r (observed h (cn_events c))))))"
    by (metis but_lookups_in)
  from accept_acts [OF this] r show ?thesis by (metis observed_frame(3))
qed

section \<open>Properties\<close>

text \<open>The connections of one proxy that are running.\<close>

definition running :: "nat \<Rightarrow> 's run_state \<Rightarrow> nat" where
  "running i st = length (filter (\<lambda>c. cn_proxy c = i) (rn_conns st))"

lemma held_running:
  "inv_tasks sv st \<Longrightarrow>
     held i (rn_conns st) = (if is_health_server (sv_proxies sv ! i) then 0 else running i st)"
  unfolding running_def by (rule held_all) (simp add: inv_tasks_def)

text \<open>
  C5. Every permit is accounted for in every reachable state, however listeners, connections and
  shutdown interleave. For a proxy that is no health server, the free permits of its semaphore and its
  running connections add up to \<open>maxclients\<close>, so that it never serves more connections than that at
  once and no permit is lost or returned twice. The connections of a health server hold no permits:
  however many there are, all permits of its semaphore stay free.
\<close>

theorem permits_always_add_up:
  assumes "semaphore S" and "server_from S pc = Some sv"
    and "run (server_step S h tp (sv_proxies sv)) (run_init sv) ls st" and "i < length (sv_proxies sv)"
  shows "sem_available S (rn_sems st ! i) +
      (if is_health_server (sv_proxies sv ! i) then 0 else running i st) =
    p_maxclients_limit (sv_proxies sv ! i)"
proof -
  note inv = server_run_inv [OF assms(1-3)]
  have "sem_available S (rn_sems st ! i) + held i (rn_conns st) = p_maxclients_limit (sv_proxies sv ! i)"
    using inv(4) assms(4) by (simp add: inv_permits_def)
  then show ?thesis unfolding held_running [OF inv(3)] .
qed

text \<open>
  C17. A listener turns a connection away exactly when \<open>maxclients\<close> connections of that proxy are
  running, and admits it otherwise; one at a health server is always accepted.
\<close>

theorem rejects_exactly_at_the_limit:
  assumes "semaphore S" and "server_from S pc = Some sv"
    and "run (server_step S h tp (sv_proxies sv)) (run_init sv) ls st" and "rn_main st \<noteq> Done"
    and "i < length (rn_listeners st)" and "rn_listeners st ! i = Listening health"
  shows "(\<exists>st'. server_step S h tp (sv_proxies sv) st (Accept_Reject i) st') =
      (\<not> is_health_server (sv_proxies sv ! i) \<and> running i st = p_maxclients_limit (sv_proxies sv ! i)) \<and>
    (\<exists>st'. server_step S h tp (sv_proxies sv) st (Accept_Admit i) st') =
      (\<not> is_health_server (sv_proxies sv ! i) \<and> running i st < p_maxclients_limit (sv_proxies sv ! i)) \<and>
    (\<exists>st'. server_step S h tp (sv_proxies sv) st (Accept_Health i) st') =
      is_health_server (sv_proxies sv ! i)"
proof -
  note inv = server_run_inv [OF assms(1-3)]
  have i: "i < length (sv_proxies sv)" and h: "health = is_health_server (sv_proxies sv ! i)"
    using inv(3) assms(5,6) by (auto simp: inv_tasks_def)
  have ref: "p_maxclients (sv_proxies sv ! i) = i" using inv(1) i by (simp add: server_wf_def)
  have av: "sem_available S (rn_sems st ! i) + held i (rn_conns st) = p_maxclients_limit (sv_proxies sv ! i)"
    using inv(4) i by (simp add: inv_permits_def)
  note full = semaphore.acquire_none [OF assms(1), of "rn_sems st ! i"]
  have rej: "(\<exists>st'. server_step S h tp (sv_proxies sv) st (Accept_Reject i) st') \<longleftrightarrow>
      \<not> health \<and> sem_try_acquire S (rn_sems st ! i) = None"
    unfolding accept_is_proxy_step
    using assms(4-6) ref by (fastforce elim: rejectE intro: proxy_accept_reject)
  have adm: "(\<exists>st'. server_step S h tp (sv_proxies sv) st (Accept_Admit i) st') \<longleftrightarrow>
      \<not> health \<and> sem_try_acquire S (rn_sems st ! i) \<noteq> None"
    unfolding accept_is_proxy_step
    using assms(4-6) ref by (fastforce elim: admitE intro: proxy_accept_admit [OF _ _ refl])
  have hlt: "(\<exists>st'. server_step S h tp (sv_proxies sv) st (Accept_Health i) st') \<longleftrightarrow> health"
    unfolding accept_is_proxy_step
    using assms(4-6) by (auto elim: healthE intro!: exI proxy_accept_health)
  show ?thesis
    unfolding rej adm hlt using h full av held_running [OF inv(3), of i] by auto
qed

text \<open>
  C26. The metrics page is exact, line by line. The page is written while other connections come and go:
  the semaphore of each listener is read at a moment of its own. Whichever reachable states these
  are, the line for \<open>tpt_active_connections\<close> of every proxy that is no health server carries the
  number of connections that it served at the moment its semaphore was read, and every proxy has a
  line with its limit. The line of a health server always says 0, however many connections it serves,
  since they take no permits. If nothing moved meanwhile, the page as a whole is about one state.
\<close>

theorem metrics_page_is_exact:
  assumes "semaphore S" and "server_from S pc = Some sv"
    and "run (server_step S h tp (sv_proxies sv)) (run_init sv) ls st" and "i < length (sv_proxies sv)"
    and "hm_get (rn_upstream st) name = Some (Health m)"
    and "run (server_step S h tp (sv_proxies sv)) (run_init sv) (ls @ later i) (at i)"
  shows "length m = length (sv_proxies sv) \<and> me_name (m ! i) = p_name (sv_proxies sv ! i) \<and>
    sublist (metric_line ''tpt_active_connections'' (m ! i)
        (if is_health_server (sv_proxies sv ! i) then 0 else running i (at i)))
      (rp_body (health_handler (\<lambda>ref. sem_available S (rn_sems (at ref) ! ref)) ''/metrics'' m)) \<and>
    sublist (metric_line ''tpt_maxclients'' (m ! i) (p_maxclients_limit (sv_proxies sv ! i)))
      (rp_body (health_handler (\<lambda>ref. sem_available S (rn_sems (at ref) ! ref)) ''/metrics'' m))"
proof -
  note inv = server_run_inv [OF assms(1-3)] and read = server_run_inv [OF assms(1,2,6)]
  have "hm_get (server_upstream sv) name = Some (Health m)"
    using inv(2) assms(5) same_upstreams_Health by (auto simp: inv_upstream_def)
  then have "m = build_metrics (sv_proxies sv)"
    using server_metrics [OF assms(1,2)] assms(4) by (cases "sv_proxies sv") auto
  then have m: "length m = length (sv_proxies sv)" "me_name (m ! i) = p_name (sv_proxies sv ! i)"
    "me_maxclients_limit (m ! i) = p_maxclients_limit (sv_proxies sv ! i)" "me_semaphore (m ! i) = i"
    using assms(4) inv(1) by (simp_all add: build_metrics_def server_wf_def)
  have "active_connections (me_maxclients_limit (m ! i))
      (sem_available S (rn_sems (at (me_semaphore (m ! i))) ! me_semaphore (m ! i))) =
      (if is_health_server (sv_proxies sv ! i) then 0 else running i (at i))"
    using read(4) assms(4) held_running [OF read(3), of i]
    by (auto simp: m active_connections_def inv_permits_def)
  with m metrics_body_lines [of i m "\<lambda>ref. sem_available S (rn_sems (at ref) ! ref)"] assms(4)
  show ?thesis by (simp add: health_handler_def)
qed

text \<open>
  C18. A server only stops on a signal, and its own tasks have finished by then: when \<open>run\<close> has returned,
  a signal has been received, every listener task has ended, no connection task that a listener has
  spawned is left, and every semaphore has all its permits back. The HTTP tasks that health
  connections have detached are not among these tasks and may still be serving a request
  (\<open>shutdown_abandons_health_requests\<close>).
\<close>

theorem shutdown_is_graceful:
  assumes "semaphore S" and "server_from S pc = Some sv"
    and "run (server_step S h tp (sv_proxies sv)) (run_init sv) ls st" and "rn_main st = Done"
  shows "Signal \<in> set ls \<and> rn_conns st = [] \<and>
    rn_listeners st = replicate (length (sv_proxies sv)) Ended \<and>
    (\<forall>i < length (sv_proxies sv).
       sem_available S (rn_sems st ! i) = p_maxclients_limit (sv_proxies sv ! i))"
proof -
  note inv = server_run_inv [OF assms(1-3)]
  have t: "tracked_tasks st = 0" "rn_cancelled st" "length (rn_listeners st) = length (sv_proxies sv)"
    using inv(3) assms(4) by (simp_all add: inv_tasks_def)
  then have "\<forall>l \<in> set (rn_listeners st). l = Ended" "rn_conns st = []"
    by (auto simp: tracked_tasks_def filter_empty_conv)
  moreover have "Signal \<in> set ls"
    using cancelled_signal [OF assms(3)] t(2) by (simp add: run_init_def)
  moreover from calculation t(3) have "rn_listeners st = replicate (length (sv_proxies sv)) Ended"
    by (intro replicate_eqI) auto
  ultimately show ?thesis
    using inv(4) by (simp add: inv_permits_def)
qed

text \<open>
  C19. A shutdown can always be completed: from every reachable state in which a signal has been
  received, \<open>run\<close> can still return, without a further signal and without accepting another
  connection, whatever is running.
\<close>

theorem shutdown_can_complete:
  assumes "semaphore S" and "server_from S pc = Some sv"
    and "run (server_step S h tp (sv_proxies sv)) (run_init sv) ls st"
    and "rn_cancelled st" and "rn_main st \<noteq> Done"
  shows "\<exists>ls' st'. list_all quiet ls' \<and>
    run (server_step S h tp (sv_proxies sv)) (run_init sv) (ls @ ls') st' \<and> rn_main st' = Done"
proof -
  have "length (rn_listeners st) \<le> length (sv_proxies sv)"
    and "rn_main st = Draining \<Longrightarrow> length (rn_listeners st) = length (sv_proxies sv)"
    using server_run_inv(3) [OF assms(1-3)] by (simp_all add: inv_tasks_def)
  moreover have "conns_bound st"
    using server_run_inv(5) [OF assms(1-3)] by (simp add: conns_bound_def inv_conns_def conn_inv_def)
  ultimately have "\<exists>st'. quiet_run S h tp (sv_proxies sv) st st' \<and> rn_main st' = Done"
    by (intro server_stops [OF assms(5,4)])
  then obtain ls' st' where "list_all quiet ls'"
    "run (server_step S h tp (sv_proxies sv)) st ls' st'" "rn_main st' = Done"
    unfolding quiet_run_def by blast
  with run_append [OF _ assms(3)] show ?thesis by blast
qed

text \<open>
  Closing the task tracker does not keep new tasks out: a listener that has not yet looked at
  the token still admits a connection after the main task has begun to wait for the end.
\<close>

lemma connections_admitted_while_draining:
  assumes "semaphore S" and "server_from S pc = Some sv" and "i < length (sv_proxies sv)"
    and "p_protocol (sv_proxies sv ! i) \<in> {''tcp'', ''tcp4'', ''tcp6''}"
    and "\<not> is_health_server (sv_proxies sv ! i)" and "0 < p_maxclients_limit (sv_proxies sv ! i)"
  shows "\<exists>ls st st'. run (server_step S h tp (sv_proxies sv)) (run_init sv) ls st \<and>
    rn_main st = Draining \<and> server_step S h tp (sv_proxies sv) st (Accept_Admit i) st'"
proof -
  note wf = server_from_wf [OF assms(1,2)]
  let ?st = "(bound_state sv i)\<lparr>rn_cancelled := True\<rparr>"
  have "server_step S h tp (sv_proxies sv) (bound_state sv i) Signal ?st"
    by (rule step_signal) simp
  note signal = run_step [OF bound_run [OF wf assms(3,4)] this]
  have "server_step S h tp (sv_proxies sv) ?st Main_Close (?st\<lparr>rn_main := Draining\<rparr>)"
    by (rule step_main_close) simp_all
  note drain = run_step [OF signal this]
  have "sem_available S (sv_semaphores sv ! i) \<noteq> 0" "p_maxclients (sv_proxies sv ! i) = i"
    using wf assms(3,6) by (simp_all add: server_wf_def)
  then obtain s' where "sem_try_acquire S (rn_sems (?st\<lparr>rn_main := Draining\<rparr>) !
      p_maxclients (sv_proxies sv ! i)) = Some s'"
    using semaphore.acquire_possible [OF assms(1)] by fastforce
  then have "\<exists>st'. server_step S h tp (sv_proxies sv) (?st\<lparr>rn_main := Draining\<rparr>) (Accept_Admit i) st'"
    using assms(3,5) by (intro exI) (rule step_accept_admit [OF _ _ refl], auto)
  with drain show ?thesis by fastforce
qed

text \<open>
  A shutdown does not wait for health requests: their HTTP tasks are detached, and \<open>run\<close> can
  return while one is still serving its connection.
\<close>

lemma shutdown_abandons_health_requests:
  assumes "semaphore S" and "server_from S pc = Some sv" and "i < length (sv_proxies sv)"
    and "p_protocol (sv_proxies sv ! i) \<in> {''tcp'', ''tcp4'', ''tcp6''}"
    and "is_health_server (sv_proxies sv ! i)" and "\<not> p_tls (sv_proxies sv ! i)"
  shows "\<exists>ls st. run (server_step S h tp (sv_proxies sv)) (run_init sv) ls st \<and>
    rn_main st = Done \<and> 0 < rn_http st"
proof -
  note wf = server_from_wf [OF assms(1,2)]
  obtain ls sems where accepted: "run (server_step S h tp (sv_proxies sv)) (run_init sv) ls
      (one_conn sv i (conn_new i False) sems)"
    using accepted_run [OF wf assms(3,4), of h tp] assms(5) by auto
  let ?st = "one_conn sv i (conn_new i False) sems"
  have up: "(sv_proxies sv ! i)\<lparr>p_upstream := server_upstream sv\<rparr> = sv_proxies sv ! i"
    using wf assms(3) by (simp add: server_wf_def)
  have alone: "conn_alone h tp (sv_proxies sv ! i) (rn_upstream ?st) C_New [E_Peer (Inr (V4 0 0))] =
      Some (server_upstream sv, C_End (Ret ()), [Serve_Http])"
    by (simp add: one_conn_def conn_step_def Let_def up step_new_health [OF assms(5,6)])
  define st1 where "st1 = ?st\<lparr>rn_upstream := server_upstream sv, rn_conns := [(conn_new i False)\<lparr>
      cn_state := C_End (Ret ()), cn_events := cn_events (conn_new i False) @ [E_Peer (Inr (V4 0 0))],
      cn_trace := cn_trace (conn_new i False) @ [Serve_Http]\<rparr>],
      rn_http := rn_http ?st + count_list [Serve_Http] Serve_Http\<rparr>"
  have "run (server_step S h tp (sv_proxies sv)) ?st (map (Conn_Run 0) [E_Peer (Inr (V4 0 0))]) st1"
    unfolding st1_def using alone by (intro alone_run) (simp_all add: one_conn_def)
  note served = run_append [OF this accepted]
  have st1: "rn_main st1 = Running" "length (rn_listeners st1) = length (sv_proxies sv)" "rn_http st1 = 1"
    "conns_bound (st1\<lparr>rn_cancelled := True\<rparr>)"
    by (simp_all add: st1_def one_conn_def conns_bound_def)
  have "server_step S h tp (sv_proxies sv) st1 Signal (st1\<lparr>rn_cancelled := True\<rparr>)"
    using st1 by (intro step_signal) simp
  note signal = run_step [OF served this]
  obtain st2 where q: "quiet_run S h tp (sv_proxies sv) (st1\<lparr>rn_cancelled := True\<rparr>) st2" and "rn_main st2 = Done"
    using server_stops [of "st1\<lparr>rn_cancelled := True\<rparr>" "sv_proxies sv" S h tp] st1 by auto
  moreover obtain ls where "list_all quiet ls"
    and r: "run (server_step S h tp (sv_proxies sv)) (st1\<lparr>rn_cancelled := True\<rparr>) ls st2"
    using q unfolding quiet_run_def by blast
  moreover have "0 < rn_http st2"
    using quiet_keeps_http [OF r \<open>list_all quiet ls\<close>] st1 by simp
  ultimately show ?thesis using run_append [OF r signal] by blast
qed

text \<open>
  The address family of an upstream's URL is respected by the running server as a whole: in
  every reachable state, every address that a connection of any proxy tries to connect to belongs
  to a declared upstream of known scheme, and is an IPv4 address where that is \<open>tcp4\<close> and an IPv6
  address where it is \<open>tcp6\<close>.
\<close>

lemma running_server_respects_address_families:
  assumes "iterates (le_order env)" and "fst (load_config env path) = Inr pc"
    and "semaphore S" and "server_from S pc = Some sv"
    and "run (server_step S h tp (sv_proxies sv)) (run_init sv) ls st" and "c \<in> set (rn_conns st)"
    and "Connect as d \<in> set (cn_trace c)"
  shows "\<exists>name pu. hm_get (pc_upstream pc) name = Some (Proxy pu) \<and>
    pu_protocol pu \<in> {''tcp'', ''tcp4'', ''tcp6''} \<and>
    (pu_protocol pu = ''tcp4'' \<longrightarrow> list_all is_ipv4 as) \<and> (pu_protocol pu = ''tcp6'' \<longrightarrow> list_all is_ipv6 as)"
proof -
  from running_conn_acts [OF assms(1-7)] obtain r snis name u via target where
    plan: "accept_plan (sv_proxies sv ! cn_proxy c) snis = Inr ((name, u), via, target)"
    and t: "but_lookups (snd (fst (process u via target (with_answer r (observed h (cn_events c)))))) =
      but_lookups (cn_trace c)" by auto
  note up = server_upstream_from [OF assms(3,4) loaded_upstreams_ok [OF assms(1,2)]]
  have u: "hm_get (server_upstream sv) name = Some u"
    using accept_plan_Inr [OF plan] server_run_inv(1,3) [OF assms(3-5)] assms(6)
    by (simp add: server_wf_def inv_tasks_def)
  have "Connect as d \<in> set (but_lookups (snd (fst (process u via target
      (with_answer r (observed h (cn_events c)))))))"
    unfolding t using assms(7) by (simp add: but_lookups_in)
  then have "Connect as d \<in> set (snd (fst (process u via target (with_answer r (observed h (cn_events c))))))"
    by (simp add: but_lookups_in)
  from process_Connect [OF upstreams_ok_get [OF conjunct1 [OF up] u] this] obtain pu
    where "u = Proxy pu" "known_protocol (pu_protocol pu)"
      "list_all (allowed (mode_from_str (pu_protocol pu))) as" by auto
  with up u show ?thesis
    by (intro exI [of _ name] exI [of _ pu]) (auto simp: known_protocol_def mode_from_str_def list_all_iff)
qed

text \<open>
  C7. Connections side by side behave as \<open>accept\<close> does on its own, up to their name lookups. Take any
  reachable state of the running server and any connection in it, however its steps have been
  interleaved with those of other connections that use and refresh the same address caches, with
  listeners and with a shutdown. Once it is past its first step, and unless it is in the middle of
  \<open>resolve\<close>, its outcome so far and its trace without the lookups are those of the function \<open>accept\<close> on
  the proxy as it was built, in the environment made of the events of this connection, for some
  answer of the resolver. That answer stands for whatever \<open>resolve\<close> gave to the connection: it need not
  be one that the connection was given itself, since addresses can come from a cache that others
  have filled or emptied (\<open>overtaken_call_returns_no_addresses\<close>). Before its first step and within
  \<open>resolve\<close>, a connection has done nothing but look up.
\<close>

theorem running_connections_behave_as_accept:
  assumes "iterates (le_order env)" and "fst (load_config env path) = Inr pc"
    and "semaphore S" and "server_from S pc = Some sv"
    and "run (server_step S h tp (sv_proxies sv)) (run_init sv) ls st" and "c \<in> set (rn_conns st)"
  shows "if settled (cn_state c)
    then \<exists>r. fst (fst (accept tp (sv_proxies sv ! cn_proxy c) (with_answer r (observed h (cn_events c))))) =
        conn_outcome (cn_state c) \<and>
      but_lookups (snd (fst (accept tp (sv_proxies sv ! cn_proxy c) (with_answer r (observed h (cn_events c)))))) =
        but_lookups (cn_trace c)
    else but_lookups (cn_trace c) = []"
  using assms by (rule running_conn_is_accept)

text \<open>
  C3. A connection of the running server that has completed has lost nothing. In every reachable
  state, for a connection that has begun to relay towards its upstream and has returned, both
  directions have ended: each by end of stream, by an error of its reader or by a failed write.
  Unless a write to the upstream failed, the upstream has been sent, after the bytes of the handshake if
  there was one, exactly the bytes read from the client; unless a write to the client failed, the
  client has been sent exactly the bytes read from the upstream after the handshake.
\<close>

theorem completed_connections_lose_nothing:
  assumes "iterates (le_order env)" and "fst (load_config env path) = Inr pc"
    and "semaphore S" and "server_from S pc = Some sv"
    and "run (server_step S h tp (sv_proxies sv)) (run_init sv) ls st" and "c \<in> set (rn_conns st)"
    and "a \<in> set (cn_trace c)" and "toward_upstream a" and "cn_state c = C_End (Ret ())"
  shows "let evs = ce_relay (observed h (cn_events c)) in
    copy_ends (lefts evs) \<and> copy_ends (rights evs) \<and>
    (\<not> write_fails (lefts evs) \<longrightarrow>
       wire_up (cn_trace c) = up_written (cn_trace c) @ read_bytes (lefts evs)) \<and>
    (\<not> write_fails (rights evs) \<longrightarrow> wire_down (cn_trace c) = read_bytes (rights evs))"
proof -
  let ?obs = "observed h (cn_events c)"
  have up: "\<not> before_relay a" "\<forall>host. a \<noteq> Lookup host" using assms(8) by (cases a; simp)+
  from running_conn_acts [OF assms(1-7) up(2)] assms(9) obtain r' u via target where
    ret: "Ret () = (case fst (fst (process u via target (with_answer r' ?obs))) of Pending \<Rightarrow> Pending | _ \<Rightarrow> Ret ())"
    and t: "but_lookups (snd (fst (process u via target (with_answer r' ?obs)))) = but_lookups (cn_trace c)"
    by auto
  have "a \<in> set (but_lookups (snd (fst (process u via target (with_answer r' ?obs)))))"
    unfolding t using assms(7) up by (simp add: but_lookups_in)
  then have a: "a \<in> set (snd (fst (process u via target (with_answer r' ?obs))))"
    by (simp add: but_lookups_in)
  then obtain pu where pu: "u = Proxy pu" using only_proxies_relay [OF _ assms(8)] by blast
  have wires: "wire_up (cn_trace c) = wire_up (snd (fst (process u via target (with_answer r' ?obs))))"
    "wire_down (cn_trace c) = wire_down (snd (fst (process u via target (with_answer r' ?obs))))"
    "up_written (cn_trace c) = up_written (snd (fst (process u via target (with_answer r' ?obs))))"
    using arg_cong [OF t, of wire_up] arg_cong [OF t, of wire_down] arg_cong [OF t, of up_written] by simp_all
  have "fst (fst (process (Proxy pu) via target (with_answer r' ?obs))) \<noteq> Pending"
    using ret unfolding pu by (cases "fst (fst (process (Proxy pu) via target (with_answer r' ?obs)))") simp_all
  from proxied_complete [OF a [unfolded pu] up(1) this] show ?thesis by (simp add: Let_def wires pu)
qed

text \<open>
  The events that come from outside: a socket has something to report, or the resolver answers. The
  others are a connection's own doing: its first step, a lock or the clock in \<open>resolve\<close>, the timeout
  of a connection attempt, a tick of the statistics.
\<close>

fun from_peer :: "conn_event \<Rightarrow> bool" where
  "from_peer (E_Peer r) = False"
| "from_peer (E_Resolve Go) = False"
| "from_peer (E_Resolve (At now)) = False"
| "from_peer (E_Connect (Connect_Timeout m) outbound_nodelay inbound_nodelay) = False"
| "from_peer (E_Relay Tick) = False"
| "from_peer ev = True"

text \<open>The states in which only such an event brings a connection any further.\<close>

fun awaits_peer :: "conn_state \<Rightarrow> bool" where
  "awaits_peer (C_Resolve tn pc) = (pc = R_Lookup)"
| "awaits_peer (C_Relay tn s) = (\<not> relay_joined s)"
| "awaits_peer st = (st = C_Peek \<or> st = C_Echo \<or>
     (\<exists>tn buf written. st = C_Write tn buf written) \<or> (\<exists>tn acc. st = C_Read tn acc))"

lemma awaits_peer_step:
  assumes "conn_step h tp proxy m st ev = Some (m', st', t)" and "awaits_peer st" and "\<not> from_peer ev"
  shows "awaits_peer st'"
  using assms(1)
proof (cases rule: conn_step_cases)
  case (at_resolve tn pc e)
  with assms(2,3) show ?thesis
    by (cases e) (auto simp: step_resolve_def split: option.splits upstream.splits)
next
  case (at_relay tn s e)
  with assms(2,3) show ?thesis
    by (cases e) (auto simp: step_relay_def relay_joined_def split: if_splits)
qed (use assms(2,3) in auto)

text \<open>
  C20. The shutdown has no deadline. Take any state with a connection that waits for one of its sockets or
  for the resolver: in \<open>peek\<close>, in the echo, at \<open>lookup_host\<close>, in the handshake or in the relay. As long
  as no socket of a connection reports anything and the resolver does not answer, this connection
  goes on waiting, and \<open>run\<close> does not return: no number of signals, no step of the listeners, of the
  main task or of detached tasks, no first step, no lock or clock in \<open>resolve\<close>, no expired connection
  attempt of another connection and no statistics tick changes that. (A connection that is itself at its
  connection attempt is not covered: the timeout ends that attempt.)
\<close>

theorem shutdown_waits_for_open_connections:
  assumes "c \<in> set (rn_conns st)" and "awaits_peer (cn_state c)" and "rn_main st \<noteq> Done"
    and "run (server_step S h tp proxies) st ls st'" and "\<forall>j ev. Conn_Run j ev \<in> set ls \<longrightarrow> \<not> from_peer ev"
  shows "rn_main st' \<noteq> Done \<and> (\<exists>c' \<in> set (rn_conns st'). awaits_peer (cn_state c') \<and>
    cn_proxy c' = cn_proxy c \<and> cn_permit c' = cn_permit c \<and>
    prefix (cn_events c) (cn_events c') \<and> prefix (cn_trace c) (cn_trace c'))"
  using assms(4,5)
proof (induction rule: run.induct)
  case (run_step ls1 st1 e st2)
  then obtain c1 where c1: "c1 \<in> set (rn_conns st1)" "awaits_peer (cn_state c1)"
      "cn_proxy c1 = cn_proxy c" "cn_permit c1 = cn_permit c"
      "prefix (cn_events c) (cn_events c1)" "prefix (cn_trace c) (cn_trace c1)"
    and st1: "rn_main st1 \<noteq> Done" and e: "\<forall>j ev. e = Conn_Run j ev \<longrightarrow> \<not> from_peer ev" by auto
  from run_step.hyps(2) show ?case
  proof cases
    case by_main
    then show ?thesis using c1 st1 by cases (auto simp: tracked_tasks_def)
  next
    case by_proxy
    then show ?thesis
    proof cases
      case (proxy_conn_drop j c' r)
      then have "c1 \<noteq> rn_conns st1 ! j" using c1(2) by auto
      with c1(1) have "c1 \<in> set (take j (rn_conns st1) @ drop (Suc j) (rn_conns st1))"
        using id_take_nth_drop [OF proxy_conn_drop(4)] by (metis Un_iff set_append set_ConsD)
      with proxy_conn_drop c1 st1 show ?thesis by auto
    next
      case (proxy_conn_run j c' ev upstream' s t)
      show ?thesis
      proof (cases "c1 = rn_conns st1 ! j")
        case True
        have "awaits_peer s"
          using awaits_peer_step [OF proxy_conn_run(6)] c1(2) True e proxy_conn_run(1,5) by auto
        moreover have "conn_advance c1 ev s t \<in> set ((rn_conns st1)[j := conn_advance c1 ev s t])"
          using proxy_conn_run(4) by (rule set_update_memI)
        ultimately show ?thesis
          using proxy_conn_run True c1 st1
          by (intro conjI bexI [of _ "conn_advance c1 ev s t"]) (simp_all add: conn_advance_def)
      next
        case False
        obtain i where "i < length (rn_conns st1)" "c1 = rn_conns st1 ! i"
          using c1(1) by (metis in_set_conv_nth)
        with False have "c1 \<in> set ((rn_conns st1)[j := conn_advance c' ev s t])"
          by (metis in_set_conv_nth length_list_update nth_list_update_neq)
        with proxy_conn_run c1 st1 show ?thesis by auto
      qed
    qed (use c1 st1 in auto)
  qed
qed (use assms in auto)

text \<open>
  C25. Connections are well-formed and never stuck. In every reachable state, a connection that resolves
  refers to a proxy upstream of the shared map, of the protocol it was routed by and one that is known;
  its write loop has bytes left in its buffer; its read loop has room left and has not yet
  seen the end of a header; its relay has a direction that is still open. And a connection that has not
  returned always has a next step: no answer it waits for can find it in a state
  in which the code would panic or look up something that is not there.
\<close>

theorem connections_are_well_formed:
  assumes "semaphore S" and "server_from S pc = Some sv"
    and "run (server_step S h tp (sv_proxies sv)) (run_init sv) ls st" and "j < length (rn_conns st)"
  shows "conn_bound (rn_upstream st) (cn_state (rn_conns st ! j)) \<and> conn_waits (cn_state (rn_conns st ! j)) \<and>
    (if \<exists>r. cn_state (rn_conns st ! j) = C_End r
     then \<exists>st'. server_step S h tp (sv_proxies sv) st (Conn_Drop j) st'
     else \<exists>ev st'. server_step S h tp (sv_proxies sv) st (Conn_Run j ev) st')"
proof -
  let ?c = "rn_conns st ! j"
  note inv = server_run_inv [OF assms(1-3)]
  have wf: "conn_bound (rn_upstream st) (cn_state ?c)" "conn_waits (cn_state ?c)"
    using inv(5) assms(4) by (simp_all add: inv_conns_def conn_inv_def)
  have live: "rn_main st \<noteq> Done"
    using inv(3) assms(4) by (auto simp: inv_tasks_def tracked_tasks_def)
  show ?thesis
  proof (cases "\<exists>r. cn_state ?c = C_End r")
    case True
    then obtain r where "cn_state ?c = C_End r" by blast
    from step_conn_drop [OF live assms(4) refl this refl, of S h tp "sv_proxies sv"] True wf
    show ?thesis by auto
  next
    case False
    with conn_can_step [OF wf(1), of h tp "sv_proxies sv ! cn_proxy ?c"] obtain ev m s t where
      "conn_step h tp (sv_proxies sv ! cn_proxy ?c) (rn_upstream st) (cn_state ?c) ev = Some (m, s, t)" by blast
    from step_conn_run [OF live assms(4) refl this, of S] False wf show ?thesis by auto
  qed
qed

text \<open>
  C2. What the running server sends to an upstream, at every moment of every connection. In every
  reachable state, a connection that has sent anything to an upstream has been routed to a proxy
  upstream by the names it has peeked. Without a CONNECT target its upstream has been sent an initial part of
  what was read from the client, and nothing else. With one (\<open>tunnelled\<close>), it has been sent an
  initial part of the request for that target with the configured headers, followed by an initial
  part of what was read from the client; and once anything has been relayed, in either direction or
  as an end of stream, the upstream has answered with a complete header of a status from 200 to
  299, and the request has been sent in full, unless the socket accepted a write with zero bytes.
  The client has been sent an initial part of what was read from the upstream after that.
\<close>

theorem running_relay_follows_handshake:
  assumes "iterates (le_order env)" and "fst (load_config env path) = Inr pc"
    and "semaphore S" and "server_from S pc = Some sv"
    and "run (server_step S h tp (sv_proxies sv)) (run_init sv) ls st" and "c \<in> set (rn_conns st)"
    and "wire_up (cn_trace c) \<noteq> []" and "evs = observed h (cn_events c)"
  shows "\<exists>snis name pu via target.
    accept_snis tp (sv_proxies sv ! cn_proxy c) evs = io_ret snis \<and>
    accept_plan (sv_proxies sv ! cn_proxy c) snis = Inr ((name, Proxy pu), via, target) \<and>
    (case target of
       None \<Rightarrow> up_written (cn_trace c) = [] \<and>
         prefix (wire_up (cn_trace c)) (read_bytes (lefts (ce_relay evs))) \<and>
         prefix (wire_down (cn_trace c)) (read_bytes (rights (ce_relay evs)))
     | Some host \<Rightarrow> \<exists>rs. resolved_headers (he_alnum h) (he_vars h) (via_headers via) = Inr rs \<and>
         tunnelled rs host (ce_writes evs) (ce_relay evs) (cn_trace c))"
proof -
  obtain a where a: "a \<in> set (cn_trace c)" "\<forall>host. a \<noteq> Lookup host"
  proof (rule ccontr)
    assume "\<not> thesis"
    with that have "\<forall>a \<in> set (cn_trace c). \<exists>host. a = Lookup host" by blast
    then have "wire_up (cn_trace c) = []" by (fastforce simp: wire_up_def)
    with assms(7) show False by simp
  qed
  from running_conn_acts [OF assms(1-6) a] obtain r snis name u via target where
    snis: "accept_snis tp (sv_proxies sv ! cn_proxy c) evs = io_ret snis"
    and plan: "accept_plan (sv_proxies sv ! cn_proxy c) snis = Inr ((name, u), via, target)"
    and t: "but_lookups (snd (fst (process u via target (with_answer r evs)))) = but_lookups (cn_trace c)"
    unfolding assms(8) by auto
  have wires: "wire_up (snd (fst (process u via target (with_answer r evs)))) = wire_up (cn_trace c)"
    "wire_down (snd (fst (process u via target (with_answer r evs)))) = wire_down (cn_trace c)"
    "up_written (snd (fst (process u via target (with_answer r evs)))) = up_written (cn_trace c)"
    using arg_cong [OF t, of wire_up] arg_cong [OF t, of wire_down] arg_cong [OF t, of up_written] by simp_all
  from assms(7) only_proxies_send [of u via target "with_answer r evs"] wires(1)
  obtain pu where pu: "u = Proxy pu" by auto
  show ?thesis
  proof (cases target)
    case None
    with direct_stages [of pu via "with_answer r evs"] wires pu snis plan show ?thesis by auto
  next
    case (Some host)
    have host: "ce_alnum (with_answer r evs) = he_alnum h" "ce_vars (with_answer r evs) = he_vars h"
      using on_host_observed(1) [of h "cn_events c"] by (simp_all add: on_host_def with_answer_def assms(8))
    note tun = proxied_tunnelled [where env = "with_answer r evs" and via = via and pu = pu and target = host,
        unfolded host]
    show ?thesis
    proof (cases "resolved_headers (he_alnum h) (he_vars h) (via_headers via)")
      case (Inl e)
      with tun before_relay_wire [of "proxied pu via (Some host) (with_answer r evs)"] wires(1) assms(7) pu Some
      show ?thesis by auto
    next
      case (Inr rs)
      with tun have "tunnelled rs host (ce_writes evs) (ce_relay evs)
          (but_lookups (proxied pu via (Some host) (with_answer r evs)))"
        by (simp add: tunnelled_but_lookups)
      then have "tunnelled rs host (ce_writes evs) (ce_relay evs) (cn_trace c)"
        using t unfolding pu Some by (simp only: tunnelled_but_lookups)
      with Inr snis plan pu Some show ?thesis by auto
    qed
  qed
qed

section \<open>Witnesses\<close>

definition he_ex :: host_env where
  "he_ex = \<lparr>he_info_enabled = True, he_vars = env_pw, he_alnum = no_table\<rparr>"

text \<open>The server of one TCP listener with 100 permits; one connection has been admitted.\<close>

lemma plain_proxy:
  assumes "server_from counting_sem (pc_ex (raw_server_plain v)) = Some sv"
  shows "\<exists>u. sv_proxies sv = [\<lparr>p_name = ''web'', p_listen = V4 2130706433 8081, p_protocol = ''tcp'', p_tls = False,
     p_sni = None, p_default_action = ''remote'', p_upstream = u, p_via = sc_via (server_of_raw (raw_server_plain v)),
     p_maxclients = 0, p_maxclients_limit = 100\<rparr>] \<and> hm_get u ''remote'' = Some (Proxy upstream_h80) \<and>
   (\<exists>m. hm_get u ''health'' = Some (Health m))"
proof -
  have "listeners (pc_servers (pc_ex (raw_server_plain v))) =
      [(''web'', server_of_raw (raw_server_plain v), V4 2130706433 8081)]"
    by (simp add: pc_ex_def server_of_raw_def raw_server_plain_def listen_ex)
  then obtain me where "sv_proxies sv = proxies_of
      (build_upstream me (pc_upstream (pc_ex (raw_server_plain v)))) 0
      [(''web'', server_of_raw (raw_server_plain v), V4 2130706433 8081)]"
    using counting.server_from_Some [OF assms] by auto
  then show ?thesis
    by (intro exI [of _ "build_upstream me (pc_upstream (pc_ex (raw_server_plain v)))"])
      (simp add: proxy_of_def server_of_raw_def raw_server_plain_def default_maxclients_def
        build_upstream_get pc_ex_def builtin_upstreams_def inject_metrics_def)
qed

lemma server_ex_proxy:
  "\<exists>u. sv_proxies sv_ex = [\<lparr>p_name = ''web'', p_listen = V4 2130706433 8081, p_protocol = ''tcp'', p_tls = False,
     p_sni = None, p_default_action = ''remote'', p_upstream = u, p_via = via_default, p_maxclients = 0,
     p_maxclients_limit = 100\<rparr>] \<and> hm_get u ''remote'' = Some (Proxy upstream_h80) \<and>
   (\<exists>m. hm_get u ''health'' = Some (Health m))"
proof -
  have "sc_via (server_of_raw (raw_server_plain None)) = via_default"
    by (simp add: server_of_raw_def raw_server_plain_def)
  with plain_proxy [OF server_ex] show ?thesis by simp
qed

lemma server_ex_facts:
  "length (sv_proxies sv_ex) = 1" "p_protocol (sv_proxies sv_ex ! 0) = ''tcp''"
  "p_maxclients_limit (sv_proxies sv_ex ! 0) = 100" "\<not> p_tls (sv_proxies sv_ex ! 0)"
  "\<not> is_health_server (sv_proxies sv_ex ! 0)"
  using server_ex_proxy by (auto simp: is_health_server_iff)

lemma server_ex_wf: "server_wf counting_sem sv_ex"
  by (rule server_from_wf [OF counting.semaphore_axioms server_ex])

lemma bound_ex:
  "run (server_step counting_sem h tp (sv_proxies sv_ex)) (run_init sv_ex) [Spawn, Bind_Ok 0] (bound_state sv_ex 0)"
  using bound_run [OF server_ex_wf, of 0] by (simp add: server_ex_facts)

theorem permits_always_add_up_witness:
  "sem_available counting_sem (rn_sems (bound_state sv_ex 0) ! 0) + running 0 (bound_state sv_ex 0) = 100"
  using permits_always_add_up [OF counting.semaphore_axioms server_ex bound_ex [of he_ex "sni_parser []"], of 0]
  by (simp add: server_ex_facts)

theorem rejects_exactly_at_the_limit_witness:
  "\<exists>st'. server_step counting_sem he_ex (sni_parser []) (sv_proxies sv_ex) (bound_state sv_ex 0) (Accept_Admit 0) st'"
proof -
  have st: "rn_main (bound_state sv_ex 0) \<noteq> Done" "0 < length (rn_listeners (bound_state sv_ex 0))"
    "rn_listeners (bound_state sv_ex 0) ! 0 = Listening False" "running 0 (bound_state sv_ex 0) = 0"
    by (simp_all add: server_ex_facts running_def)
  with rejects_exactly_at_the_limit [OF counting.semaphore_axioms server_ex bound_ex [of he_ex "sni_parser []"] st(1-3)]
  show ?thesis by (simp add: server_ex_facts)
qed

theorem metrics_page_is_exact_witness:
  "\<exists>m. hm_get (rn_upstream (bound_state sv_ex 0)) ''health'' = Some (Health m) \<and> me_name (m ! 0) = ''web'' \<and>
     sublist (metric_line ''tpt_active_connections'' (m ! 0) 0)
       (rp_body (health_handler (\<lambda>ref. sem_available counting_sem (rn_sems (bound_state sv_ex 0) ! ref)) ''/metrics'' m))"
proof -
  obtain m where m: "hm_get (rn_upstream (bound_state sv_ex 0)) ''health'' = Some (Health m)"
    and n: "p_name (sv_proxies sv_ex ! 0) = ''web''"
    using server_ex_proxy by (auto simp: server_upstream_def)
  have "running 0 (bound_state sv_ex 0) = 0" by (simp add: running_def)
  with metrics_page_is_exact [OF counting.semaphore_axioms server_ex bound_ex [of he_ex "sni_parser []"] _ m,
      of 0 "\<lambda>_. []" "\<lambda>_. bound_state sv_ex 0"] bound_ex [of he_ex "sni_parser []"] m n
  show ?thesis by (simp add: server_ex_facts)
qed

lemma stopped_ex:
  "\<exists>ls st. run (server_step counting_sem he_ex (sni_parser []) (sv_proxies sv_ex)) (run_init sv_ex) ls st \<and>
     rn_main st = Done"
proof -
  have "server_step counting_sem he_ex (sni_parser []) (sv_proxies sv_ex) (bound_state sv_ex 0) Signal
      ((bound_state sv_ex 0)\<lparr>rn_cancelled := True\<rparr>)"
    by (rule step_signal) simp
  note signal = run_step [OF bound_ex this]
  from server_stops [of "(bound_state sv_ex 0)\<lparr>rn_cancelled := True\<rparr>" "sv_proxies sv_ex" counting_sem he_ex "sni_parser []"]
  obtain st ls where "run (server_step counting_sem he_ex (sni_parser []) (sv_proxies sv_ex))
      ((bound_state sv_ex 0)\<lparr>rn_cancelled := True\<rparr>) ls st" "rn_main st = Done"
    by (auto simp: quiet_run_def conns_bound_def)
  with run_append [OF _ signal] show ?thesis by blast
qed

theorem shutdown_is_graceful_witness:
  "\<exists>ls st. run (server_step counting_sem he_ex (sni_parser []) (sv_proxies sv_ex)) (run_init sv_ex) ls st \<and>
     rn_listeners st = [Ended] \<and> Signal \<in> set ls"
proof -
  obtain ls st where "run (server_step counting_sem he_ex (sni_parser []) (sv_proxies sv_ex)) (run_init sv_ex) ls st"
    "rn_main st = Done" using stopped_ex by blast
  with shutdown_is_graceful [OF counting.semaphore_axioms server_ex this] show ?thesis
    by (auto simp: server_ex_facts)
qed

theorem shutdown_can_complete_witness:
  "\<exists>ls' st'. list_all quiet ls' \<and> rn_main st' = Done \<and>
     run (server_step counting_sem he_ex (sni_parser []) (sv_proxies sv_ex)) (run_init sv_ex)
       ([Spawn, Bind_Ok 0, Signal] @ ls') st'"
proof -
  have "server_step counting_sem he_ex (sni_parser []) (sv_proxies sv_ex) (bound_state sv_ex 0) Signal
      ((bound_state sv_ex 0)\<lparr>rn_cancelled := True\<rparr>)"
    by (rule step_signal) simp
  note signal = run_step [OF bound_ex this]
  from shutdown_can_complete [OF counting.semaphore_axioms server_ex signal] show ?thesis by auto
qed

definition raw_health :: raw_server where
  "raw_health = (raw_server_plain None)\<lparr>rs_default := Some ''health''\<rparr>"

definition sv_health :: "usize server" where
  "sv_health = the (server_from counting_sem (pc_ex raw_health))"

lemma server_health: "server_from counting_sem (pc_ex raw_health) = Some sv_health"
proof -
  have "server_from counting_sem (pc_ex raw_health) \<noteq> None"
    unfolding counting.server_from_None
    by (simp add: pc_ex_def raw_health_def server_of_raw_def raw_server_plain_def default_maxclients_def
        listen_ex max_permits_def)
  then show ?thesis by (simp add: sv_health_def)
qed

text \<open>A connection of \<open>sv_ex\<close> that has been connected and has relayed its first bytes.\<close>

definition conn_events_ex :: "conn_event list" where
  "conn_events_ex = [E_Peer (Inr up4), E_Resolve Go, E_Resolve (Answer (Inr [up4, up6])), E_Resolve Go,
     E_Resolve (At 5), E_Resolve Go, E_Connect Connected (Inr ()) (Inr ()),
     E_Relay (Tx (Copy_Read ''ping'' All_Written))]"

definition conn_trace_ex :: "action list" where
  "conn_trace_ex = [Lookup ''h:80'', Connect [up4] 0, To_Upstream ''ping'']"

definition tn_ex :: tunnel where
  "tn_ex = \<lparr>tn_key = ''remote'', tn_protocol = ''tcp4'', tn_via = via_default, tn_target = None\<rparr>"

lemma up_ex: "hm_get (server_upstream sv_ex) ''remote'' = Some (Proxy upstream_h80)"
  using server_ex_proxy by (auto simp: server_upstream_def)

lemma conn_step_ex:
  "conn_step he_ex (sni_parser []) (sv_proxies sv_ex ! 0) (server_upstream sv_ex) C_New (E_Peer (Inr up4)) =
     Some (server_upstream sv_ex, C_Resolve tn_ex R_Start, [])"
proof -
  have "p_default_action (sv_proxies sv_ex ! 0) = ''remote''" "p_sni (sv_proxies sv_ex ! 0) = None"
    "p_via (sv_proxies sv_ex ! 0) = via_default" "\<not> p_tls (sv_proxies sv_ex ! 0)"
    using server_ex_proxy by auto
  with up_ex have "step_new he_ex ((sv_proxies sv_ex ! 0)\<lparr>p_upstream := server_upstream sv_ex\<rparr>) (Inr up4) =
      (C_Resolve tn_ex R_Start, [])"
    by (simp add: step_new_def enter_process_def enter_upstream_def accept_plan_def route_def tn_ex_def
        select_upstream_def Let_def connect_target_of_def via_default_def upstream_h80_def
        proxy_to_upstream_new_def split: bool.split)
  then show ?thesis by (simp add: conn_step_def Let_def)
qed

lemma plain_conn_run:
  assumes "server_from counting_sem (pc_ex (raw_server_plain v)) = Some sv"
    and "conn_alone he_ex (sni_parser []) (sv_proxies sv ! 0) (server_upstream sv) C_New evs = Some (m, s, t)"
  shows "\<exists>ls st. run (server_step counting_sem he_ex (sni_parser []) (sv_proxies sv)) (run_init sv)
      (ls @ map (Conn_Run 0) evs) st \<and>
     rn_conns st = [\<lparr>cn_proxy = 0, cn_permit = True, cn_state = s, cn_events = evs, cn_trace = t\<rparr>]"
proof -
  note wf = server_from_wf [OF counting.semaphore_axioms assms(1)]
  have p: "length (sv_proxies sv) = 1" "p_protocol (sv_proxies sv ! 0) = ''tcp''"
    "p_maxclients_limit (sv_proxies sv ! 0) = 100" "\<not> is_health_server (sv_proxies sv ! 0)"
    using plain_proxy [OF assms(1)] by (auto simp: is_health_server_iff)
  have "sem_available counting_sem (sv_semaphores sv ! 0) = 100"
    using wf p by (simp add: server_wf_def)
  then have "sem_try_acquire counting_sem (sv_semaphores sv ! 0) \<noteq> None"
    using semaphore.acquire_none [OF counting.semaphore_axioms, of "sv_semaphores sv ! 0"] by simp
  then obtain ls sems where run: "run (server_step counting_sem he_ex (sni_parser []) (sv_proxies sv))
      (run_init sv) ls (one_conn sv 0 (conn_new 0 True) sems)"
    using accepted_run [OF wf, of 0] p by fastforce
  have "run (server_step counting_sem he_ex (sni_parser []) (sv_proxies sv))
      (one_conn sv 0 (conn_new 0 True) sems) (map (Conn_Run 0) evs)
      ((one_conn sv 0 (conn_new 0 True) sems)\<lparr>rn_upstream := m, rn_conns := [(conn_new 0 True)\<lparr>cn_state := s,
        cn_events := evs, cn_trace := t\<rparr>], rn_http := 0 + count_list t Serve_Http\<rparr>)"
    using alone_run [of he_ex "sni_parser []" "sv_proxies sv" "conn_new 0 True"
        "one_conn sv 0 (conn_new 0 True) sems"] assms(2)
    by (simp add: one_conn_def)
  from run_append [OF this run] show ?thesis by (fastforce simp: conn_new_def)
qed

lemmas conn_ex_run = plain_conn_run [OF server_ex]

lemmas conn_ex_defs = conn_step_def step_resolve_def upstream_h80_def proxy_to_upstream_new_def
  upstream_address_new_def is_resolved_def mode_from_str_def up4_def up6_def tn_ex_def via_default_def

lemma conn_ex:
  "\<exists>ls st s. run (server_step counting_sem he_ex (sni_parser []) (sv_proxies sv_ex)) (run_init sv_ex) ls st \<and>
     rn_conns st = [\<lparr>cn_proxy = 0, cn_permit = True, cn_state = C_Relay tn_ex s,
       cn_events = conn_events_ex, cn_trace = conn_trace_ex\<rparr>]"
proof -
  have "\<exists>m s. conn_alone he_ex (sni_parser []) (sv_proxies sv_ex ! 0) (server_upstream sv_ex) C_New conn_events_ex =
      Some (m, C_Relay tn_ex s, conn_trace_ex)"
    using conn_step_ex up_ex
    by (simp add: conn_events_ex_def conn_trace_ex_def conn_ex_defs step_connect_def enter_tunnel_def
        step_relay_def Let_def copy_counted_step_def relay_new_def copier_new_def copy_buf_len_def relay_joined_def)
  then obtain m s where "conn_alone he_ex (sni_parser []) (sv_proxies sv_ex ! 0) (server_upstream sv_ex) C_New
      conn_events_ex = Some (m, C_Relay tn_ex s, conn_trace_ex)" by blast
  from conn_ex_run [OF this] show ?thesis by blast
qed

theorem running_connections_behave_as_accept_witness:
  "\<exists>env. but_lookups (snd (fst (accept (sni_parser []) (sv_proxies sv_ex ! 0) env))) =
     [Connect [up4] 0, To_Upstream ''ping'']"
proof -
  obtain ls st s where "run (server_step counting_sem he_ex (sni_parser []) (sv_proxies sv_ex)) (run_init sv_ex) ls st"
    and c: "rn_conns st = [\<lparr>cn_proxy = 0, cn_permit = True, cn_state = C_Relay tn_ex s,
       cn_events = conn_events_ex, cn_trace = conn_trace_ex\<rparr>]" using conn_ex by blast
  from running_connections_behave_as_accept [OF iterates_ex load_ex counting.semaphore_axioms server_ex this(1),
      of "rn_conns st ! 0"] c
  show ?thesis by (auto simp: conn_trace_ex_def)
qed

theorem connections_are_well_formed_witness:
  "\<exists>st ev st'. rn_conns st \<noteq> [] \<and>
     server_step counting_sem he_ex (sni_parser []) (sv_proxies sv_ex) st (Conn_Run 0 ev) st'"
proof -
  obtain ls st s where "run (server_step counting_sem he_ex (sni_parser []) (sv_proxies sv_ex)) (run_init sv_ex) ls st"
    and c: "rn_conns st = [\<lparr>cn_proxy = 0, cn_permit = True, cn_state = C_Relay tn_ex s,
       cn_events = conn_events_ex, cn_trace = conn_trace_ex\<rparr>]" using conn_ex by blast
  from connections_are_well_formed [OF counting.semaphore_axioms server_ex this(1), of 0] c
  have "\<exists>ev st'. server_step counting_sem he_ex (sni_parser []) (sv_proxies sv_ex) st (Conn_Run 0 ev) st'"
    by auto
  with c show ?thesis by (intro exI [of _ st]) auto
qed

text \<open>A server whose block has a \<open>via\<close> with a CONNECT target, and a connection through its tunnel.\<close>

definition raw_via_ex :: raw_via where
  "raw_via_ex = raw_via_empty\<lparr>rv_target := Some ''a:443''\<rparr>"

definition via_ex :: via_upstream where
  "via_ex = via_of_raw raw_via_ex"

definition sv_tunnel :: "usize server" where
  "sv_tunnel = the (server_from counting_sem (pc_ex (raw_server_plain (Some raw_via_ex))))"

lemma server_tunnel: "server_from counting_sem (pc_ex (raw_server_plain (Some raw_via_ex))) = Some sv_tunnel"
proof -
  have "server_from counting_sem (pc_ex (raw_server_plain (Some raw_via_ex))) \<noteq> None"
    unfolding counting.server_from_None
    by (simp add: pc_ex_def server_of_raw_def raw_server_plain_def default_maxclients_def listen_ex max_permits_def)
  then show ?thesis by (simp add: sv_tunnel_def)
qed

lemma tunnel_proxy:
  "p_default_action (sv_proxies sv_tunnel ! 0) = ''remote''" "p_sni (sv_proxies sv_tunnel ! 0) = None"
  "p_via (sv_proxies sv_tunnel ! 0) = via_ex" "\<not> p_tls (sv_proxies sv_tunnel ! 0)"
  "hm_get (p_upstream (sv_proxies sv_tunnel ! 0)) ''remote'' = Some (Proxy upstream_h80)"
  "hm_get (server_upstream sv_tunnel) ''remote'' = Some (Proxy upstream_h80)"
  using plain_proxy [OF server_tunnel]
  by (auto simp: server_upstream_def server_of_raw_def raw_server_plain_def via_ex_def)

definition conn_events_tunnel :: "conn_event list" where
  "conn_events_tunnel = [E_Peer (Inr up4), E_Resolve Go, E_Resolve (Answer (Inr [up4])), E_Resolve Go,
     E_Resolve (At 5), E_Resolve Go, E_Connect Connected (Inr ()) (Inr ()), E_Write (Try_Write 10),
     E_Write (Try_Write 1000), E_Read (Try_Read ok_response), E_Relay (Tx (Copy_Read ''ping'' All_Written))]"

definition tn_tunnel :: tunnel where
  "tn_tunnel = \<lparr>tn_key = ''remote'', tn_protocol = ''tcp4'', tn_via = via_ex, tn_target = Some ''a:443''\<rparr>"

definition conn_trace_tunnel :: "action list" where
  "conn_trace_tunnel = [Lookup ''h:80'', Connect [up4] (from_secs 30), Up_Write (take 10 (request_text ''a:443'' [])),
     Up_Write (drop 10 (request_text ''a:443'' [])), Up_Read ok_response, To_Upstream ''ping'']"

lemma tunnel_step_new:
  "conn_step he_ex (sni_parser []) (sv_proxies sv_tunnel ! 0) (server_upstream sv_tunnel) C_New (E_Peer (Inr up4)) =
     Some (server_upstream sv_tunnel, C_Resolve tn_tunnel R_Start, [])"
proof -
  have "connect_target_of via_ex [] = Some ''a:443''"
    by (simp add: connect_target_of_def via_ex_def raw_via_ex_def raw_via_empty_def via_of_raw_def or_else_def)
  with tunnel_proxy have "step_new he_ex ((sv_proxies sv_tunnel ! 0)\<lparr>p_upstream := server_upstream sv_tunnel\<rparr>) (Inr up4) =
      (C_Resolve tn_tunnel R_Start, [])"
    by (simp add: step_new_def enter_process_def enter_upstream_def accept_plan_def route_def tn_tunnel_def
        select_upstream_def Let_def upstream_h80_def proxy_to_upstream_new_def split: bool.split)
  then show ?thesis by (simp add: conn_step_def Let_def)
qed

lemma tunnel_handshake_ex:
  "connect_request (he_alnum he_ex) (he_vars he_ex) ''a:443'' (via_headers via_ex) = Inr (request_text ''a:443'' [])"
  "length (request_text ''a:443'' []) = 26"
  "step_read tn_tunnel [] (Try_Read ok_response) = (C_Relay tn_tunnel relay_new, [Up_Read ok_response])"
proof -
  have "via_headers via_ex = []"
    by (simp add: via_ex_def raw_via_ex_def raw_via_empty_def via_of_raw_def or_else_def)
  then show "connect_request (he_alnum he_ex) (he_vars he_ex) ''a:443'' (via_headers via_ex) =
      Inr (request_text ''a:443'' [])"
    by (simp add: connect_request_eq request_text_def)
  show "length (request_text ''a:443'' []) = 26" by (simp add: request_text_def)
  have "has_blank_line ok_response" "length ok_response \<le> inbufs_len" "ok_response \<noteq> []"
    by (simp_all add: ok_response_def inbufs_len_def)
  then show "step_read tn_tunnel [] (Try_Read ok_response) = (C_Relay tn_tunnel relay_new, [Up_Read ok_response])"
    by (simp add: step_read_def ok_response_status Let_def)
qed

lemma conn_tunnel_ex:
  "\<exists>ls st s. run (server_step counting_sem he_ex (sni_parser []) (sv_proxies sv_tunnel)) (run_init sv_tunnel) ls st \<and>
     rn_conns st = [\<lparr>cn_proxy = 0, cn_permit = True, cn_state = C_Relay tn_tunnel s,
       cn_events = conn_events_tunnel, cn_trace = conn_trace_tunnel\<rparr>]"
proof -
  have tn: "tn_target tn_tunnel = Some ''a:443''" "tn_via tn_tunnel = via_ex" "tn_key tn_tunnel = ''remote''"
    "tn_protocol tn_tunnel = ''tcp4''" by (simp_all add: tn_tunnel_def)
  have timeout: "via_connect_timeout via_ex = from_secs 30"
    by (simp add: via_ex_def raw_via_ex_def raw_via_empty_def via_of_raw_def or_else_def default_connect_timeout_def)
  have "\<exists>m s. conn_alone he_ex (sni_parser []) (sv_proxies sv_tunnel ! 0) (server_upstream sv_tunnel) C_New
      conn_events_tunnel = Some (m, C_Relay tn_tunnel s, conn_trace_tunnel)"
    using tunnel_step_new tunnel_proxy(6)
    by (simp add: conn_events_tunnel_def conn_trace_tunnel_def conn_step_def step_resolve_def upstream_h80_def
        proxy_to_upstream_new_def upstream_address_new_def is_resolved_def mode_from_str_def up4_def tn timeout
        step_connect_def enter_tunnel_def tunnel_handshake_ex enter_write_def step_write_def
        step_relay_def Let_def copy_counted_step_def relay_new_def copier_new_def copy_buf_len_def relay_joined_def)
  then obtain m s where "conn_alone he_ex (sni_parser []) (sv_proxies sv_tunnel ! 0) (server_upstream sv_tunnel) C_New
      conn_events_tunnel = Some (m, C_Relay tn_tunnel s, conn_trace_tunnel)" by blast
  from plain_conn_run [OF server_tunnel this] show ?thesis by blast
qed

theorem running_relay_follows_handshake_witness:
  "\<exists>u. wire_up conn_trace_tunnel = request_text ''a:443'' [] @ u \<and> prefix u ''ping'' \<and>
     has_blank_line (up_read conn_trace_tunnel)"
proof -
  obtain ls st s where run: "run (server_step counting_sem he_ex (sni_parser []) (sv_proxies sv_tunnel)) (run_init sv_tunnel) ls st"
    and c: "rn_conns st = [\<lparr>cn_proxy = 0, cn_permit = True, cn_state = C_Relay tn_tunnel s,
       cn_events = conn_events_tunnel, cn_trace = conn_trace_tunnel\<rparr>]" using conn_tunnel_ex by blast
  let ?evs = "observed he_ex conn_events_tunnel"
  have plan: "accept_plan (sv_proxies sv_tunnel ! 0) [] = Inr ((''remote'', Proxy upstream_h80), via_ex, Some ''a:443'')"
    using tunnel_proxy
    by (simp add: accept_plan_def route_def select_upstream_def Let_def connect_target_of_def via_ex_def
        raw_via_ex_def raw_via_empty_def via_of_raw_def or_else_def)
  have snis: "accept_snis (sni_parser []) (sv_proxies sv_tunnel ! 0) ?evs = io_ret snis \<longleftrightarrow> snis = []" for snis
    using tunnel_proxy(4) by (auto simp: accept_snis_def io_ret_def)
  have evs: "ce_writes ?evs = [Try_Write 10, Try_Write 1000]"
    "ce_relay ?evs = [Tx (Copy_Read ''ping'' All_Written)]"
    by (simp_all add: observed_def conn_events_tunnel_def idle_env_def)
  have hs: "via_headers via_ex = []"
    by (simp add: via_ex_def raw_via_ex_def raw_via_empty_def via_of_raw_def or_else_def)
  have "wire_up conn_trace_tunnel \<noteq> []" by (simp add: conn_trace_tunnel_def)
  with running_relay_follows_handshake [OF iterates_ex load_ex counting.semaphore_axioms server_tunnel run _ _ refl,
      of "rn_conns st ! 0"] c
  have "tunnelled [] ''a:443'' [Try_Write 10, Try_Write 1000] [Tx (Copy_Read ''ping'' All_Written)] conn_trace_tunnel"
    by (auto simp: snis plan evs hs)
  moreover have "\<exists>a \<in> set conn_trace_tunnel. \<not> before_relay a" by (simp add: conn_trace_tunnel_def)
  ultimately show ?thesis by (auto simp: tunnelled_def copy_buf_len_def)
qed

text \<open>The same connection after both sides have sent their end.\<close>

definition conn_events_end :: "conn_event list" where
  "conn_events_end = conn_events_ex @ [E_Relay (Rx (Copy_Read ''pong'' All_Written)),
     E_Relay (Tx (Copy_Read [] All_Written)), E_Relay (Rx (Copy_Read [] All_Written))]"

definition conn_trace_end :: "action list" where
  "conn_trace_end = conn_trace_ex @ [To_Client ''pong'', Shutdown_Upstream, Shutdown_Client]"

lemma conn_ended_ex:
  "\<exists>ls st. run (server_step counting_sem he_ex (sni_parser []) (sv_proxies sv_ex)) (run_init sv_ex) ls st \<and>
     rn_conns st = [\<lparr>cn_proxy = 0, cn_permit = True, cn_state = C_End (Ret ()),
       cn_events = conn_events_end, cn_trace = conn_trace_end\<rparr>]"
proof -
  have "\<exists>m. conn_alone he_ex (sni_parser []) (sv_proxies sv_ex ! 0) (server_upstream sv_ex) C_New conn_events_end =
      Some (m, C_End (Ret ()), conn_trace_end)"
    using conn_step_ex up_ex
    by (simp add: conn_events_end_def conn_trace_end_def conn_events_ex_def conn_trace_ex_def conn_ex_defs
        step_connect_def enter_tunnel_def step_relay_def Let_def copy_counted_step_def relay_new_def
        copier_new_def copy_buf_len_def relay_joined_def)
  then obtain m where "conn_alone he_ex (sni_parser []) (sv_proxies sv_ex ! 0) (server_upstream sv_ex) C_New
      conn_events_end = Some (m, C_End (Ret ()), conn_trace_end)" by blast
  from conn_ex_run [OF this] show ?thesis by blast
qed

theorem completed_connections_lose_nothing_witness:
  "wire_up conn_trace_end = ''ping'' \<and> wire_down conn_trace_end = ''pong'' \<and>
     read_bytes (lefts (ce_relay (observed he_ex conn_events_end))) = ''ping'' \<and>
     copy_ends (rights (ce_relay (observed he_ex conn_events_end)))"
proof -
  obtain ls st where run: "run (server_step counting_sem he_ex (sni_parser []) (sv_proxies sv_ex)) (run_init sv_ex) ls st"
    and c: "rn_conns st = [\<lparr>cn_proxy = 0, cn_permit = True, cn_state = C_End (Ret ()),
       cn_events = conn_events_end, cn_trace = conn_trace_end\<rparr>]" using conn_ended_ex by blast
  have evs: "ce_relay (observed he_ex conn_events_end) = [Tx (Copy_Read ''ping'' All_Written),
      Rx (Copy_Read ''pong'' All_Written), Tx (Copy_Read [] All_Written), Rx (Copy_Read [] All_Written)]"
    by (simp add: observed_def conn_events_end_def conn_events_ex_def idle_env_def)
  from completed_connections_lose_nothing [OF iterates_ex load_ex counting.semaphore_axioms server_ex run,
      of "rn_conns st ! 0" Shutdown_Upstream] c
  show ?thesis by (simp add: conn_trace_end_def conn_trace_ex_def evs Let_def copy_buf_len_def)
qed

theorem shutdown_waits_for_open_connections_witness:
  "\<exists>st st' c'. rn_conns st = [(conn_new 0 True)\<lparr>cn_state := C_Relay tn_ex relay_new\<rparr>] \<and>
     run (server_step counting_sem he_ex (sni_parser []) (sv_proxies sv_ex)) st
       [Conn_Run 0 (E_Relay Tick), Signal, Main_Close, Token_Cancelled 0] st' \<and>
     rn_main st' = Draining \<and> c' \<in> set (rn_conns st') \<and> awaits_peer (cn_state c')"
proof -
  let ?c = "(conn_new 0 True)\<lparr>cn_state := C_Relay tn_ex relay_new\<rparr>"
  let ?step = "server_step counting_sem he_ex (sni_parser []) (sv_proxies sv_ex)"
  let ?st = "one_conn sv_ex 0 ?c []"
  let ?ticked = "?st\<lparr>rn_conns := (rn_conns ?st)[0 := conn_advance ?c (E_Relay Tick) (C_Relay tn_ex relay_new) []],
    rn_upstream := rn_upstream ?st, rn_http := rn_http ?st + count_list [] Serve_Http\<rparr>"
  let ?st1 = "?ticked\<lparr>rn_cancelled := True\<rparr>" let ?st2 = "?st1\<lparr>rn_main := Draining\<rparr>"
  let ?st3 = "?st2\<lparr>rn_listeners := (rn_listeners ?st2)[0 := Ended]\<rparr>"
  have s: "rn_main ?st = Running" "rn_conns ?st = [?c]" "rn_listeners ?st = [Listening False]"
    using server_ex_facts by (simp_all add: one_conn_def bound_state_def run_init_def)
  have 0: "?step ?st (Conn_Run 0 (E_Relay Tick)) ?ticked"
    by (rule step_conn_run) (use s in \<open>simp_all add: conn_step_def step_relay_def tn_ex_def via_default_def Let_def\<close>)
  have 1: "?step ?ticked Signal ?st1" using s by (intro step_signal) simp
  have 2: "?step ?st1 Main_Close ?st2" using s server_ex_facts by (intro step_main_close) simp_all
  have 3: "?step ?st2 (Token_Cancelled 0) ?st3"
    by (rule step_token_cancelled [where health = False]) (use s in simp_all)
  have run: "run ?step ?st [Conn_Run 0 (E_Relay Tick), Signal, Main_Close, Token_Cancelled 0] ?st3"
    using 0 1 2 3 by (blast intro: run_Cons run_single)
  from shutdown_waits_for_open_connections [OF _ _ _ run, of ?c] s
  obtain c' where "c' \<in> set (rn_conns ?st3)" "awaits_peer (cn_state c')" by auto
  with run s show ?thesis by (intro exI [of _ ?st] exI [of _ ?st3] exI [of _ c']) simp
qed

end
