(* ===== verification/Server_Calls.thy ===== *)
theory Server_Calls
  imports Server_Run "HOL-Library.Multiset"
begin

text \<open>
  The running server and its caches: for each proxy upstream, the connections that resolve its host are
  overlapping calls of \<open>resolve\<close> on its cache.

  \<open>Resolve_Calls\<close> knows calls on one cache and nothing of connections; \<open>Server_Tasks\<close> has connections on
  many caches. The refinement forgets everything of a run of the server but its accesses to one
  cache: what remains is a run of \<open>calls_step\<close>, whose calls include those that the connections
  are in. So what is proved about overlapping calls holds for the connections of the server.
\<close>

section \<open>The call that a connection is in\<close>

fun call_of :: "string \<Rightarrow> conn_state \<Rightarrow> resolve_pc multiset" where
  "call_of k (C_Resolve tn pc) = (if tn_key tn = k then {#pc#} else {#})"
| "call_of k (C_Connect tn as) = (if tn_key tn = k then {#R_Return (Inr as)#} else {#})"
| "call_of k st = {#}"

definition calls_of :: "string \<Rightarrow> conn list \<Rightarrow> resolve_pc multiset" where
  "calls_of k cs = sum_list (map (\<lambda>c. call_of k (cn_state c)) cs)"

lemma calls_of_simps [simp]:
  "calls_of k [] = {#}" "calls_of k (c # cs) = call_of k (cn_state c) + calls_of k cs"
  "calls_of k (cs @ ds) = calls_of k cs + calls_of k ds"
  by (simp_all add: calls_of_def)

text \<open>The calls of the other connections.\<close>

definition calls_but :: "string \<Rightarrow> conn list \<Rightarrow> nat \<Rightarrow> resolve_pc multiset" where
  "calls_but k cs j = calls_of k (take j cs) + calls_of k (drop (Suc j) cs)"

lemma calls_of_split:
  assumes "j < length cs"
  shows "calls_of k cs = call_of k (cn_state (cs ! j)) + calls_but k cs j"
proof -
  have "calls_of k cs = calls_of k (take j cs @ cs ! j # drop (Suc j) cs)"
    using id_take_nth_drop [OF assms] by simp
  then show ?thesis by (simp add: calls_but_def)
qed

lemma calls_of_update:
  "j < length cs \<Longrightarrow> calls_of k (cs[j := c]) = call_of k (cn_state c) + calls_but k cs j"
  using calls_of_split [of j "cs[j := c]" k] by (simp add: calls_but_def)

lemma calls_of_remove: "calls_of k (take j cs @ drop (Suc j) cs) = calls_but k cs j"
  by (simp add: calls_but_def)

section \<open>The accesses of a connection to one cache\<close>

text \<open>A call more, which does not move.\<close>

lemma calls_step_more:
  "calls_step mode (ua, pcs) l (ua', pcs') \<Longrightarrow> calls_step mode (ua, pcs @ [x]) l (ua', pcs' @ [x])"
  by (cases l) (auto simp: calls_step_iff nth_append list_update_append)

lemma calls_run_more:
  "run (calls_step mode) (ua, pcs) ls st \<Longrightarrow>
     run (calls_step mode) (ua, pcs @ [x]) ls (fst st, snd st @ [x])"
proof (induction rule: run.induct)
  case run_refl
  then show ?case by (simp add: run.run_refl)
next
  case (run_step ls st1 l st2)
  from run_step.hyps(2) have "calls_step mode (fst st1, snd st1 @ [x]) l (fst st2, snd st2 @ [x])"
    using calls_step_more [of mode "fst st1" "snd st1" l "fst st2" "snd st2"] by simp
  with run_step.IH show ?case by (rule run.run_step)
qed

text \<open>What one step of a connection does to the cache of the upstream \<open>k\<close>.\<close>

lemma enter_process_calls:
  "enter_process proxy snis = (st, t) \<Longrightarrow> call_of k st \<in> {{#}, {#R_Start#}}"
  by (auto simp: enter_process_def enter_upstream_def split: sum.splits prod.splits upstream.splits if_splits)

lemma step_new_calls: "step_new h proxy peer = (st, t) \<Longrightarrow> call_of k st \<in> {{#}, {#R_Start#}}"
  by (auto simp: step_new_def dest: enter_process_calls split: bool.splits sum.splits if_splits)

lemma step_peek_calls: "step_peek tp proxy r = (st, t) \<Longrightarrow> call_of k st \<in> {{#}, {#R_Start#}}"
  by (auto simp: step_peek_def dest: enter_process_calls split: sum.splits)

lemma conn_step_calls:
  assumes "conn_step h tp proxy m st ev = Some (m', st', t)" and "conn_bound m st"
    and "hm_get m k = Some (Proxy pu)"
  shows "(\<exists>e pc pc' ua t'. ev = E_Resolve e \<and> call_of k st = {#pc#} \<and>
      resolve_step (mode_from_str (pu_protocol pu)) (pu_addresses pu) pc e = Some (ua, pc', t') \<and>
      hm_get m' k = Some (Proxy (pu\<lparr>pu_addresses := ua\<rparr>)) \<and> call_of k st' \<subseteq># {#pc'#}) \<or>
    (hm_get m' k = Some (Proxy pu) \<and>
      (call_of k st' = {#} \<or> call_of k st = {#} \<and> call_of k st' = {#R_Start#}))"
  using assms(1)
proof (cases rule: conn_step_cases)
  case (at_new peer)
  with step_new_calls [OF at_new(4), of k] assms(3) show ?thesis
    by auto
next
  case (at_peek r)
  with step_peek_calls [OF at_peek(4), of k] assms(3) show ?thesis
    by auto
next
  case (at_resolve tn pc e)
  from at_resolve(3) show ?thesis
  proof (rule step_resolve_Some)
    fix config addresses pc' t'
    assume get: "hm_get m (tn_key tn) = Some (Proxy config)"
      and step: "resolve_step (mode_from_str (tn_protocol tn)) (pu_addresses config) pc e = Some (addresses, pc', t')"
      and m': "m' = hm_insert (tn_key tn) (Proxy (config\<lparr>pu_addresses := addresses\<rparr>)) m"
      and st': "(\<exists>e. pc' = R_Return (Inl e) \<and> st' = C_End (Ret ()) \<and> t = t') \<or>
       (\<exists>as. pc' = R_Return (Inr as) \<and> st' = C_Connect tn as \<and>
          t = t' @ [Connect as (via_connect_timeout (tn_via tn))]) \<or>
       ((\<forall>r. pc' \<noteq> R_Return r) \<and> st' = C_Resolve tn pc' \<and> t = t')"
    have proto: "pu_protocol config = tn_protocol tn" using assms(2) get by (simp add: at_resolve)
    show ?thesis
    proof (cases "tn_key tn = k")
      case True
      with get assms(3) have "config = pu" by simp
      moreover have "call_of k st' \<subseteq># {#pc'#}" using st' True by auto
      ultimately show ?thesis using step proto True by (auto simp: at_resolve m')
    next
      case False
      with st' have "call_of k st' = {#}" by auto
      with False assms(3) show ?thesis by (simp add: m')
    qed
  qed
next
  case (at_connect tn as r no ni)
  then have "call_of k st' = {#}"
    by (auto simp: step_connect_def enter_tunnel_def enter_write_def
        split: connect_result.splits sum.splits option.splits if_splits)
  with at_connect assms(3) show ?thesis by simp
next
  case (at_write tn buf written e)
  then have "call_of k st' = {#}"
    by (auto simp: step_write_def enter_write_def Let_def split: write_event.splits if_splits)
  with at_write assms(3) show ?thesis by simp
next
  case (at_read tn acc e)
  then have "call_of k st' = {#}"
    by (auto simp: step_read_def Let_def split: read_event.splits if_splits sum.splits)
  with at_read assms(3) show ?thesis by simp
next
  case (at_relay tn s e)
  then have "call_of k st' = {#}" by (auto simp: step_relay_def case_prod_unfold Let_def)
  with at_relay assms(3) show ?thesis by simp
next
  case (at_echo e)
  then have "call_of k st' = {#}" by (auto simp: step_echo_def split: echo_event.splits)
  with at_echo assms(3) show ?thesis by simp
qed

section \<open>A server runs overlapping calls\<close>

text \<open>
  What the connections that resolve the upstream \<open>k\<close> have been told in the course of a run: an event
  counts if the connection that took it stood in \<open>resolve\<close> for \<open>k\<close>, and an answer of the resolver
  only if that connection had asked and was waiting for it.
\<close>

definition heard ::
  "('s run_state \<Rightarrow> event \<Rightarrow> 's run_state \<Rightarrow> bool) \<Rightarrow> 's run_state \<Rightarrow> event list \<Rightarrow> string \<Rightarrow> resolve_event set" where
  "heard step init ls k = {ev. \<exists>ls1 j ls2 st tn pc. ls = ls1 @ Conn_Run j (E_Resolve ev) # ls2 \<and>
     run step init ls1 st \<and> j < length (rn_conns st) \<and> cn_state (rn_conns st ! j) = C_Resolve tn pc \<and>
     tn_key tn = k \<and> (\<forall>r. ev = Answer r \<longrightarrow> pc = R_Lookup)}"

lemma heard_mono: "heard step init ls k \<subseteq> heard step init (ls @ [l]) k"
  unfolding heard_def by (intro Collect_mono impI; elim exE conjE) fastforce

lemma heard_new:
  assumes "run step init ls st" and "j < length (rn_conns st)" and "cn_state (rn_conns st ! j) = C_Resolve tn pc"
    and "resolve_step mode ua pc ev = Some r"
  shows "ev \<in> heard step init (ls @ [Conn_Run j (E_Resolve ev)]) (tn_key tn)"
proof -
  have "\<forall>r. ev = Answer r \<longrightarrow> pc = R_Lookup" using assms(4) by (cases pc; cases ev) auto
  with assms(1-3) show ?thesis
    unfolding heard_def by (intro CollectI exI conjI) auto
qed

lemma heard_event: "ev \<in> heard step init ls k \<Longrightarrow> \<exists>j. Conn_Run j (E_Resolve ev) \<in> set ls"
  by (auto simp: heard_def)

text \<open>
  The upstream \<open>k\<close> and its cache in a state are what some overlapping calls have made of it, the
  connections that resolve are in some of these calls, and nothing has moved them
  but what the connections have been told (\<open>H\<close>).
\<close>

definition runs_calls :: "string \<Rightarrow> proxy_to_upstream \<Rightarrow> resolve_event set \<Rightarrow> 's run_state \<Rightarrow> bool" where
  "runs_calls k pu H st \<longleftrightarrow> (\<exists>n calls pcs ua.
     hm_get (rn_upstream st) k = Some (Proxy (pu\<lparr>pu_addresses := ua\<rparr>)) \<and>
     run (calls_step (mode_from_str (pu_protocol pu))) (pu_addresses pu, replicate n R_Start) calls (ua, pcs) \<and>
     calls_of k (rn_conns st) \<subseteq># mset pcs \<and>
     (\<forall>(i, ev, t) \<in> set calls. ev \<in> H))"

lemma runs_calls_keep:
  assumes "runs_calls k pu H st" and "H \<subseteq> H'" and "hm_get (rn_upstream st') k = hm_get (rn_upstream st) k"
    and "calls_of k (rn_conns st') \<subseteq># calls_of k (rn_conns st)"
  shows "runs_calls k pu H' st'"
proof -
  from assms(1) obtain n calls pcs ua where
    1: "hm_get (rn_upstream st) k = Some (Proxy (pu\<lparr>pu_addresses := ua\<rparr>))"
      "run (calls_step (mode_from_str (pu_protocol pu))) (pu_addresses pu, replicate n R_Start) calls (ua, pcs)"
      "calls_of k (rn_conns st) \<subseteq># mset pcs"
      "\<forall>(i, ev, t) \<in> set calls. ev \<in> H"
    unfolding runs_calls_def by blast
  have "calls_of k (rn_conns st') \<subseteq># mset pcs" using assms(4) 1(3) by (rule subset_mset.order_trans)
  moreover have "\<forall>(i, ev, t) \<in> set calls. ev \<in> H'"
    using 1(4) assms(2) by fastforce
  ultimately show ?thesis
    unfolding runs_calls_def using 1(1,2) assms(3)
    by (intro exI [of _ n] exI [of _ calls] exI [of _ pcs] exI [of _ ua]) simp
qed

lemma runs_calls_conn:
  assumes "runs_calls k pu H st" and "j < length (rn_conns st)" and "c = rn_conns st ! j"
    and "conn_step h tp p (rn_upstream st) (cn_state c) ev = Some (m', s, t)"
    and "conn_bound (rn_upstream st) (cn_state c)"
    and "rn_conns st' = (rn_conns st)[j := conn_advance c ev s t]" and "rn_upstream st' = m'"
    and "H \<subseteq> H'" and "\<And>e tn pc mode ua r. ev = E_Resolve e \<Longrightarrow> cn_state c = C_Resolve tn pc \<Longrightarrow> tn_key tn = k \<Longrightarrow>
      resolve_step mode ua pc e = Some r \<Longrightarrow> e \<in> H'"
  shows "runs_calls k pu H' st'"
proof -
  let ?mode = "mode_from_str (pu_protocol pu)" and ?rest = "calls_but k (rn_conns st) j"
  from assms(1) obtain n calls pcs ua where
    1: "hm_get (rn_upstream st) k = Some (Proxy (pu\<lparr>pu_addresses := ua\<rparr>))"
      "run (calls_step ?mode) (pu_addresses pu, replicate n R_Start) calls (ua, pcs)"
      "calls_of k (rn_conns st) \<subseteq># mset pcs"
      "\<forall>(i, ev, t) \<in> set calls. ev \<in> H"
    unfolding runs_calls_def by blast
  have before: "call_of k (cn_state c) + ?rest \<subseteq># mset pcs"
    using 1(3) calls_of_split [OF assms(2), of k] assms(3) by simp
  have after: "calls_of k (rn_conns st') = call_of k s + ?rest"
    using assms(2,6) by (simp add: calls_of_update)
  from conn_step_calls [OF assms(4,5) 1(1)] show ?thesis
  proof (elim disjE exE conjE)
    fix e pc pc' ua' t'
    assume e: "ev = E_Resolve e" "call_of k (cn_state c) = {#pc#}"
      and step: "resolve_step (mode_from_str (pu_protocol (pu\<lparr>pu_addresses := ua\<rparr>)))
        (pu_addresses (pu\<lparr>pu_addresses := ua\<rparr>)) pc e = Some (ua', pc', t')"
      and get: "hm_get m' k = Some (Proxy (pu\<lparr>pu_addresses := ua, pu_addresses := ua'\<rparr>))"
      and call: "call_of k s \<subseteq># {#pc'#}"
    have "pc \<in># mset pcs" using before e(2) by (simp add: insert_subset_eq_iff)
    then obtain i where i: "i < length pcs" "pcs ! i = pc" by (auto simp: in_set_conv_nth)
    then have move: "calls_step ?mode (ua, pcs) (i, e, t') (ua', pcs[i := pc'])"
      using step by (simp add: calls_step_iff)
    have "?rest \<subseteq># mset pcs - {#pc#}" using before e(2) by (simp add: insert_subset_eq_iff)
    then have "call_of k s + ?rest \<subseteq># {#pc'#} + (mset pcs - {#pc#})"
      using call by (rule subset_mset.add_mono [rotated])
    then have "calls_of k (rn_conns st') \<subseteq># mset (pcs[i := pc'])"
      unfolding after using i by (simp add: mset_update)
    moreover have "\<exists>tn. cn_state c = C_Resolve tn pc \<and> tn_key tn = k"
      using e(2) step by (cases "cn_state c") (auto split: if_splits)
    then have "e \<in> H'" using assms(9) [OF e(1) _ _ step] by blast
    then have "\<forall>(i, ev', t) \<in> set (calls @ [(i, e, t')]). ev' \<in> H'"
      using 1(4) assms(8) by fastforce
    ultimately show ?thesis
      unfolding runs_calls_def
      using get assms(7) run_step [OF 1(2) move]
      by (intro exI [of _ n] exI [of _ "calls @ [(i, e, t')]"] exI [of _ "pcs[i := pc']"] exI [of _ ua']) simp
  next
    assume get: "hm_get m' k = Some (Proxy (pu\<lparr>pu_addresses := ua\<rparr>))" and none: "call_of k s = {#}"
    show ?thesis
      by (rule runs_calls_keep [OF assms(1,8)])
        (use get assms(7) 1(1) after none calls_of_split [OF assms(2), of k] assms(3) in simp_all)
  next
    assume get: "hm_get m' k = Some (Proxy (pu\<lparr>pu_addresses := ua\<rparr>))" and none: "call_of k (cn_state c) = {#}"
      and start: "call_of k s = {#R_Start#}"
    have "run (calls_step ?mode) (pu_addresses pu, replicate (Suc n) R_Start) calls (ua, pcs @ [R_Start])"
      using calls_run_more [OF 1(2), of R_Start] by (simp add: replicate_append_same)
    moreover have "calls_of k (rn_conns st') \<subseteq># mset (pcs @ [R_Start])"
      unfolding after using before none start by simp
    moreover have "\<forall>(i, ev', t) \<in> set calls. ev' \<in> H'"
      using 1(4) assms(8) by fastforce
    ultimately show ?thesis
      unfolding runs_calls_def using get assms(7)
      by (intro exI [of _ "Suc n"] exI [of _ calls] exI [of _ "pcs @ [R_Start]"] exI [of _ ua])
        (simp del: replicate_Suc)
  qed
qed

lemma runs_calls_step:
  assumes "runs_calls k pu (heard step init ls k) st" and "server_step S h tp proxies st l st'" and "conns_bound st"
    and "run step init ls st"
  shows "runs_calls k pu (heard step init (ls @ [l]) k) st'"
  using assms(2)
proof cases
  case by_main
  from this(1) show ?thesis
    by cases (rule runs_calls_keep [OF assms(1) heard_mono]; simp)+
next
  case by_proxy
  from this(1) show ?thesis
  proof cases
    case (proxy_conn_run j c ev upstream' s t)
    then have "conn_bound (rn_upstream st) (cn_state c)" using assms(3) by (simp add: conns_bound_def)
    then show ?thesis
      unfolding proxy_conn_run(1)
      by (rule runs_calls_conn [OF assms(1) proxy_conn_run(4-6) _ _ _ heard_mono])
        (use proxy_conn_run heard_new [OF assms(4)] in auto)
  next
    case (proxy_conn_drop j c r ref)
    then have "rn_conns st' = take j (rn_conns st) @ drop (Suc j) (rn_conns st)" by simp
    then have "calls_of k (rn_conns st') = calls_but k (rn_conns st) j" by (simp only: calls_of_remove)
    then have "calls_of k (rn_conns st') \<subseteq># calls_of k (rn_conns st)"
      using calls_of_split [OF proxy_conn_drop(4), of k] by simp
    then show ?thesis
      by (rule runs_calls_keep [OF assms(1) heard_mono, rotated]) (use proxy_conn_drop in simp)
  qed (rule runs_calls_keep [OF assms(1) heard_mono]; simp)+
qed

lemma server_runs_calls:
  assumes "semaphore S" and "server_from S pc = Some sv"
    and "run (server_step S h tp (sv_proxies sv)) (run_init sv) ls st"
    and "hm_get (server_upstream sv) k = Some (Proxy pu)"
  shows "runs_calls k pu (heard (server_step S h tp (sv_proxies sv)) (run_init sv) ls k) st"
  using assms(3)
proof (induction rule: run.induct)
  case run_refl
  have "run (calls_step (mode_from_str (pu_protocol pu))) (pu_addresses pu, replicate 0 R_Start) [] (pu_addresses pu, [])"
    by (simp add: run.run_refl)
  with assms(4) show ?case
    unfolding runs_calls_def
    by (intro exI [of _ 0] exI [of _ "[]"] exI [of _ "pu_addresses pu"]) (simp add: run_init_def)
next
  case (run_step ls st l st')
  have "conns_bound st"
    using server_run_inv(5) [OF assms(1,2) run_step.hyps(1)] by (simp add: conns_bound_def inv_conns_def conn_inv_def)
  from runs_calls_step [OF run_step.IH run_step.hyps(2) this run_step.hyps(1)] show ?case .
qed

text \<open>A connection that has its addresses holds what one of these calls has returned.\<close>

lemma connecting_addresses:
  assumes "iterates (le_order env)" and "fst (load_config env path) = Inr pc"
    and "semaphore S" and "server_from S pc = Some sv"
    and "run (server_step S h tp (sv_proxies sv)) (run_init sv) ls st"
    and "c \<in> set (rn_conns st)" and "cn_state c = C_Connect tn as"
  shows "(\<exists>pu. hm_get (pc_upstream pc) (tn_key tn) = Some (Proxy pu) \<and> pu_protocol pu = tn_protocol tn) \<and>
    tn_protocol tn \<in> {''tcp'', ''tcp4'', ''tcp6''} \<and>
    (tn_protocol tn = ''tcp4'' \<longrightarrow> list_all is_ipv4 as) \<and> (tn_protocol tn = ''tcp6'' \<longrightarrow> list_all is_ipv6 as) \<and>
    (\<forall>a \<in> set as. \<exists>found. Answer (Inr found) \<in> heard (server_step S h tp (sv_proxies sv)) (run_init sv) ls (tn_key tn) \<and> a \<in> set found)"
proof -
  note inv = server_run_inv [OF assms(3-5)]
  note up = server_upstream_from [OF assms(3,4) loaded_upstreams_ok [OF assms(1,2)]]
  have "conn_bound (rn_upstream st) (C_Connect tn as)"
    using inv(5) assms(6,7) by (metis conn_inv_def inv_conns_def)
  then obtain pu where pu: "hm_get (server_upstream sv) (tn_key tn) = Some (Proxy pu)"
    "pu_protocol pu = tn_protocol tn" and known: "known_protocol (tn_protocol tn)"
    using inv(2) same_upstreams_Proxy [of "rn_upstream st" "server_upstream sv"]
    by (fastforce simp: inv_upstream_def)
  obtain n calls pcs ua where
    calls: "run (calls_step (mode_from_str (pu_protocol pu))) (pu_addresses pu, replicate n R_Start) calls (ua, pcs)"
    and sub: "calls_of (tn_key tn) (rn_conns st) \<subseteq># mset pcs"
    and moved: "\<forall>(i, ev, t) \<in> set calls. ev \<in> heard (server_step S h tp (sv_proxies sv)) (run_init sv) ls (tn_key tn)"
    using server_runs_calls [OF assms(3-5) pu(1)] unfolding runs_calls_def by blast
  obtain j where "j < length (rn_conns st)" "rn_conns st ! j = c"
    using assms(6) by (auto simp: in_set_conv_nth)
  then have "{#R_Return (Inr as)#} \<subseteq># mset pcs"
    using sub calls_of_split [of j "rn_conns st" "tn_key tn"] assms(7) by (simp add: insert_subset_eq_iff)
  then have "R_Return (Inr as) \<in> set pcs" by simp
  moreover have loaded: "hm_get (pc_upstream pc) (tn_key tn) = Some (Proxy pu)" using up pu(1) by simp
  moreover have "Proxy pu \<in> set (hm_values (pc_upstream pc))" using loaded by (rule hm_get_values)
  then have "upstream_key (Proxy pu) = Proxy pu"
    using loaded_upstreams_fresh [OF assms(1,2)] by (simp add: upstreams_fresh_def del: upstream_key.simps)
  then have "ua_resolved (pu_addresses pu) = []"
    by (metis upstream_key.simps(1) upstream.inject proxy_to_upstream.select_convs(3)
        proxy_to_upstream.update_convs(3) upstream_address_new_def upstream_address.select_convs(2)
        proxy_to_upstream.surjective)
  ultimately have each: "allowed (mode_from_str (tn_protocol tn)) a \<and> a \<in> answered calls" if "a \<in> set as" for a
    using calls_addresses [OF calls, of a] that pu(2) by (force simp: holds_mode_def)
  then have "\<exists>found. Answer (Inr found) \<in> heard (server_step S h tp (sv_proxies sv)) (run_init sv) ls (tn_key tn) \<and> a \<in> set found"
    if "a \<in> set as" for a
    using moved that by (fastforce simp: answered_def)
  moreover have "(tn_protocol tn = ''tcp4'' \<longrightarrow> list_all is_ipv4 as) \<and> (tn_protocol tn = ''tcp6'' \<longrightarrow> list_all is_ipv6 as)"
    using each by (auto simp: mode_from_str_def list_all_iff)
  ultimately show ?thesis using loaded pu(2) known by (auto simp: known_protocol_def)
qed

section \<open>Properties\<close>

text \<open>
  C23. The caches of the running server are used as \<open>resolve\<close> allows. Take any reachable state and any
  proxy upstream, and forget of the run all but the accesses to the cache of that upstream: what
  remains is a run of overlapping calls of \<open>resolve\<close> in the mode of the upstream, from the cache
  it was built with to the one it has. Every connection that resolves its host is in one of these
  calls, no two in the same; one that is connecting holds what such a call has returned; and
  every step of a call is a step of a connection that resolves this upstream.
\<close>

theorem running_caches_are_overlapping_calls:
  assumes "semaphore S" and "server_from S pc = Some sv"
    and "run (server_step S h tp (sv_proxies sv)) (run_init sv) ls st"
    and "hm_get (server_upstream sv) k = Some (Proxy pu)"
  shows "\<exists>n calls pcs ua.
     hm_get (rn_upstream st) k = Some (Proxy (pu\<lparr>pu_addresses := ua\<rparr>)) \<and>
     run (calls_step (mode_from_str (pu_protocol pu))) (pu_addresses pu, replicate n R_Start) calls (ua, pcs) \<and>
     sum_list (map (\<lambda>c. call_of k (cn_state c)) (rn_conns st)) \<subseteq># mset pcs \<and>
     (\<forall>(i, ev, t) \<in> set calls. ev \<in> heard (server_step S h tp (sv_proxies sv)) (run_init sv) ls k)"
  using server_runs_calls [OF assms] unfolding runs_calls_def calls_of_def .

text \<open>
  C8. A connection only goes where the resolver has sent it. In every reachable state, a connection that
  has its addresses and is about to connect, or waits for it, has been routed to a proxy upstream of the
  configuration; its addresses are of the family that the scheme of that upstream's URL asks for;
  and each of them was in an answer that the resolver gave, during this run, to a connection that
  had been routed to the same upstream and was waiting for that answer.
\<close>

theorem connections_go_to_resolved_addresses:
  assumes "iterates (le_order env)" and "fst (load_config env path) = Inr pc"
    and "semaphore S" and "server_from S pc = Some sv"
    and "run (server_step S h tp (sv_proxies sv)) (run_init sv) ls st"
    and "c \<in> set (rn_conns st)" and "cn_state c = C_Connect tn as"
  shows "(\<exists>pu. hm_get (pc_upstream pc) (tn_key tn) = Some (Proxy pu) \<and> pu_protocol pu = tn_protocol tn) \<and>
    tn_protocol tn \<in> {''tcp'', ''tcp4'', ''tcp6''} \<and>
    (tn_protocol tn = ''tcp4'' \<longrightarrow> list_all is_ipv4 as) \<and> (tn_protocol tn = ''tcp6'' \<longrightarrow> list_all is_ipv6 as) \<and>
    (\<forall>a \<in> set as. \<exists>found. Answer (Inr found) \<in> heard (server_step S h tp (sv_proxies sv)) (run_init sv) ls (tn_key tn) \<and> a \<in> set found)"
  using assms by (rule connecting_addresses)

section \<open>Witnesses\<close>

text \<open>The connection of the example, before its attempt is answered.\<close>

theorem running_caches_are_overlapping_calls_witness:
  "\<exists>ls st n calls pcs ua. run (server_step counting_sem he_ex (sni_parser []) (sv_proxies sv_ex)) (run_init sv_ex) ls st \<and>
     run (calls_step Ipv4) (upstream_address_new ''h:80'', replicate n R_Start) calls (ua, pcs)"
proof -
  obtain ls st s where r: "run (server_step counting_sem he_ex (sni_parser []) (sv_proxies sv_ex)) (run_init sv_ex) ls st"
    using conn_ex by blast
  from running_caches_are_overlapping_calls [OF counting.semaphore_axioms server_ex r up_ex] r
  show ?thesis
    by (auto simp: upstream_h80_def proxy_to_upstream_new_def mode_from_str_def)
qed

theorem connections_go_to_resolved_addresses_witness:
  "\<exists>ls found. up4 \<in> set found \<and> Answer (Inr found) \<in>
     heard (server_step counting_sem he_ex (sni_parser []) (sv_proxies sv_ex)) (run_init sv_ex) ls ''remote''"
proof -
  have "\<exists>m. conn_alone he_ex (sni_parser []) (sv_proxies sv_ex ! 0) (server_upstream sv_ex) C_New (take 6 conn_events_ex) =
      Some (m, C_Connect tn_ex [up4], [Lookup ''h:80'', Connect [up4] 0])"
    using conn_step_ex up_ex by (simp add: conn_events_ex_def conn_ex_defs)
  then obtain ls st where r: "run (server_step counting_sem he_ex (sni_parser []) (sv_proxies sv_ex)) (run_init sv_ex)
      (ls @ map (Conn_Run 0) (take 6 conn_events_ex)) st"
    and c: "rn_conns st = [\<lparr>cn_proxy = 0, cn_permit = True, cn_state = C_Connect tn_ex [up4],
      cn_events = take 6 conn_events_ex, cn_trace = [Lookup ''h:80'', Connect [up4] 0]\<rparr>]"
    using conn_ex_run by blast
  from connections_go_to_resolved_addresses [OF iterates_ex load_ex counting.semaphore_axioms server_ex r,
      of "rn_conns st ! 0" tn_ex "[up4]"] c
  show ?thesis by (auto simp: tn_ex_def)
qed

end
