(* ===== verification/Cli.thy ===== *)
theory Cli
  imports Server_Calls
begin

text \<open>
  \<open>src/main.rs\<close>: the command line, the search for a configuration file, and the start.

  \<open>cli_run\<close> is \<open>run\<close>: the lines it prints, and whether it returns, panics, or enters
  \<open>Server::run\<close> with the server it has built, which only ever returns \<open>Ok\<close>. The process
  environment, the file system and the libraries are the fields of \<open>cli_env\<close>. The lemmas say
  which arguments lead where, which file is taken, when the exit code is 0 or 1, and that one of
  the error messages of the program is never printed.
\<close>

section \<open>Arguments\<close>

datatype cli = Help | Run "string option"

definition parse_args :: "string list \<Rightarrow> string + cli" where
  "parse_args args =
     (if list_ex (\<lambda>a. a = ''--help'' \<or> a = ''-h'') args then Inr Help
      else case args of
        [] \<Rightarrow> Inr (Run None)
      | arg # rest \<Rightarrow>
          if arg = ''--config'' \<or> arg = ''-c'' then
            (case rest of
               path # _ \<Rightarrow> Inr (Run (Some path))
             | [] \<Rightarrow> Inl ''--config requires a path argument'')
          else Inl (''Unknown argument: '' @ arg))"

section \<open>The help\<close>

text \<open>\<open>CARGO_PKG_VERSION\<close> is the version in \<open>Cargo.toml\<close>; a line continuation skips the indentation.\<close>

definition cargo_pkg_version :: string where
  "cargo_pkg_version = ''4.0.0''"

definition tab :: string where
  "tab = [CHR 0x09]"

definition print_help :: string where
  "print_help = concat (map (\<lambda>line. line @ newline)
     [''tls-proxy-tunnel (tpt) v'' @ cargo_pkg_version,
      [],
      ''USAGE:'',
      tab @ ''tpt [OPTIONS]'',
      [],
      ''OPTIONS:'',
      tab @ ''-c, --config <path>    Path to config file'',
      tab @ ''-h, --help             Show this help'',
      [],
      ''CONFIG SEARCH ORDER (when --config is not given):'',
      tab @ ''1. $TPT_CONFIG environment variable'',
      tab @ ''2. /etc/tpt/tpt.yaml'',
      tab @ ''3. /etc/tpt/config.yaml'',
      tab @ ''4. ./tpt.yaml'',
      tab @ ''5. ./config.yaml'',
      []])"

section \<open>The configuration file\<close>

record 's cli_env =
  cl_tpt_config :: "var_error + string"
  cl_exists :: "string \<Rightarrow> bool"
  cl_load :: load_env
  cl_sem :: "'s sem_ops"

text \<open>\<open>PathBuf::from(dir).join(file)\<close> for a directory without trailing slash and a relative file.\<close>

definition path_join :: "string \<Rightarrow> string \<Rightarrow> string" where
  "path_join dir f = (if dir = [] then f else dir @ ''/'' @ f)"

definition config_paths :: "var_error + string \<Rightarrow> string list" where
  "config_paths tpt_config =
     (case tpt_config of Inr env_path \<Rightarrow> [env_path] | Inl _ \<Rightarrow> []) @
     concat (map (\<lambda>dir. map (path_join dir) [''tpt.yaml'', ''config.yaml'']) [''/etc/tpt'', ''''])"

fun find_path :: "(string \<Rightarrow> bool) \<Rightarrow> string list \<Rightarrow> string list \<Rightarrow> string list + string" where
  "find_path exists tried [] = Inl tried"
| "find_path exists tried (path # paths) =
     (if exists path then Inr path else find_path exists (tried @ [path]) paths)"

definition find_config :: "'s cli_env \<Rightarrow> string list + string" where
  "find_config env = find_path (cl_exists env) [] (config_paths (cl_tpt_config env))"

section \<open>run\<close>

datatype cli_output = Print_Help | Eprint string

text \<open>What reaches standard output and standard error.\<close>

fun stdout_of :: "cli_output \<Rightarrow> string" where
  "stdout_of Print_Help = print_help"
| "stdout_of (Eprint s) = []"

fun stderr_of :: "cli_output \<Rightarrow> string" where
  "stderr_of Print_Help = []"
| "stderr_of (Eprint s) = s @ newline"

datatype 's run_result = Returned "8 word + unit" | Panicked | Serving "'s server"

definition cli_start :: "'s cli_env \<Rightarrow> string \<Rightarrow> 's run_result \<times> cli_output list" where
  "cli_start env config_path =
     (case fst (config_new (cl_load env) config_path) of
        Inl e \<Rightarrow> (Returned (Inl 1), [Eprint (''Could not load config: '' @ config_error_display e)])
      | Inr config \<Rightarrow>
          (case server_from (cl_sem env) (cf_base config) of
             None \<Rightarrow> (Panicked, [])
           | Some server \<Rightarrow> (Serving server, [])))"

definition cli_run :: "'s cli_env \<Rightarrow> string list \<Rightarrow> 's run_result \<times> cli_output list" where
  "cli_run env args =
     (case parse_args args of
        Inl e \<Rightarrow> (Returned (Inl 1), [Eprint (''Error: '' @ e), Eprint ''Run with --help for usage.''])
      | Inr Help \<Rightarrow> (Returned (Inr ()), [Print_Help])
      | Inr (Run (Some p)) \<Rightarrow> cli_start env p
      | Inr (Run None) \<Rightarrow>
          (case find_config env of
             Inr p \<Rightarrow> cli_start env p
           | Inl paths \<Rightarrow>
               if args = [] then (Returned (Inr ()), [Print_Help])
               else (Returned (Inl 1), Eprint ''Could not find config file. Tried paths:'' #
                       map (\<lambda>p. Eprint (''  '' @ p)) paths)))"

text \<open>\<open>main\<close>: the exit code; \<open>None\<close> while the server runs. A panic exits with 101.\<close>

definition exit_code :: "'s run_result \<Rightarrow> nat option" where
  "exit_code r =
     (case r of
        Returned (Inr _) \<Rightarrow> Some 0
      | Returned (Inl code) \<Rightarrow> Some (unat code)
      | Panicked \<Rightarrow> Some 101
      | Serving _ \<Rightarrow> None)"

section \<open>The branches\<close>

lemma find_path_eq:
  "find_path exists tried paths =
     (case List.find exists paths of Some p \<Rightarrow> Inr p | None \<Rightarrow> Inl (tried @ paths))"
  by (induction exists tried paths rule: find_path.induct) (auto split: option.splits)

lemma parse_args_None: "parse_args args = Inr (Run None) \<longleftrightarrow> args = []"
  by (auto simp: parse_args_def split: list.splits if_splits)

lemma cli_start_cases:
  "cli_start env p =
     (case fst (load_config (cl_load env) p) of
        Inl e \<Rightarrow> (Returned (Inl 1), [Eprint (''Could not load config: '' @ config_error_display e)])
      | Inr pc \<Rightarrow>
          (case server_from (cl_sem env) pc of
             None \<Rightarrow> (Panicked, [])
           | Some server \<Rightarrow> (Serving server, [])))"
  by (cases "load_config (cl_load env) p"; cases "fst (load_config (cl_load env) p)")
    (simp_all add: cli_start_def config_new_def)

text \<open>
  The help states the order in which the code searches: its numbered lines are the paths of
  \<open>config_paths\<close>, behind the environment variable.
\<close>

lemma help_states_search_order:
  "sublist (concat (map (\<lambda>(i, p). tab @ show_nat i @ ''. '' @ p @ newline)
     (zip [1, 2, 3, 4, 5] (''$TPT_CONFIG environment variable'' #
        map (\<lambda>p. if take 1 p = ''/'' then p else ''./'' @ p) (config_paths (Inl Var_NotPresent))))))
     print_help"
proof -
  have "concat (map (\<lambda>(i, p). tab @ show_nat i @ ''. '' @ p @ newline)
     (zip [1, 2, 3, 4, 5] (''$TPT_CONFIG environment variable'' #
        map (\<lambda>p. if take 1 p = ''/'' then p else ''./'' @ p) (config_paths (Inl Var_NotPresent))))) =
    concat (map (\<lambda>line. tab @ line @ newline) [''1. $TPT_CONFIG environment variable'',
      ''2. /etc/tpt/tpt.yaml'', ''3. /etc/tpt/config.yaml'', ''4. ./tpt.yaml'', ''5. ./config.yaml''])"
    by (simp add: config_paths_def path_join_def show_nat.simps)
  moreover have "sublist \<dots> print_help"
    unfolding print_help_def sublist_def
    by (intro exI [of _ "concat (map (\<lambda>line. line @ newline)
        [''tls-proxy-tunnel (tpt) v'' @ cargo_pkg_version, [], ''USAGE:'', tab @ ''tpt [OPTIONS]'', [],
         ''OPTIONS:'', tab @ ''-c, --config <path>    Path to config file'',
         tab @ ''-h, --help             Show this help'', [],
         ''CONFIG SEARCH ORDER (when --config is not given):''])"] exI [of _ newline]) simp
  ultimately show ?thesis by simp
qed

lemma cli_start_silent:
  "Eprint ''Could not find config file. Tried paths:'' \<notin> set (snd (cli_start env p))"
  by (simp add: cli_start_cases split: sum.split option.split)

lemma cli_start_Serving:
  "fst (cli_start env p) = Serving sv \<Longrightarrow> \<exists>pc. fst (load_config (cl_load env) p) = Inr pc \<and>
     server_from (cl_sem env) pc = Some sv"
  by (auto simp: cli_start_cases split: sum.splits option.splits)

lemma cli_run_cases:
  "(\<exists>e. parse_args args = Inl e \<and> cli_run env args =
      (Returned (Inl 1), [Eprint (''Error: '' @ e), Eprint ''Run with --help for usage.''])) \<or>
   ((\<exists>c. parse_args args = Inr c) \<and> (cli_run env args = (Returned (Inr ()), [Print_Help]) \<or>
      (\<exists>p. cli_run env args = cli_start env p)))"
proof (cases "parse_args args")
  case (Inr c)
  show ?thesis
  proof (cases c)
    case (Run path)
    with Inr show ?thesis
      using parse_args_None [of args]
      by (cases path; cases "find_config env") (auto simp: cli_run_def)
  qed (simp add: cli_run_def Inr)
qed (simp add: cli_run_def)

text \<open>Standard error is written exactly when the program gives up with exit code 1.\<close>

lemma errors_are_printed:
  "(concat (map stderr_of (snd (cli_run env args))) \<noteq> []) = (exit_code (fst (cli_run env args)) = Some 1)"
  using cli_run_cases [of args env]
proof (elim disjE exE conjE)
  fix p c assume run: "cli_run env args = cli_start env p" and "parse_args args = Inr c"
  then show ?thesis
    by (cases "fst (load_config (cl_load env) p)")
      (auto simp: run cli_start_cases exit_code_def split: option.splits)
qed (auto simp: exit_code_def)

lemma cli_run_Serving:
  "fst (cli_run env args) = Serving sv \<Longrightarrow> \<exists>path pc. fst (load_config (cl_load env) path) = Inr pc \<and>
     server_from (cl_sem env) pc = Some sv"
  using cli_run_cases [of args env] by (fastforce dest: cli_start_Serving)

section \<open>Properties\<close>

text \<open>
  The file that is loaded: the argument of \<open>--config\<close> or \<open>-c\<close>, taken as it is whether it
  exists or not; without arguments, the first existing one of \<open>$TPT_CONFIG\<close>,
  \<open>/etc/tpt/tpt.yaml\<close>, \<open>/etc/tpt/config.yaml\<close>, \<open>tpt.yaml\<close> and \<open>config.yaml\<close>; and if none of
  these exists, also where \<open>$TPT_CONFIG\<close> names a file, the help is printed and the exit code
  is 0.
\<close>

lemma config_file_search_order:
  "cli_run env [] =
     (case List.find (cl_exists env)
        ((case cl_tpt_config env of Inr p \<Rightarrow> [p] | Inl _ \<Rightarrow> []) @
         [''/etc/tpt/tpt.yaml'', ''/etc/tpt/config.yaml'', ''tpt.yaml'', ''config.yaml'']) of
        Some p \<Rightarrow> cli_start env p
      | None \<Rightarrow> (Returned (Inr ()), [Print_Help])) \<and>
   (p \<notin> {''--help'', ''-h''} \<longrightarrow> cli_run env [''--config'', p] = cli_start env p \<and>
      cli_run env [''-c'', p] = cli_start env p)"
proof -
  have paths: "config_paths tc = (case tc of Inr p \<Rightarrow> [p] | Inl _ \<Rightarrow> []) @
      [''/etc/tpt/tpt.yaml'', ''/etc/tpt/config.yaml'', ''tpt.yaml'', ''config.yaml'']" for tc
    by (simp add: config_paths_def path_join_def)
  have "cli_run env [] =
     (case List.find (cl_exists env) (config_paths (cl_tpt_config env)) of
        Some p \<Rightarrow> cli_start env p | None \<Rightarrow> (Returned (Inr ()), [Print_Help]))"
    by (simp add: cli_run_def parse_args_def find_config_def find_path_eq del: find.simps split: option.split)
  then show ?thesis unfolding paths by (simp add: cli_run_def parse_args_def)
qed

text \<open>
  The message that no configuration file was found is never printed, whatever the arguments
  and the environment: the search only happens without arguments, and then the help is printed
  instead.
\<close>

lemma missing_config_message_is_unreachable:
  "Eprint ''Could not find config file. Tried paths:'' \<notin> set (snd (cli_run env args))"
  using cli_run_cases [of args env] cli_start_silent [of env] by auto

text \<open>
  The exit code is 1 exactly for arguments that are not understood and for files that cannot
  be loaded, and 0 exactly when the help is printed; otherwise the program serves, or has panicked
  on a \<open>maxclients\<close> beyond what a semaphore allows.
\<close>

lemma exit_codes:
  "(exit_code (fst (cli_run env args)) = Some 0) = (snd (cli_run env args) = [Print_Help]) \<and>
   (exit_code (fst (cli_run env args)) = Some 1) =
     ((\<exists>e. parse_args args = Inl e) \<or>
      (\<exists>path e. snd (cli_run env args) = [Eprint (''Could not load config: '' @ config_error_display e)] \<and>
         fst (load_config (cl_load env) path) = Inl e)) \<and>
   exit_code (fst (cli_run env args)) \<in> {Some 0, Some 1, Some 101, None}"
  using cli_run_cases [of args env]
proof (elim disjE exE conjE)
  fix p c assume run: "cli_run env args = cli_start env p" and "parse_args args = Inr c"
  then show ?thesis
    by (cases "fst (load_config (cl_load env) p)")
      (auto simp: run cli_start_cases exit_code_def split: option.splits)
qed (auto simp: exit_code_def)

section \<open>Witnesses\<close>

definition env_cli :: "usize cli_env" where
  "env_cli = \<lparr>cl_tpt_config = Inl Var_NotPresent, cl_exists = (\<lambda>p. p = ''tpt.yaml''),
     cl_load = env_load (raw_ex (raw_server_plain None)), cl_sem = counting_sem\<rparr>"

end
