(* ===== verification/Server_Admission.thy ===== *)
theory Server_Admission
  imports Server_Run
begin

text \<open>
  What \<open>maxclients\<close> and the shutdown promise, as an abstract machine, and that the running server
  of \<open>src/servers/mod.rs\<close> and \<open>src/servers/protocol/tcp.rs\<close> implements it.

  The machine only knows how many connections each listener serves, whether a signal has been
  received and whether the server has stopped. It has no semaphores, no tasks, no token and no
  tracker: that these implement it is the refinement below, of which the simulation is one case
  distinction over the steps of the server.
\<close>

section \<open>The abstract machine\<close>

record admission =
  ad_served :: "nat list"
  ad_signalled :: bool
  ad_stopped :: bool

datatype adm_event = Ad_Signal | Ad_Admit nat | Ad_Reject nat | Ad_Leave nat | Ad_Stop

text \<open>The limit of a listener; a health server has none.\<close>

inductive adm_step :: "usize option list \<Rightarrow> admission \<Rightarrow> adm_event \<Rightarrow> admission \<Rightarrow> bool" for limits where
  adm_signal: "\<not> ad_stopped a \<Longrightarrow> adm_step limits a Ad_Signal (a\<lparr>ad_signalled := True\<rparr>)"
| adm_admit: "\<not> ad_stopped a \<Longrightarrow> i < length (ad_served a) \<Longrightarrow>
    (\<And>m. limits ! i = Some m \<Longrightarrow> ad_served a ! i < m) \<Longrightarrow>
    adm_step limits a (Ad_Admit i) (a\<lparr>ad_served := (ad_served a)[i := ad_served a ! i + 1]\<rparr>)"
| adm_reject: "\<not> ad_stopped a \<Longrightarrow> i < length (ad_served a) \<Longrightarrow> limits ! i = Some (ad_served a ! i) \<Longrightarrow>
    adm_step limits a (Ad_Reject i) a"
| adm_leave: "\<not> ad_stopped a \<Longrightarrow> i < length (ad_served a) \<Longrightarrow> 0 < ad_served a ! i \<Longrightarrow>
    adm_step limits a (Ad_Leave i) (a\<lparr>ad_served := (ad_served a)[i := ad_served a ! i - 1]\<rparr>)"
| adm_stop: "\<not> ad_stopped a \<Longrightarrow> ad_signalled a \<Longrightarrow> \<forall>n \<in> set (ad_served a). n = 0 \<Longrightarrow>
    adm_step limits a Ad_Stop (a\<lparr>ad_stopped := True\<rparr>)"

definition adm_init :: "usize option list \<Rightarrow> admission" where
  "adm_init limits = \<lparr>ad_served = replicate (length limits) 0, ad_signalled = False, ad_stopped = False\<rparr>"

text \<open>What the machine guarantees: the limits hold, and a stopped server was told to and is empty.\<close>

definition adm_inv :: "usize option list \<Rightarrow> admission \<Rightarrow> bool" where
  "adm_inv limits a \<longleftrightarrow> length (ad_served a) = length limits \<and>
     (\<forall>i < length limits. \<forall>m. limits ! i = Some m \<longrightarrow> ad_served a ! i \<le> m) \<and>
     (ad_stopped a \<longrightarrow> ad_signalled a \<and> (\<forall>n \<in> set (ad_served a). n = 0))"

interpretation adm: invariant "adm_step limits" "adm_init limits" "adm_inv limits" for limits
proof
  show "adm_inv limits (adm_init limits)" by (simp add: adm_inv_def adm_init_def)
next
  fix a k a' assume "adm_inv limits a" and "adm_step limits a k a'"
  from this(2,1) show "adm_inv limits a'"
    by cases (auto simp: adm_inv_def nth_list_update Suc_le_eq)
qed

section \<open>The running server as an admission machine\<close>

definition limits_of :: "'s server \<Rightarrow> usize option list" where
  "limits_of sv = map (\<lambda>p. if is_health_server p then None else Some (p_maxclients_limit p)) (sv_proxies sv)"

definition admission_of :: "'s server \<Rightarrow> 's run_state \<Rightarrow> admission" where
  "admission_of sv st = \<lparr>ad_served = map (\<lambda>i. running i st) [0..<length (sv_proxies sv)],
     ad_signalled = rn_cancelled st, ad_stopped = (rn_main st = Done)\<rparr>"

text \<open>What is observed of a step: everything but which connection has left.\<close>

fun seen :: "event \<Rightarrow> adm_event option" where
  "seen Signal = Some Ad_Signal"
| "seen (Accept_Health i) = Some (Ad_Admit i)"
| "seen (Accept_Admit i) = Some (Ad_Admit i)"
| "seen (Accept_Reject i) = Some (Ad_Reject i)"
| "seen Main_Return = Some Ad_Stop"
| "seen _ = None"

fun adm_seen :: "adm_event \<Rightarrow> adm_event option" where
  "adm_seen (Ad_Leave i) = None"
| "adm_seen k = Some k"

lemma running_update [simp]:
  "running i (st\<lparr>rn_listeners := ls\<rparr>) = running i st" "running i (st\<lparr>rn_cancelled := b\<rparr>) = running i st"
  "running i (st\<lparr>rn_main := m\<rparr>) = running i st" "running i (st\<lparr>rn_http := n\<rparr>) = running i st"
  "running i (st\<lparr>rn_sems := ss\<rparr>) = running i st" "running i (st\<lparr>rn_upstream := u\<rparr>) = running i st"
  "running i (st\<lparr>rn_conns := cs\<rparr>) = length (filter (\<lambda>c. cn_proxy c = i) cs)"
  by (simp_all add: running_def)

lemma served_upd:
  "map f [0..<n] = (map g [0..<n])[i := x] \<longleftrightarrow> (\<forall>j < n. f j = (if j = i then x else g j))"
  by (cases "i < n") (auto simp: list_eq_iff_nth_eq nth_list_update)

lemma server_permits:
  assumes "server_inv S h tp sv st" and "i < length (sv_proxies sv)" and "\<not> is_health_server (sv_proxies sv ! i)"
  shows "sem_available S (rn_sems st ! i) + running i st = p_maxclients_limit (sv_proxies sv ! i)"
  using assms(1) held_running [of sv st i] assms(2,3) by (auto simp: server_inv_def inv_permits_def)

lemma admits:
  assumes "i < length (sv_proxies sv)" and "rn_main st \<noteq> Done"
    and "is_health_server (sv_proxies sv ! i) \<or> running i st < p_maxclients_limit (sv_proxies sv ! i)"
  shows "adm_step (limits_of sv) (admission_of sv st) (Ad_Admit i)
    (admission_of sv (st\<lparr>rn_sems := ss, rn_conns := rn_conns st @ [conn_new i b]\<rparr>))"
proof -
  have "admission_of sv (st\<lparr>rn_sems := ss, rn_conns := rn_conns st @ [conn_new i b]\<rparr>) =
      (admission_of sv st)\<lparr>ad_served := (ad_served (admission_of sv st))[i := ad_served (admission_of sv st) ! i + 1]\<rparr>"
    using assms(1) by (auto simp: admission_of_def served_upd) (simp_all add: running_def)
  moreover have "adm_step (limits_of sv) (admission_of sv st) (Ad_Admit i) \<dots>"
    using assms by (intro adm_admit) (auto simp: admission_of_def limits_of_def split: if_splits)
  ultimately show ?thesis by simp
qed

lemma leaves:
  assumes "j < length (rn_conns st)" and "cn_proxy (rn_conns st ! j) < length (sv_proxies sv)"
    and "rn_main st \<noteq> Done"
  shows "adm_step (limits_of sv) (admission_of sv st) (Ad_Leave (cn_proxy (rn_conns st ! j)))
    (admission_of sv (st\<lparr>rn_conns := take j (rn_conns st) @ drop (Suc j) (rn_conns st), rn_sems := ss\<rparr>))"
proof -
  let ?i = "cn_proxy (rn_conns st ! j)"
  have split: "running k st = length (filter (\<lambda>c. cn_proxy c = k) (take j (rn_conns st))) +
      (if k = ?i then 1 else 0) + length (filter (\<lambda>c. cn_proxy c = k) (drop (Suc j) (rn_conns st)))" for k
  proof -
    have "running k st = length (filter (\<lambda>c. cn_proxy c = k)
        (take j (rn_conns st) @ rn_conns st ! j # drop (Suc j) (rn_conns st)))"
      using id_take_nth_drop [OF assms(1)] by (simp add: running_def)
    then show ?thesis by simp
  qed
  have "admission_of sv (st\<lparr>rn_conns := take j (rn_conns st) @ drop (Suc j) (rn_conns st), rn_sems := ss\<rparr>) =
      (admission_of sv st)\<lparr>ad_served := (ad_served (admission_of sv st))[?i := ad_served (admission_of sv st) ! ?i - 1]\<rparr>"
    using assms(2) split by (auto simp: admission_of_def served_upd)
  moreover have "adm_step (limits_of sv) (admission_of sv st) (Ad_Leave ?i) \<dots>"
    using assms split [of ?i] by (intro adm_leave) (auto simp: admission_of_def)
  ultimately show ?thesis by simp
qed

lemma served_count: "length (filter (\<lambda>c. cn_proxy c = i) cs) = count_list (map cn_proxy cs) i"
  by (induction cs) auto

lemma served_advance:
  "j < length cs \<Longrightarrow> length (filter (\<lambda>c. cn_proxy c = i) (cs[j := conn_advance (cs ! j) ev s t])) =
     length (filter (\<lambda>c. cn_proxy c = i) cs)"
  unfolding served_count map_update conn_advance_simps by (metis list_update_id nth_map)

lemma server_simulates:
  assumes inv: "server_inv S h tp sv st" and sem: "semaphore S" and wf: "server_wf S sv"
    and step: "server_step S h tp (sv_proxies sv) st l st'"
  shows "admission_of sv st' = admission_of sv st \<and> seen l = None \<or>
    (\<exists>k. adm_step (limits_of sv) (admission_of sv st) k (admission_of sv st') \<and> adm_seen k = seen l)"
proof -
  have tasks: "inv_tasks sv st" using inv by (simp add: server_inv_def)
  have live: "\<not> ad_stopped (admission_of sv st)" if "rn_main st \<noteq> Done"
    using that by (simp add: admission_of_def)
  from step show ?thesis
  proof cases
    case by_main
    then show ?thesis
    proof cases
      case main_signal
      have "admission_of sv st' = (admission_of sv st)\<lparr>ad_signalled := True\<rparr>"
        using main_signal by (simp add: admission_of_def)
      with adm_signal [OF live] main_signal show ?thesis by (intro disjI2 exI [of _ Ad_Signal]) simp
    next
      case main_return
      then have "rn_conns st = []" by (simp add: tracked_tasks_def)
      then have "\<forall>n \<in> set (ad_served (admission_of sv st)). n = 0"
        by (auto simp: admission_of_def running_def)
      moreover have "ad_signalled (admission_of sv st)"
        using tasks main_return by (simp add: inv_tasks_def admission_of_def)
      moreover have "admission_of sv st' = (admission_of sv st)\<lparr>ad_stopped := True\<rparr>"
        using main_return by (simp add: admission_of_def)
      ultimately show ?thesis
        using adm_stop [OF live] main_return by (intro disjI2 exI [of _ Ad_Stop]) simp
    qed (simp_all add: admission_of_def)
  next
    case by_proxy
    then show ?thesis
    proof cases
      case (proxy_accept_health i)
      have "i < length (sv_proxies sv)" "is_health_server (sv_proxies sv ! i)"
        using tasks proxy_accept_health by (auto simp: inv_tasks_def)
      with admits [where i = i and sv = sv and st = st and ss = "rn_sems st" and b = False] proxy_accept_health
      show ?thesis by (intro disjI2 exI [of _ "Ad_Admit i"]) simp
    next
      case (proxy_accept_admit i ref s')
      then have i: "i < length (sv_proxies sv)" "\<not> is_health_server (sv_proxies sv ! i)"
        using tasks by (auto simp: inv_tasks_def)
      then have "ref = i" using wf proxy_accept_admit by (simp add: server_wf_def)
      then have "0 < sem_available S (rn_sems st ! i)"
        using semaphore.acquire_positive [OF sem] proxy_accept_admit by simp
      then have "running i st < p_maxclients_limit (sv_proxies sv ! i)"
        using server_permits [OF inv i] by simp
      with admits [where i = i and sv = sv and st = st and ss = "(rn_sems st)[ref := s']" and b = True] i proxy_accept_admit
      show ?thesis by (intro disjI2 exI [of _ "Ad_Admit i"]) simp
    next
      case (proxy_accept_reject i)
      then have i: "i < length (sv_proxies sv)" "\<not> is_health_server (sv_proxies sv ! i)"
        using tasks by (auto simp: inv_tasks_def)
      then have "sem_available S (rn_sems st ! i) = 0"
        using wf proxy_accept_reject semaphore.acquire_none [OF sem] by (simp add: server_wf_def)
      then have "running i st = p_maxclients_limit (sv_proxies sv ! i)"
        using server_permits [OF inv i] by simp
      then have "adm_step (limits_of sv) (admission_of sv st) (Ad_Reject i) (admission_of sv st)"
        using i proxy_accept_reject(3) by (intro adm_reject live) (simp_all add: admission_of_def limits_of_def)
      with proxy_accept_reject show ?thesis by (intro disjI2 exI [of _ "Ad_Reject i"]) simp
    next
      case (proxy_conn_run j c ev upstream' s t)
      then have "running i st' = running i st" for i
        by (simp add: running_def served_advance)
      with proxy_conn_run show ?thesis by (simp add: admission_of_def)
    next
      case (proxy_conn_drop j c r ref)
      then have "cn_proxy (rn_conns st ! j) < length (sv_proxies sv)"
        using tasks by (auto simp: inv_tasks_def)
      with leaves [of j st sv] proxy_conn_drop
      show ?thesis by (intro disjI2 exI [of _ "Ad_Leave (cn_proxy c)"]) simp
    qed (simp_all add: admission_of_def)
  qed
qed

lemma seen_by_machine: "\<exists>k. adm_seen k = seen l"
  by (rule exI [of _ "case seen l of None \<Rightarrow> Ad_Leave 0 | Some k \<Rightarrow> k"]) (cases l; simp)

interpretation admission: refinement "server_step S h tp (sv_proxies sv)" "run_init sv"
  "\<lambda>st. semaphore S \<and> server_wf S sv \<longrightarrow> server_inv S h tp sv st"
  "\<lambda>a k a'. semaphore S \<and> server_wf S sv \<longrightarrow> adm_step (limits_of sv) a k a'" "admission_of sv" seen adm_seen
  for S h tp sv
proof
  fix st l st'
  assume "semaphore S \<and> server_wf S sv \<longrightarrow> server_inv S h tp sv st"
    and "server_step S h tp (sv_proxies sv) st l st'"
  then show "admission_of sv st' = admission_of sv st \<and> seen l = None \<or>
      (\<exists>k. (semaphore S \<and> server_wf S sv \<longrightarrow> adm_step (limits_of sv) (admission_of sv st) k (admission_of sv st')) \<and>
        adm_seen k = seen l)"
    using server_simulates [of S h tp sv st l st'] seen_by_machine [of l]
    by (cases "semaphore S \<and> server_wf S sv") auto
qed

section \<open>Property\<close>

text \<open>
  C6. The running server implements the admission machine. Every run of it, of any number of
  listeners, connections and signals in any interleaving, is a run of the machine with the limits of
  its listeners and the same sequence of signals, admissions, rejections and the final stop, in
  which the machine's counters are at every moment the numbers of connections that run.
\<close>

theorem running_server_is_admission_machine:
  assumes "semaphore S" and "server_from S pc = Some sv"
    and "run (server_step S h tp (sv_proxies sv)) (run_init sv) ls st"
  shows "\<exists>ks. run (adm_step (limits_of sv)) (adm_init (limits_of sv)) ks (admission_of sv st) \<and>
    List.map_filter adm_seen ks = List.map_filter seen ls \<and> adm_inv (limits_of sv) (admission_of sv st)"
proof -
  have "admission_of sv (run_init sv) = adm_init (limits_of sv)"
    by (simp add: admission_of_def adm_init_def limits_of_def run_init_def running_def map_replicate_const)
  moreover have "semaphore S \<and> server_wf S sv" using assms(1) server_from_wf [OF assms(1,2)] by blast
  ultimately obtain ks where
    ks: "run (adm_step (limits_of sv)) (adm_init (limits_of sv)) ks (admission_of sv st)"
      "List.map_filter adm_seen ks = List.map_filter seen ls"
    using admission.refines [OF assms(3)] by auto
  with adm.inv_run [OF ks(1)] show ?thesis by blast
qed

section \<open>Witnesses\<close>

theorem running_server_is_admission_machine_witness:
  "\<exists>ks a. run (adm_step [Some 100]) (adm_init [Some 100]) ks a \<and> ad_served a = [1] \<and> adm_inv [Some 100] a"
proof -
  have limits: "limits_of sv_ex = [Some 100]"
    using server_ex_proxy server_ex_facts by (auto simp: limits_of_def)
  obtain ls st s where run: "run (server_step counting_sem he_ex (sni_parser []) (sv_proxies sv_ex)) (run_init sv_ex) ls st"
    and c: "rn_conns st = [\<lparr>cn_proxy = 0, cn_permit = True, cn_state = C_Relay tn_ex s,
       cn_events = conn_events_ex, cn_trace = conn_trace_ex\<rparr>]" using conn_ex by blast
  have "ad_served (admission_of sv_ex st) = [1]"
    using c by (simp add: admission_of_def server_ex_facts running_def)
  with running_server_is_admission_machine [OF counting.semaphore_axioms server_ex run] show ?thesis
    unfolding limits by blast
qed

end
