(* ===== verification/Server_Route.thy ===== *)
theory Server_Route
  imports Server_Calls
begin

text \<open>
  Where a connection goes, from the first byte it peeks to the address it connects to.

  \<open>Server_Run\<close> says that a connection behaves as \<open>accept\<close> would but for its name lookups, and
  \<open>Server_Calls\<close> where the addresses in the caches come from. Here the two meet: a connection looks up and
  connects for the upstream that its own server names lead to and for no other, however many
  connections share the caches. The last section says what that means for the configuration file.
\<close>

section \<open>The route of a connection\<close>

fun tunnel_of :: "conn_state \<Rightarrow> tunnel option" where
  "tunnel_of (C_Resolve tn pc) = Some tn"
| "tunnel_of (C_Connect tn as) = Some tn"
| "tunnel_of (C_Write tn buf written) = Some tn"
| "tunnel_of (C_Read tn acc) = Some tn"
| "tunnel_of (C_Relay tn s) = Some tn"
| "tunnel_of st = None"

text \<open>The names that a connection has peeked lead to this tunnel and this upstream.\<close>

definition routed_by :: "'hdr tls_parser \<Rightarrow> proxy \<Rightarrow> conn_env \<Rightarrow> tunnel \<Rightarrow> proxy_to_upstream \<Rightarrow> bool" where
  "routed_by tp proxy env tn pu \<longleftrightarrow> pu_protocol pu = tn_protocol tn \<and>
     (\<exists>snis. accept_snis tp proxy env = io_ret snis \<and>
       accept_plan proxy snis = Inr ((tn_key tn, Proxy pu), tn_via tn, tn_target tn))"

text \<open>An action that is for this tunnel and this upstream, if it is a lookup or an attempt to connect.\<close>

fun contacts :: "tunnel \<Rightarrow> proxy_to_upstream \<Rightarrow> action \<Rightarrow> bool" where
  "contacts tn pu (Lookup host) \<longleftrightarrow> host = ua_address (pu_addresses pu)"
| "contacts tn pu (Connect as d) \<longleftrightarrow> d = via_connect_timeout (tn_via tn)"
| "contacts tn pu a \<longleftrightarrow> False"

fun is_contact :: "action \<Rightarrow> bool" where
  "is_contact (Lookup host) = True"
| "is_contact (Connect as d) = True"
| "is_contact a = False"

lemma plan_same:
  assumes "accept_plan (proxy\<lparr>p_upstream := m\<rparr>) snis = Inr ((k, Proxy pv), via, target)"
    and "same_upstreams m (p_upstream proxy)"
  shows "\<exists>pu. accept_plan proxy snis = Inr ((k, Proxy pu), via, target) \<and> pu_protocol pu = pu_protocol pv"
proof -
  have route: "route (proxy\<lparr>p_upstream := m\<rparr>) snis = route proxy snis"
    by (simp add: route_def split: option.split)
  have dom: "hm_get (p_upstream proxy) (fst (route proxy snis)) = None \<longleftrightarrow> hm_get m (fst (route proxy snis)) = None"
    using assms(2) by (metis same_upstreams_def map_option_is_None)
  have "hm_get m k = Some (Proxy pv)" using accept_plan_Inr [OF assms(1)] by simp
  from same_upstreams_Proxy [OF assms(2) this] obtain pu where
    pu: "hm_get (p_upstream proxy) k = Some (Proxy pu)" "pu_protocol pu = pu_protocol pv" by blast
  have "accept_plan proxy snis = Inr ((k, Proxy pu), via, target)"
    using assms(1) pu(1) dom
    by (auto simp: accept_plan_def select_upstream_def route case_prod_unfold Let_def
        split: option.splits sum.splits)
  with pu(2) show ?thesis by blast
qed

section \<open>Along a path\<close>

text \<open>The first peek is the one that counts.\<close>

lemma peek_append:
  "ce_peek (observed h (evs @ evs')) =
     (case ce_peek (observed h evs) of None \<Rightarrow> ce_peek (observed h evs') | Some r \<Rightarrow> Some r)"
proof (induction evs)
  case Nil
  then show ?case by (simp add: observed_def [of h "[]"] idle_env_def)
next
  case (Cons ev evs)
  then show ?case by (cases ev) (simp_all add: observed_def)
qed

lemma snis_append:
  "accept_snis tp proxy (observed h evs) = io_ret snis \<Longrightarrow>
     accept_snis tp proxy (observed h (evs @ evs')) = io_ret snis"
  by (auto simp: accept_snis_def peek_append io_ret_def split: if_splits option.splits)

lemma routed_by_append:
  "routed_by tp proxy (observed h evs) tn pu \<Longrightarrow> routed_by tp proxy (observed h (evs @ evs')) tn pu"
  using snis_append by (fastforce simp: routed_by_def)

definition route_inv ::
  "'hdr tls_parser \<Rightarrow> proxy \<Rightarrow> host_env \<Rightarrow> conn_event list \<Rightarrow> action list \<Rightarrow> conn_state \<Rightarrow> bool" where
  "route_inv tp proxy h evs t st \<longleftrightarrow>
     (st = C_New \<or> st = C_Peek \<longrightarrow> ce_peek (observed h evs) = None) \<and> (st = C_Peek \<longrightarrow> p_tls proxy) \<and>
     (\<forall>tn. tunnel_of st = Some tn \<longrightarrow> (\<exists>pu. routed_by tp proxy (observed h evs) tn pu)) \<and>
     (\<forall>a \<in> set t. is_contact a \<longrightarrow> (\<exists>tn pu. routed_by tp proxy (observed h evs) tn pu \<and> contacts tn pu a)) \<and>
     (\<forall>tn. st = C_Resolve tn R_Lookup \<longrightarrow> (\<exists>host. Lookup host \<in> set t))"

lemma resolve_step_trace:
  assumes "resolve_step mode ua pc ev = Some (ua', pc', t)"
  shows "t = (if pc' = R_Lookup then [Lookup (ua_address ua)] else [])"
  using assms by (elim resolve_step_cases) (auto split: if_splits option.splits)

text \<open>Steps that neither route nor resolve.\<close>

lemma step_keeps_tunnel:
  assumes "conn_step h tp proxy m st ev = Some (m', st', t)" and "st \<noteq> C_New" and "st \<noteq> C_Peek"
    and "\<And>tn pc. st \<noteq> C_Resolve tn pc"
  shows "(tunnel_of st' = None \<or> tunnel_of st' = tunnel_of st) \<and> (\<forall>a \<in> set t. \<not> is_contact a) \<and>
    st' \<noteq> C_New \<and> st' \<noteq> C_Peek \<and> (\<forall>tn pc. st' \<noteq> C_Resolve tn pc)"
  using assms(1)
proof (cases rule: conn_step_cases)
  case (at_relay tn s e)
  have "\<not> is_contact a" if "a \<in> set (snd (relay_step si s e))" for a si
    using relay_step_actions [OF that] by (cases a) auto
  with at_relay show ?thesis by (auto simp: step_relay_def case_prod_unfold Let_def split: if_splits)
qed (use assms(2-4) in \<open>auto simp: step_echo_def step_connect_def step_write_def step_read_def
    enter_tunnel_def enter_write_def Let_def
    split: echo_event.splits connect_result.splits sum.splits option.splits write_event.splits
      read_event.splits if_splits\<close>)

lemma enter_process_route:
  assumes "enter_process (proxy\<lparr>p_upstream := m\<rparr>) snis = (st, t)" and "same_upstreams m (p_upstream proxy)"
    and "accept_snis tp proxy env = io_ret snis"
  shows "(\<forall>tn. tunnel_of st = Some tn \<longrightarrow> (\<exists>pu. routed_by tp proxy env tn pu)) \<and> (\<forall>a \<in> set t. \<not> is_contact a) \<and>
    st \<noteq> C_New \<and> st \<noteq> C_Peek \<and> (\<forall>tn. st \<noteq> C_Resolve tn R_Lookup)"
proof (cases "\<exists>tn. tunnel_of st = Some tn")
  case True
  then obtain k pv via target where
    plan: "accept_plan (proxy\<lparr>p_upstream := m\<rparr>) snis = Inr ((k, Proxy pv), via, target)"
    and st: "st = C_Resolve \<lparr>tn_key = k, tn_protocol = pu_protocol pv, tn_via = via, tn_target = target\<rparr> R_Start"
      "t = []"
    using assms(1) by (auto simp: enter_process_def enter_upstream_def
        split: sum.splits prod.splits upstream.splits if_splits)
  from plan_same [OF plan assms(2)] assms(3) st show ?thesis
    by (auto simp: routed_by_def)
next
  case False
  with assms(1) show ?thesis
    by (auto simp: enter_process_def enter_upstream_def split: sum.splits prod.splits upstream.splits if_splits)
qed

lemma route_inv_step:
  assumes inv: "route_inv tp proxy h evs t st" and step: "conn_step h tp proxy m st ev = Some (m', st', t')"
    and same: "same_upstreams m (p_upstream proxy)"
  shows "route_inv tp proxy h (evs @ [ev]) (t @ t') st'"
proof -
  have old: "\<exists>tn pu. routed_by tp proxy (observed h (evs @ [ev])) tn pu \<and> contacts tn pu a"
    if "a \<in> set t" "is_contact a" for a
    using inv that routed_by_append [of tp proxy h evs] unfolding route_inv_def by blast
  have entered: "route_inv tp proxy h (evs @ [ev]) (t @ t') st'"
    if "enter_process (proxy\<lparr>p_upstream := m\<rparr>) snis = (st', t')"
      "accept_snis tp proxy (observed h (evs @ [ev])) = io_ret snis" for snis
    using enter_process_route [OF that(1) same that(2)] old by (auto simp: route_inv_def)
  show ?thesis
  proof (cases "\<exists>tn pc. st = C_Resolve tn pc")
    case True
    then obtain tn pc where st: "st = C_Resolve tn pc" by blast
    from inv st obtain pu where pu: "routed_by tp proxy (observed h evs) tn pu" by (auto simp: route_inv_def)
    then have get: "hm_get (p_upstream proxy) (tn_key tn) = Some (Proxy pu)"
      by (auto simp: routed_by_def dest: accept_plan_Inr)
    note now = routed_by_append [OF pu, of "[ev]"]
    from step st obtain e where "step_resolve tn pc m e = Some (m', st', t')" "ev = E_Resolve e"
      by (auto elim: conn_step_cases)
    from this(1) show ?thesis
    proof (rule step_resolve_Some)
      fix config addresses pc' t1
      assume config: "hm_get m (tn_key tn) = Some (Proxy config)"
        and rs: "resolve_step (mode_from_str (tn_protocol tn)) (pu_addresses config) pc e = Some (addresses, pc', t1)"
        and st': "(\<exists>e. pc' = R_Return (Inl e) \<and> st' = C_End (Ret ()) \<and> t' = t1) \<or>
          (\<exists>as. pc' = R_Return (Inr as) \<and> st' = C_Connect tn as \<and>
             t' = t1 @ [Connect as (via_connect_timeout (tn_via tn))]) \<or>
          ((\<forall>r. pc' \<noteq> R_Return r) \<and> st' = C_Resolve tn pc' \<and> t' = t1)"
      have "ua_address (pu_addresses config) = ua_address (pu_addresses pu)"
        using same_upstreams_Proxy [OF same config] get by auto
      with resolve_step_trace [OF rs] have t1: "t1 = [] \<or> t1 = [Lookup (ua_address (pu_addresses pu))]"
        and lookup: "pc' = R_Lookup \<Longrightarrow> t1 \<noteq> []" by auto
      have new: "contacts tn pu a" if "a \<in> set t'" for a
        using that t1 st' by auto
      have "st' \<noteq> C_New \<and> st' \<noteq> C_Peek" "tunnel_of st' = None \<or> tunnel_of st' = Some tn"
        using st' by auto
      with old new now st' t1 lookup show ?thesis
        unfolding route_inv_def set_append by fastforce
    qed
  next
    case False
    show ?thesis
    proof (cases "st = C_New \<or> st = C_Peek")
      case True
      from step show ?thesis
      proof (cases rule: conn_step_cases)
        case (at_new peer)
        show ?thesis
        proof (cases "\<exists>snis. enter_process (proxy\<lparr>p_upstream := m\<rparr>) snis = (st', t') \<and> snis = [] \<and> \<not> p_tls proxy")
          case True
          then show ?thesis by (intro entered) (auto simp: accept_snis_def)
        next
          case False
          with at_new(4) have "t' = []" "(\<exists>e. st' = C_End (Fail e)) \<or> st' = C_Peek \<and> p_tls proxy"
            by (auto simp: step_new_def split: bool.splits sum.splits if_splits)
          moreover have "ce_peek (observed h [E_Peer peer]) = None" by (simp add: observed_def idle_env_def)
          ultimately show ?thesis
            using old inv at_new(1,2) by (auto simp: route_inv_def peek_append)
        qed
      next
        case (at_peek r)
        then have peek: "ce_peek (observed h (evs @ [ev])) = Some r" "p_tls proxy"
          using inv by (auto simp: route_inv_def peek_append observed_def [of h "[E_Peek r]"])
        show ?thesis
        proof (cases r)
          case (Inl e)
          with at_peek(4) old show ?thesis by (auto simp: route_inv_def step_peek_def)
        next
          case (Inr d)
          with at_peek(4) peek show ?thesis
            by (intro entered [of "get_sni tp (peek_into d)"]) (simp_all add: step_peek_def accept_snis_def)
        qed
      qed (use True in auto)
    next
      case here: False
      with step_keeps_tunnel [OF step] False have k: "tunnel_of st' = None \<or> tunnel_of st' = tunnel_of st"
        "\<forall>a \<in> set t'. \<not> is_contact a" "st' \<noteq> C_New" "st' \<noteq> C_Peek" "\<And>tn pc. st' \<noteq> C_Resolve tn pc" by auto
      have "\<exists>pu. routed_by tp proxy (observed h (evs @ [ev])) tn pu" if "tunnel_of st' = Some tn" for tn
        using that k(1) inv routed_by_append [of tp proxy h evs] by (fastforce simp: route_inv_def)
      with old k show ?thesis by (auto simp: route_inv_def)
    qed
  qed
qed

lemma route_inv_path:
  assumes "conn_path h tp proxy st evs t st'" and "route_inv tp proxy h evs0 t0 st"
  shows "route_inv tp proxy h (evs0 @ evs) (t0 @ t) st'"
  using assms
proof (induction arbitrary: evs0 t0 rule: conn_path.induct)
  case (path_step m st ev m' st1 t evs t' st2)
  from path_step.IH [OF route_inv_step [OF path_step.prems path_step.hyps(1,2)]] show ?case by simp
qed simp

lemma path_route: "conn_path h tp proxy C_New evs t st \<Longrightarrow> route_inv tp proxy h evs t st"
  using route_inv_path [of h tp proxy C_New evs t st "[]" "[]"]
  by (simp add: route_inv_def observed_def idle_env_def)

lemma conn_step_connects:
  assumes "conn_step h tp proxy m st ev = Some (m', st', t)" and "Connect as d \<in> set t"
  shows "\<exists>tn pc. st = C_Resolve tn pc \<and> st' = C_Connect tn as \<and> d = via_connect_timeout (tn_via tn)"
proof (cases "\<exists>tn pc. st = C_Resolve tn pc")
  case True
  with assms(1) obtain tn pc e where st: "st = C_Resolve tn pc" and "step_resolve tn pc m e = Some (m', st', t)"
    by (auto elim: conn_step_cases)
  from this(2) show ?thesis
    by (rule step_resolve_Some) (use assms(2) st in \<open>auto dest!: resolve_step_trace split: if_splits\<close>)
next
  case False
  have enter: "enter_process p snis = (s, t) \<Longrightarrow> a \<in> set t \<Longrightarrow> \<not> is_contact a" for p snis s a
    by (auto simp: enter_process_def enter_upstream_def split: sum.splits prod.splits upstream.splits if_splits)
  have "\<not> is_contact a" if "a \<in> set t" for a
  proof (cases "st = C_New \<or> st = C_Peek")
    case True
    with assms(1) that enter show ?thesis
      by (auto elim!: conn_step_cases simp: step_new_def step_peek_def split: bool.splits sum.splits if_splits)
  qed (use step_keeps_tunnel [OF assms(1)] False that in auto)
  with assms(2) show ?thesis by force
qed

section \<open>In the running server\<close>

lemma server_step_conn:
  assumes "server_step S h tp proxies st l st'" and "c' \<in> set (rn_conns st')"
  obtains "c' \<in> set (rn_conns st)" | "cn_trace c' = []"
    | j ev m' s t where "l = Conn_Run j ev" "j < length (rn_conns st)"
      "conn_step h tp (proxies ! cn_proxy (rn_conns st ! j)) (rn_upstream st) (cn_state (rn_conns st ! j)) ev =
         Some (m', s, t)" "c' = conn_advance (rn_conns st ! j) ev s t"
  using assms(1)
proof cases
  case by_main
  from this(1) assms(2) that(1) show ?thesis by cases simp_all
next
  case by_proxy
  from this(1) show ?thesis
  proof cases
    case (proxy_conn_run j c ev upstream' s t)
    with assms(2) have "c' \<in> set (rn_conns st) \<or> c' = conn_advance (rn_conns st ! j) ev s t"
      using set_update_subset_insert [of "rn_conns st" j] by auto
    with proxy_conn_run that show ?thesis by auto
  next
    case (proxy_conn_drop j c r)
    with assms(2) that(1) show ?thesis
      using set_take_subset [of j "rn_conns st"] set_drop_subset [of "Suc j" "rn_conns st"] by auto
  qed (use assms(2) that(1,2) in auto)
qed

lemma server_route:
  assumes "iterates (le_order env)" and "fst (load_config env path) = Inr pc"
    and "semaphore S" and "server_from S pc = Some sv"
    and "run (server_step S h tp (sv_proxies sv)) (run_init sv) ls st" and "c \<in> set (rn_conns st)"
  shows "route_inv tp (sv_proxies sv ! cn_proxy c) h (cn_events c) (cn_trace c) (cn_state c)"
proof (rule path_route)
  show "conn_path h tp (sv_proxies sv ! cn_proxy c) C_New (cn_events c) (cn_trace c) (cn_state c)"
    using server_run_inv(5) [OF assms(3-5)] assms(6)
      server_upstream_from [OF assms(3,4) loaded_upstreams_ok [OF assms(1,2)]]
    by (simp add: inv_conns_def conn_inv_def)
qed

text \<open>The proxies share one map, so the same name is the same upstream on all of them.\<close>

lemma routed_upstream:
  assumes "semaphore S" and "server_from S pc = Some sv"
    and "run (server_step S h tp (sv_proxies sv)) (run_init sv) ls st" and "c \<in> set (rn_conns st)"
    and "routed_by tp (sv_proxies sv ! cn_proxy c) e tn pu"
  shows "hm_get (server_upstream sv) (tn_key tn) = Some (Proxy pu)"
proof -
  note inv = server_run_inv [OF assms(1-3)]
  have "p_upstream (sv_proxies sv ! cn_proxy c) = server_upstream sv"
    using inv(1,3) assms(4) by (simp add: server_wf_def inv_tasks_def)
  with assms(5) show ?thesis by (auto simp: routed_by_def dest: accept_plan_Inr)
qed

lemma routed_by_unique:
  "routed_by tp proxy env tn pu \<Longrightarrow> routed_by tp proxy env tn' pu' \<Longrightarrow> tn = tn' \<and> pu = pu'"
  by (auto simp: routed_by_def io_ret_def)

text \<open>What the resolver has told those that asked for a host.\<close>

definition told ::
  "('s run_state \<Rightarrow> event \<Rightarrow> 's run_state \<Rightarrow> bool) \<Rightarrow> 's run_state \<Rightarrow> event list \<Rightarrow> string \<Rightarrow> sock_addr set" where
  "told step init ls host = {a. \<exists>ls1 j ls2 st tn found.
     ls = ls1 @ Conn_Run j (E_Resolve (Answer (Inr found))) # ls2 \<and> run step init ls1 st \<and>
     j < length (rn_conns st) \<and> cn_state (rn_conns st ! j) = C_Resolve tn R_Lookup \<and>
     Lookup host \<in> set (cn_trace (rn_conns st ! j)) \<and> a \<in> set found}"

lemma told_mono: "told step init ls host \<subseteq> told step init (ls @ [l]) host"
  unfolding told_def by (intro Collect_mono impI; elim exE conjE) fastforce

lemma heard_told:
  assumes "iterates (le_order env)" and "fst (load_config env path) = Inr pc"
    and "semaphore S" and "server_from S pc = Some sv"
    and "Answer (Inr found) \<in> heard (server_step S h tp (sv_proxies sv)) (run_init sv) ls k" and "a \<in> set found"
    and "hm_get (server_upstream sv) k = Some (Proxy pu)"
  shows "a \<in> told (server_step S h tp (sv_proxies sv)) (run_init sv) ls (ua_address (pu_addresses pu))"
proof -
  let ?step = "server_step S h tp (sv_proxies sv)"
  obtain ls1 j ls2 st tn where ls: "ls = ls1 @ Conn_Run j (E_Resolve (Answer (Inr found))) # ls2"
    and run: "run ?step (run_init sv) ls1 st" and j: "j < length (rn_conns st)"
    and st: "cn_state (rn_conns st ! j) = C_Resolve tn R_Lookup" "tn_key tn = k"
    using assms(5) by (fastforce simp: heard_def)
  let ?c = "rn_conns st ! j"
  have c: "?c \<in> set (rn_conns st)" using j by simp
  from server_route [OF assms(1-4) run c] st obtain pu1 host tn2 pu2 where
    1: "routed_by tp (sv_proxies sv ! cn_proxy ?c) (observed h (cn_events ?c)) tn pu1"
    and host: "Lookup host \<in> set (cn_trace ?c)"
    and 2: "routed_by tp (sv_proxies sv ! cn_proxy ?c) (observed h (cn_events ?c)) tn2 pu2" "contacts tn2 pu2 (Lookup host)"
    unfolding route_inv_def by (metis is_contact.simps(1) tunnel_of.simps(1))
  have "pu1 = pu" using routed_upstream [OF assms(3,4) run c 1] assms(7) st(2) by simp
  then have "host = ua_address (pu_addresses pu)" using 2 routed_by_unique [OF 1 2(1)] by simp
  with ls run j st(1) host assms(6) show ?thesis unfolding told_def by blast
qed

text \<open>
  Every attempt to connect is made with the timeout of the route, and to addresses that were told to
  connections that asked for the host of its upstream.
\<close>

lemma running_attempts:
  assumes "iterates (le_order env)" and "fst (load_config env path) = Inr pc"
    and "semaphore S" and "server_from S pc = Some sv"
    and "run (server_step S h tp (sv_proxies sv)) (run_init sv) ls st" and "c \<in> set (rn_conns st)"
    and "Connect as d \<in> set (cn_trace c)"
  shows "\<exists>tn pu. routed_by tp (sv_proxies sv ! cn_proxy c) (observed h (cn_events c)) tn pu \<and>
    d = via_connect_timeout (tn_via tn) \<and> list_all (allowed (mode_from_str (pu_protocol pu))) as \<and>
    set as \<subseteq> told (server_step S h tp (sv_proxies sv)) (run_init sv) ls (ua_address (pu_addresses pu))"
  using assms(5-7)
proof (induction arbitrary: c rule: run.induct)
  case run_refl
  then show ?case by (simp add: run_init_def)
next
  case (run_step ls st l st')
  let ?step = "server_step S h tp (sv_proxies sv)"
  note run' = run.run_step [OF run_step.hyps]
  have later: ?case if "Connect as d \<in> set (cn_trace c0)" "c0 \<in> set (rn_conns st)" "cn_proxy c = cn_proxy c0"
      "\<exists>evs. cn_events c = cn_events c0 @ evs" for c0
    using run_step.IH [OF that(2,1)] that(3,4) told_mono [of ?step "run_init sv" ls _ l] routed_by_append
    by (metis (no_types, lifting) subset_trans)
  from run_step.hyps(2) run_step.prems(1) show ?case
  proof (cases rule: server_step_conn)
    case 1
    with run_step.prems(2) show ?thesis by (intro later [of c]) auto
  next
    case 2
    with run_step.prems(2) show ?thesis by simp
  next
    case (3 j ev m' s t)
    show ?thesis
    proof (cases "Connect as d \<in> set t")
      case False
      with 3 run_step.prems(2) show ?thesis by (intro later [of "rn_conns st ! j"]) auto
    next
      case True
      obtain tn pc where r: "cn_state (rn_conns st ! j) = C_Resolve tn pc" "s = C_Connect tn as"
        "d = via_connect_timeout (tn_via tn)"
        using conn_step_connects [OF 3(3) True] by blast
      with server_route [OF assms(1-4) run' run_step.prems(1)] 3(4) obtain pu where
        pu: "routed_by tp (sv_proxies sv ! cn_proxy c) (observed h (cn_events c)) tn pu"
        unfolding route_inv_def by (metis conn_advance_simps(3) tunnel_of.simps(2))
      have get: "hm_get (server_upstream sv) (tn_key tn) = Some (Proxy pu)"
        by (rule routed_upstream [OF assms(3,4) run' run_step.prems(1) pu])
      from connecting_addresses [OF assms(1-4) run' run_step.prems(1)] r(2) 3(4)
      have as: "(tn_protocol tn = ''tcp4'' \<longrightarrow> list_all is_ipv4 as) \<and> (tn_protocol tn = ''tcp6'' \<longrightarrow> list_all is_ipv6 as)"
        "\<forall>a \<in> set as. \<exists>found. Answer (Inr found) \<in> heard ?step (run_init sv) (ls @ [l]) (tn_key tn) \<and> a \<in> set found"
        by auto
      have "pu_protocol pu = tn_protocol tn" using pu by (simp add: routed_by_def)
      then have "list_all (allowed (mode_from_str (pu_protocol pu))) as"
        using as(1) by (auto simp: mode_from_str_def list_all_iff)
      moreover have "set as \<subseteq> told ?step (run_init sv) (ls @ [l]) (ua_address (pu_addresses pu))"
        using as(2) heard_told [OF assms(1-4) _ _ get] by blast
      ultimately show ?thesis using pu r(3) by blast
    qed
  qed
qed

section \<open>What the configuration file says\<close>

text \<open>
  The upstream and the \<open>via\<close> that a server block of the document gives to a client with these names:
  those of the first name that its SNI map knows, or else its default and its own \<open>via\<close>.
\<close>

definition own_via :: "raw_server \<Rightarrow> via_upstream" where
  "own_via rs = (case rs_via rs of None \<Rightarrow> via_default | Some v \<Rightarrow> via_of_raw v)"

definition file_route :: "raw_server \<Rightarrow> string list \<Rightarrow> string \<times> via_upstream" where
  "file_route rs snis =
     (let known = or_else (rs_sni rs) [] in
      case List.find (\<lambda>s. hm_get known s \<noteq> None) snis of
        None \<Rightarrow> (or_else (rs_default rs) ''ban'', own_via rs)
      | Some s \<Rightarrow>
          (case the (hm_get known s) of
             Raw_Simple name \<Rightarrow> (name, own_via rs)
           | Raw_Extended name None \<Rightarrow> (name, own_via rs)
           | Raw_Extended name (Some v) \<Rightarrow> (name, via_of_raw v)))"

lemma route_of_raw:
  "(fst (route (proxy_of u i (name, server_of_raw rs, a)) snis),
    case snd (route (proxy_of u i (name, server_of_raw rs, a)) snis) of
      Some v \<Rightarrow> v | None \<Rightarrow> p_via (proxy_of u i (name, server_of_raw rs, a))) = file_route rs snis"
proof (cases "rs_sni rs")
  case None
  moreover have "List.find (\<lambda>s. False) snis = None" by (induction snis) simp_all
  ultimately show ?thesis
    by (simp add: route_eq proxy_of_def server_of_raw_def file_route_def own_via_def split: option.split)
next
  case (Some m)
  let ?m = "map (\<lambda>(k, t). (k, sni_target_of_raw t)) m"
  have get: "hm_get ?m k = map_option sni_target_of_raw (hm_get m k)" for k by (rule hm_get_map)
  then have "List.find (\<lambda>s. hm_get ?m s \<noteq> None) snis = List.find (\<lambda>s. hm_get m s \<noteq> None) snis" by simp
  moreover have "\<exists>t. hm_get m s = Some t" if "List.find (\<lambda>s. hm_get m s \<noteq> None) snis = Some s" for s
    using that by (auto simp: find_Some_iff)
  ultimately show ?thesis
    using Some get
    by (cases "List.find (\<lambda>s. hm_get m s \<noteq> None) snis")
      (fastforce simp: route_eq match_sni_find proxy_of_def server_of_raw_def file_route_def own_via_def
        split: raw_sni_target.split option.split)+
qed

text \<open>Of a server that was built from a document, every proxy is a listen address of one of its blocks.\<close>

lemma proxies_of_raw:
  assumes "iterates (le_order env)" and "fst (load_config env path) = Inr pc" and "document env path = Some raw"
    and "semaphore S" and "server_from S pc = Some sv" and "p \<in> set (sv_proxies sv)"
  obtains u ref rs a where "(p_name p, rs) \<in> set (rb_servers raw)" "p = proxy_of u ref (p_name p, server_of_raw rs, a)"
    "\<exists>l \<in> set (rs_listen rs). parse_socket_addr l = Some (p_listen p)"
proof -
  obtain u ref name cfg a where l: "(name, cfg, a) \<in> set (listeners (pc_servers pc))"
    and p: "p = proxy_of u ref (name, cfg, a)"
    using semaphore.server_from_Some [OF assms(4,5)] assms(6) in_proxies_of by (metis prod_cases3)
  have "pc_servers pc = map (\<lambda>(k, s). (k, server_of_raw s)) (rb_servers raw)"
    using load_config_Inr [OF assms(1), of path pc] assms(2,3) by (auto simp: base_of_raw_def)
  with l obtain rs where "(name, rs) \<in> set (rb_servers raw)" "cfg = server_of_raw rs"
    by (auto simp: set_listeners)
  with l p that [of rs u ref a] show ?thesis
    by (auto simp: set_listeners proxy_of_def server_of_raw_def)
qed

lemma file_attempts:
  assumes "iterates (le_order env)" and "fst (load_config env path) = Inr pc" and "document env path = Some raw"
    and "hm_ok (or_else (rb_upstream raw) [])"
    and "semaphore S" and "server_from S pc = Some sv"
    and "run (server_step S h tp (sv_proxies sv)) (run_init sv) ls st" and "c \<in> set (rn_conns st)"
    and "Connect as d \<in> set (cn_trace c)" and "p = sv_proxies sv ! cn_proxy c"
  shows "\<exists>rs snis url u host port.
    (p_name p, rs) \<in> set (rb_servers raw) \<and> (\<exists>l \<in> set (rs_listen rs). parse_socket_addr l = Some (p_listen p)) \<and>
    accept_snis tp p (observed h (cn_events c)) = io_ret snis \<and>
    hm_get (or_else (rb_upstream raw) []) (fst (file_route rs snis)) = Some url \<and>
    le_url env url = Some u \<and> url_host_str u = Some host \<and> url_port_or_known_default u = Some port \<and>
    d = via_connect_timeout (snd (file_route rs snis)) \<and>
    list_all (allowed (mode_from_str (url_scheme u))) as \<and>
    (\<forall>host'. Lookup host' \<in> set (cn_trace c) \<longrightarrow> host' = host @ '':'' @ show_nat (unat port)) \<and>
    set as \<subseteq> told (server_step S h tp (sv_proxies sv)) (run_init sv) ls (host @ '':'' @ show_nat (unat port))"
proof -
  note inv = server_run_inv [OF assms(5-7)]
  have p: "p \<in> set (sv_proxies sv)" using inv(3) assms(8,10) by (simp add: inv_tasks_def)
  obtain u0 ref rs a where rs: "(p_name p, rs) \<in> set (rb_servers raw)" "p = proxy_of u0 ref (p_name p, server_of_raw rs, a)"
    "\<exists>l \<in> set (rs_listen rs). parse_socket_addr l = Some (p_listen p)"
    by (rule proxies_of_raw [OF assms(1-3,5,6) p])
  from running_attempts [OF assms(1,2,5-9)] obtain tn pu where
    tn: "routed_by tp p (observed h (cn_events c)) tn pu" and d: "d = via_connect_timeout (tn_via tn)"
    and as: "list_all (allowed (mode_from_str (pu_protocol pu))) as"
      "set as \<subseteq> told (server_step S h tp (sv_proxies sv)) (run_init sv) ls (ua_address (pu_addresses pu))"
    unfolding assms(10) by blast
  then obtain snis where snis: "accept_snis tp p (observed h (cn_events c)) = io_ret snis"
    and plan: "accept_plan p snis = Inr ((tn_key tn, Proxy pu), tn_via tn, tn_target tn)"
    by (auto simp: routed_by_def)
  have "p_tls p \<or> snis = []" using snis by (cases "p_tls p") (auto simp: accept_snis_def io_ret_def)
  from verified_route(1) [OF assms(1,2,5,6) p this] plan
  have "tn_key tn = fst (route p snis)"
    by (auto simp: accept_plan_def select_upstream_def case_prod_unfold Let_def)
  then have route: "file_route rs snis = (tn_key tn, tn_via tn)"
    using route_of_raw [of u0 ref "p_name p" rs a snis, folded rs(2)] accept_plan_Inr [OF plan] by simp
  have "hm_get (server_upstream sv) (tn_key tn) = Some (Proxy pu)"
    using routed_upstream [OF assms(5-8)] tn assms(10) by blast
  then have get: "hm_get (pc_upstream pc) (tn_key tn) = Some (Proxy pu)"
    using server_upstream_from [OF assms(5,6) loaded_upstreams_ok [OF assms(1,2)]] by blast
  with loaded_upstream [OF assms(1-4), of "tn_key tn"] obtain url u host port where
    url: "hm_get (or_else (rb_upstream raw) []) (tn_key tn) = Some url" "le_url env url = Some u"
      "url_host_str u = Some host" "url_port_or_known_default u = Some port"
    and pu: "pu = proxy_to_upstream_new (host @ '':'' @ show_nat (unat port)) (url_scheme u)"
    by (cases "hm_get (or_else (rb_upstream raw) []) (tn_key tn)")
      (auto simp: builtin_upstreams_def hm_get_def split: if_splits)
  have "host' = ua_address (pu_addresses pu)" if "Lookup host' \<in> set (cn_trace c)" for host'
  proof -
    from server_route [OF assms(1,2,5-8)] that obtain tn' pu' where
      "routed_by tp p (observed h (cn_events c)) tn' pu'" "contacts tn' pu' (Lookup host')"
      unfolding route_inv_def assms(10) by (metis is_contact.simps(1))
    with routed_by_unique [OF tn] show ?thesis by auto
  qed
  with rs snis url d as show ?thesis
    unfolding route pu by (intro exI [of _ rs] exI [of _ snis])
      (auto simp: route proxy_to_upstream_new_def upstream_address_new_def)
qed

end
