(* ===== verification/Unit_Tests.thy ===== *)
theory Unit_Tests
  imports Cli
begin

text \<open>
  The repository's own unit tests, as facts about the model.

  Every lemma here is one test file: its conjuncts are the tests of it whose outcome does not depend on
  the network or on another process, with the values that the test writes down. What a test sets up
  outside the program (an environment variable, a mock socket, a parsed URL) is the argument that
  stands for it. They say nothing new about the program; they show that the model computes what
  the authors of the program expect of it.
\<close>

section \<open>upstreams/proxy\_to\_upstream/http\_tests.rs\<close>

lemma test_parse_connect_status:
  "parse_connect_status (''HTTP/1.1 200 Connection established'' @ crlf @ crlf) = Inr 200"
  "parse_connect_status (''HTTP/1.1 201 Created'' @ crlf @ crlf) = Inr 201"
  "parse_connect_status (''HTTP/1.1 407 Proxy Authentication Required'' @ crlf) = Inr 407"
  "isl (parse_connect_status ''GARBAGE'')"
  "isl (parse_connect_status (''HTTP/1.1 abc OK'' @ crlf))"
proof -
  show "parse_connect_status (''HTTP/1.1 200 Connection established'' @ crlf @ crlf) = Inr 200"
    using parse_http_line [of 200 "''Connection established'' @ crlf @ crlf"] by (simp add: show_nat.simps)
  show "parse_connect_status (''HTTP/1.1 201 Created'' @ crlf @ crlf) = Inr 201"
    using parse_http_line [of 201 "''Created'' @ crlf @ crlf"] by (simp add: show_nat.simps)
  show "parse_connect_status (''HTTP/1.1 407 Proxy Authentication Required'' @ crlf) = Inr 407"
    using parse_http_line [of 407 "''Proxy Authentication Required'' @ crlf"] by (simp add: show_nat.simps)
  have ascii: "list_all ascii ''GARBAGE''" "list_all ascii (''HTTP/1.1 abc OK'' @ crlf)"
    by (simp_all add: ascii_def byte_def)
  have "split_whitespace ''GARBAGE'' = [''GARBAGE'']"
    "split_whitespace (''HTTP/1.1 abc OK'' @ crlf) = [''HTTP/1.1'', ''abc'', ''OK'']"
    unfolding split_whitespace_def chars_of_ascii [OF ascii(1)] chars_of_ascii [OF ascii(2)]
    by (simp_all add: is_whitespace_def Let_def byte_def)
  moreover have "isl (parse_u16 ''abc'')"
    by (simp add: parse_u16_def parse_unsigned_def is_digit_def digit_val_def)
  ultimately show "isl (parse_connect_status ''GARBAGE'')"
    "isl (parse_connect_status (''HTTP/1.1 abc OK'' @ crlf))"
    unfolding parse_connect_status_def from_utf8_lossy_id [OF utf8_valid_ascii [OF ascii(1)]]
      from_utf8_lossy_id [OF utf8_valid_ascii [OF ascii(2)]]
    by (auto split: sum.split)
qed

lemma test_resolve_header_value:
  "resolve_header_value tbl env ''Basic abc123'' = Inr ''Basic abc123''"
  "resolve_header_value tbl env ''$'' = Inr ''$''"
  "env ''TPT_TEST_RESOLVE_VAR'' = Inr ''secret'' \<Longrightarrow>
     resolve_header_value tbl env ''Bearer $TPT_TEST_RESOLVE_VAR'' = Inr ''Bearer secret''"
  "env ''TPT_TEST_MISSING_VAR'' = Inl Var_NotPresent \<Longrightarrow>
     \<exists>e. resolve_header_value tbl env ''$TPT_TEST_MISSING_VAR'' = Inl e"
proof -
  have "split_placeholder tbl ''Bearer $TPT_TEST_RESOLVE_VAR'' = Some (''Bearer '', ''TPT_TEST_RESOLVE_VAR'', [])"
    "split_placeholder tbl ''$TPT_TEST_MISSING_VAR'' = Some ([], ''TPT_TEST_MISSING_VAR'', [])"
    "split_placeholder tbl ''Basic abc123'' = None" "split_placeholder tbl ''$'' = None"
    by code_simp+
  then show "resolve_header_value tbl env ''Basic abc123'' = Inr ''Basic abc123''"
    "resolve_header_value tbl env ''$'' = Inr ''$''"
    "env ''TPT_TEST_RESOLVE_VAR'' = Inr ''secret'' \<Longrightarrow>
       resolve_header_value tbl env ''Bearer $TPT_TEST_RESOLVE_VAR'' = Inr ''Bearer secret''"
    "env ''TPT_TEST_MISSING_VAR'' = Inl Var_NotPresent \<Longrightarrow>
       \<exists>e. resolve_header_value tbl env ''$TPT_TEST_MISSING_VAR'' = Inl e"
    by (simp_all add: resolve_header_value_def)
qed

section \<open>servers/upstream\_address/tests.rs\<close>

lemma test_resolution_mode:
  "mode_from_str ''tcp4'' = Ipv4" "mode_from_str ''tcp6'' = Ipv6" "mode_from_str ''tcp'' = Ipv4AndIpv6"
  "mode_from_str ''udp'' = Ipv4AndIpv6"
  "mode_display Ipv4 = ''IPv4Only''" "mode_display Ipv6 = ''IPv6Only''"
  "mode_display Ipv4AndIpv6 = ''IPv4 and IPv6''"
  by (simp_all add: mode_from_str_def)

lemma test_upstream_address_initial:
  "\<not> is_valid (upstream_address_new ''example.com:80'') now"
  "\<not> is_resolved (upstream_address_new ''example.com:80'')"
  "time_remaining (upstream_address_new ''example.com:80'') now now = 0"
  "upstream_address_display (upstream_address_new ''myhost:1234'') = ''myhost:1234''"
  by (simp_all add: upstream_address_new_def is_valid_def is_resolved_def time_remaining_def
      upstream_address_display_def)

text \<open>The resolver of the test machine knows its own addresses, and answers within the time to live.\<close>

lemma test_resolve:
  assumes "de_lookup e host = Inr found" and "found \<noteq> []"
    and "resolve (upstream_address_new host) Ipv4AndIpv6 e = (r, ua, t)"
    and "now < de_done e + from_secs 60" and "de_now e' < de_done e + from_secs 60"
  shows "r = Inr found" "is_resolved ua" "is_valid ua now" "0 < time_remaining ua now now"
    "fst (resolve ua Ipv4AndIpv6 e') = r"
proof -
  have "\<not> (is_resolved (upstream_address_new host) \<and> is_valid (upstream_address_new host) (de_now e))"
    by (simp add: is_resolved_def upstream_address_new_def)
  from resolve_miss_ok [OF this, of found Ipv4AndIpv6] assms(1,3)
  have r: "r = Inr found"
    and ua: "ua = (upstream_address_new host)\<lparr>ua_resolved := found, ua_time := Some (de_done e), ua_ttl := Some success_ttl\<rparr>"
    by (simp_all add: upstream_address_new_def)
  show "r = Inr found" by (rule r)
  show valid: "is_valid ua now" "is_resolved ua"
    using assms(2,4) by (simp_all add: ua is_valid_def is_resolved_def elapsed_def success_ttl_def)
  show "0 < time_remaining ua now now"
    using valid assms(4) by (simp add: time_remaining_def) (simp add: ua elapsed_def success_ttl_def)
  have "is_valid ua (de_now e')"
    using assms(5) by (simp add: ua is_valid_def elapsed_def success_ttl_def)
  with valid(2) show "fst (resolve ua Ipv4AndIpv6 e') = r"
    by (simp add: resolve_hit r) (simp add: ua)
qed

lemma test_resolve_invalid_host:
  assumes "de_lookup e host = Inl err" and "resolve (upstream_address_new host) m e = (r, ua, t)"
  shows "r = Inl err \<and> \<not> is_resolved ua"
  using assms by (auto simp: resolve_def upstream_address_new_def is_resolved_def)

lemma test_resolve_filters:
  "de_lookup e host = Inr found \<Longrightarrow> \<exists>as. fst (resolve (upstream_address_new host) Ipv4 e) = Inr as \<and> list_all is_ipv4 as"
  "de_lookup e host = Inr found \<Longrightarrow> \<exists>as. fst (resolve (upstream_address_new host) Ipv6 e) = Inr as \<and> list_all is_ipv6 as"
  by (auto simp: resolve_def upstream_address_new_def is_resolved_def list_all_iff Let_def)

section \<open>config/tests.rs, config/types.rs, config/error.rs\<close>

lemma test_try_from:
  assumes "parse ''tcp://example.com:80'' = Some \<lparr>url_host_str = Some ''example.com'',
      url_port_or_known_default = Some 80, url_scheme = ''tcp''\<rparr>"
    and "parse ''not-a-url'' = None"
    and "parse ''http://example.com:80'' = Some \<lparr>url_host_str = Some ''example.com'',
      url_port_or_known_default = Some 80, url_scheme = ''http''\<rparr>"
    and "parse ''tcp:///path'' = Some \<lparr>url_host_str = None, url_port_or_known_default = None, url_scheme = ''tcp''\<rparr>"
    and "parse ''tcp://example.com'' = Some \<lparr>url_host_str = Some ''example.com'',
      url_port_or_known_default = None, url_scheme = ''tcp''\<rparr>"
  shows "\<exists>p. proxy_try_from parse ''tcp://example.com:80'' = Inr p \<and> pu_addr p = ''example.com:80'' \<and> pu_protocol p = ''tcp''"
    "\<exists>m. proxy_try_from parse ''not-a-url'' = Inl (Custom m)"
    "\<exists>m. proxy_try_from parse ''http://example.com:80'' = Inl (Custom m)"
    "\<exists>m. proxy_try_from parse ''tcp:///path'' = Inl (Custom m)"
    "\<exists>m. proxy_try_from parse ''tcp://example.com'' = Inl (Custom m)"
proof -
  have "show_nat 80 = ''80''" by (simp add: show_nat.simps)
  with assms show "\<exists>p. proxy_try_from parse ''tcp://example.com:80'' = Inr p \<and> pu_addr p = ''example.com:80'' \<and> pu_protocol p = ''tcp''"
    "\<exists>m. proxy_try_from parse ''not-a-url'' = Inl (Custom m)"
    "\<exists>m. proxy_try_from parse ''http://example.com:80'' = Inl (Custom m)"
    "\<exists>m. proxy_try_from parse ''tcp:///path'' = Inl (Custom m)"
    "\<exists>m. proxy_try_from parse ''tcp://example.com'' = Inl (Custom m)"
    by (simp_all add: proxy_try_from_def ok_or_else_def proxy_to_upstream_new_def)
qed

lemma test_config_error:
  "config_error_source (IO e) \<noteq> None" "config_error_source (Yaml y) \<noteq> None"
  "config_error_source (Custom ''whoops'') = None"
  "\<exists>m. config_error_display (IO e) = ''IO error'' @ m"
  "\<exists>m. config_error_display (Yaml y) = ''YAML'' @ m"
  "config_error_display (Custom ''something went wrong'') = ''something went wrong''"
  "default_connect_timeout = from_secs 30" "default_maxclients = 100"
  by (cases y; simp add: default_connect_timeout_def default_maxclients_def)+

text \<open>A document as the tests write it: one listen address per server, no TLS, and what is used by default.\<close>

definition raw_one :: "string \<Rightarrow> string \<Rightarrow> raw_server" where
  "raw_one listen upstream = \<lparr>rs_listen = [listen], rs_protocol = None, rs_tls = None, rs_sni = None,
     rs_default = Some upstream, rs_via = None, rs_maxclients = None\<rparr>"

definition raw_doc :: "(string \<times> raw_server) list \<Rightarrow> (string \<times> string) list \<Rightarrow> raw_base" where
  "raw_doc servers upstream = \<lparr>rb_version = 1, rb_log = Some ''disable'', rb_log_format = None,
     rb_servers = servers, rb_upstream = Some upstream, rb_via = None\<rparr>"

lemma raw_doc_header [simp]: "accepted_header (base_of_raw (raw_doc servers upstream))"
  by (simp add: accepted_header_def base_of_raw_def raw_doc_def)

text \<open>A file that cannot be opened or parsed, and a document with a header that is not supported.\<close>

lemma test_load_config_unreadable:
  "le_open env path = Inl e \<Longrightarrow> fst (config_new env path) = Inl (IO e)"
  "le_open env path = Inr f \<Longrightarrow> read_to_string f = Inr contents \<Longrightarrow> le_yaml env contents = Inl y \<Longrightarrow>
     fst (config_new env path) = Inl (Yaml y)"
  by (simp_all add: config_new_def load_config_def)

lemma load_config_header:
  assumes "document env path = Some raw" and "bc_version (base_of_raw raw) \<in> {1, 2} \<Longrightarrow>
      log_format_of (base_of_raw raw) \<notin> {''txt'', ''text'', ''json''}"
  shows "\<exists>m. fst (load_config env path) = Inl (Custom (
    (if bc_version (base_of_raw raw) \<in> {1, 2} then ''Invalid log-format ''
     else ''Unsupported config version '' @ show_int (bc_version (base_of_raw raw))) @ m)) \<and>
    (bc_version (base_of_raw raw) \<in> {1, 2} \<or> m = [])"
proof -
  obtain f contents where doc: "le_open env path = Inr f" "read_to_string f = Inr contents"
      "le_yaml env contents = Inr raw"
    using assms(1) by (auto simp: document_def split: sum.splits)
  show ?thesis
  proof (cases "bc_version (base_of_raw raw) \<in> {1, 2}")
    case True
    with assms(2) show ?thesis
      by (simp only: load_config_def doc Let_def sum.case not_True_eq_False if_False not_False_eq_True
          if_True fst_conv sum.inject config_error.inject) simp
  qed (simp add: load_config_def doc Let_def)
qed

lemma test_load_config_header:
  "document env path = Some (raw_doc servers upstream\<lparr>rb_version := 99\<rparr>) \<Longrightarrow>
     fst (load_config env path) = Inl (Custom ''Unsupported config version 99'')"
  "document env path = Some (raw_doc servers upstream\<lparr>rb_log_format := Some ''invalid_format''\<rparr>) \<Longrightarrow>
     \<exists>m. fst (load_config env path) = Inl (Custom (''Invalid log-format '' @ m))"
proof -
  show "document env path = Some (raw_doc servers upstream\<lparr>rb_version := 99\<rparr>) \<Longrightarrow>
      fst (load_config env path) = Inl (Custom ''Unsupported config version 99'')"
    using load_config_header [of env path "raw_doc servers upstream\<lparr>rb_version := 99\<rparr>"]
    by (auto simp: raw_doc_def base_of_raw_def show_int_def show_nat.simps)
  show "document env path = Some (raw_doc servers upstream\<lparr>rb_log_format := Some ''invalid_format''\<rparr>) \<Longrightarrow>
      \<exists>m. fst (load_config env path) = Inl (Custom (''Invalid log-format '' @ m))"
    using load_config_header [of env path "raw_doc servers upstream\<lparr>rb_log_format := Some ''invalid_format''\<rparr>"]
    by (auto simp: raw_doc_def base_of_raw_def)
qed

text \<open>The sets of these tests have one element, and a set with one element is walked in one way.\<close>

lemma load_config_doc:
  assumes "document env path = Some (raw_doc servers upstream)"
    and "add_upstreams (le_url env) upstream builtin_upstreams = Inr m"
    and "verify_servers (le_order env) m [] [] (map (\<lambda>(k, s). server_of_raw s) servers) = r"
  shows "(\<forall>e. r = Inl e \<longrightarrow> fst (load_config env path) = Inl e) \<and>
    (\<forall>used. r = Inr used \<longrightarrow> (\<exists>cfg. fst (load_config env path) = Inr cfg))"
proof -
  have "hm_values (bc_servers (base_of_raw (raw_doc servers upstream))) = map (\<lambda>(k, s). server_of_raw s) servers"
    by (simp add: base_of_raw_def raw_doc_def hm_values_def case_prod_unfold comp_def)
  with assms(2,3) show ?thesis
    by (auto simp: load_config_checks [OF assms(1) raw_doc_header])
      (simp_all add: base_of_raw_def raw_doc_def verify_config_def)
qed

lemma test_load_config_servers:
  assumes one: "\<And>x. le_order env [x] = [x]"
  shows "document env path = Some (raw_doc [(''server_a'', raw_one ''127.0.0.1:56099'' ''echo''),
      (''server_b'', raw_one ''127.0.0.1:56099'' ''echo'')] []) \<Longrightarrow>
      fst (load_config env path) = Inl (Custom ''Duplicate listen address 127.0.0.1:56099'')" (is "?dup \<Longrightarrow> _")
    and "document env path = Some (raw_doc [(''server_a'', raw_one ''127.0.0.1:56098'' ''nonexistent_upstream'')] []) \<Longrightarrow>
      fst (load_config env path) = Inl (Custom ''Upstream nonexistent_upstream not found'')" (is "?missing \<Longrightarrow> _")
    and "document env path = Some (raw_doc [(''server_a'', raw_one ''127.0.0.1:56097'' ''echo'')]
        [(''unused_proxy'', ''tcp://127.0.0.1:9999'')]) \<Longrightarrow>
      le_url env ''tcp://127.0.0.1:9999'' = Some \<lparr>url_host_str = Some ''127.0.0.1'',
        url_port_or_known_default = Some 9999, url_scheme = ''tcp''\<rparr> \<Longrightarrow>
      \<exists>cfg. fst (load_config env path) = Inr cfg" (is "?unused \<Longrightarrow> ?url \<Longrightarrow> _")
proof -
  note defs = server_of_raw_def raw_one_def use_upstreams_def hs_insert_def builtin_upstreams_def one
    or_else_def hm_get_def
  show "fst (load_config env path) = Inl (Custom ''Duplicate listen address 127.0.0.1:56099'')" if ?dup
    using load_config_doc [OF that add_upstreams.simps(1) refl] by (simp add: defs)
  show "fst (load_config env path) = Inl (Custom ''Upstream nonexistent_upstream not found'')" if ?missing
    using load_config_doc [OF that add_upstreams.simps(1) refl] by (simp add: defs)
  show "\<exists>cfg. fst (load_config env path) = Inr cfg" if ?unused ?url
  proof -
    let ?p = "proxy_to_upstream_new ''127.0.0.1:9999'' ''tcp''"
    have "show_nat 9999 = ''9999''" by (simp add: show_nat.simps)
    with that(2) have "proxy_try_from (le_url env) ''tcp://127.0.0.1:9999'' = Inr ?p"
      by (simp add: proxy_try_from_Inr)
    then have "add_upstreams (le_url env) [(''unused_proxy'', ''tcp://127.0.0.1:9999'')] builtin_upstreams =
        Inr (hm_insert ''unused_proxy'' (Proxy ?p) builtin_upstreams)" by simp
    from load_config_doc [OF that(1) this refl] show ?thesis
      by (simp add: server_of_raw_def raw_one_def use_upstreams_def hs_insert_def one or_else_def)
        (simp add: builtin_upstreams_def hm_get_def)
  qed
qed

section \<open>upstreams/proxy\_to\_upstream/tests.rs, connect\_tests.rs\<close>

lemma test_copy_counted:
  "fst (copy_counted deliver shut [Copy_Read ''hello world'' All_Written, Copy_Read [] All_Written]) =
     \<lparr>cp_total = 11, cp_counter = 11, cp_result = Some 11\<rparr>"
  "fst (copy_counted deliver shut [Copy_Read_Err e]) = \<lparr>cp_total = 0, cp_counter = 0, cp_result = Some 0\<rparr>"
  "cp_result (fst (copy_counted deliver shut [Copy_Read ''data'' (Write_Failed 0)])) = Some 0"
  by (simp_all add: copy_counted_def copy_counted_step_def copier_new_def copy_buf_len_def task_run_Cons Let_def)

lemma test_relay:
  "relay 0 [Tx (Copy_Read ''ping'' All_Written), Tx (Copy_Read [] All_Written),
     Rx (Copy_Read ''ping'' All_Written), Rx (Copy_Read [] All_Written)] =
     (Ret (4, 4), [To_Upstream ''ping'', Shutdown_Upstream, To_Client ''ping'', Shutdown_Client])"
  "fst (relay (from_secs 3600) [Tx (Copy_Read [] All_Written), Rx (Copy_Read [] All_Written)]) = Ret (0, 0)"
  by (simp_all add: relay_def relay_new_def copy_counted_step_def copier_new_def copy_buf_len_def
      task_run_Cons Let_def)

lemma test_unknown_protocol:
  "fst (fst (connect_upstream (upstream_address_new ''127.0.0.1:12345'') ''udp'' (from_secs 1) env)) =
     Fail (Boxed_Msg ''Reached unknown protocol'')"
  by (simp add: connect_upstream_def io_fail_def)

section \<open>upstreams/tests.rs\<close>

lemma test_upstreams:
  "fst (copy_io [Echo_Written ''hello'', Echo_Done (Inr 5)]) = Ret 5"
  "fst (copy_io [Echo_Done (Inl e)]) = Ret 0"
  "ce_shutdown env = Inr () \<Longrightarrow> fst (fst (process Ban via_default None env)) = Ret ()"
  "ce_echo env = [Echo_Written ''ping'', Echo_Done (Inr 4)] \<Longrightarrow>
     fst (process Echo via_default None env) = (Ret (), [To_Client ''ping'', Shutdown_Client])"
  by (simp_all add: fst_io_bind)

lemma test_health:
  "rp_status (health_handler permits ''/health'' []) = 200" "rp_body (health_handler permits ''/health'' []) = ''OK''"
  "e = \<lparr>me_name = ''test_server'', me_listen = ''127.0.0.1:9999'', me_maxclients_limit = 50, me_semaphore = 0\<rparr> \<Longrightarrow>
     permits 0 = 45 \<Longrightarrow>
     rp_content_type (health_handler permits ''/metrics'' [e]) = Some ''text/plain; version=0.0.4; charset=utf-8'' \<and>
     sublist (metric_line ''tpt_active_connections'' e 5) (rp_body (health_handler permits ''/metrics'' [e])) \<and>
     sublist (metric_line ''tpt_maxclients'' e 50) (rp_body (health_handler permits ''/metrics'' [e]))"
  using metrics_body_lines [of 0 "[e]" permits]
  by (simp_all add: health_handler_def active_connections_def)

section \<open>servers/protocol/tests.rs, servers/protocol/tls.rs\<close>

definition make_proxy :: "bool \<Rightarrow> string \<Rightarrow> upstream_map \<Rightarrow> (string, sni_target) hash_map option \<Rightarrow> proxy" where
  "make_proxy tls default_action upstream sni = \<lparr>p_name = ''test'', p_listen = V4 2130706433 0,
     p_protocol = ''tcp'', p_tls = tls, p_sni = sni, p_default_action = default_action,
     p_upstream = upstream, p_via = via_default, p_maxclients = 0, p_maxclients_limit = 10\<rparr>"

lemma test_get_sni_incomplete: "rejects_incomplete tp \<Longrightarrow> get_sni tp [] = []"
  using incomplete_no_sni [of tp "[]"] by (simp add: complete_record_def)

text \<open>The hello of the tests is a complete record that names one server.\<close>

lemma test_accept:
  assumes env: "ce_peer_addr env = Inr a" "ce_peek env = Some (Inr hello)" "ce_shutdown env = Inr ()"
    and hello: "get_sni tp (peek_into hello) = [''www.lirui.tech'']"
  shows "\<exists>m. fst (fst (accept tp (make_proxy False ''nonexistent'' [] None) env)) =
      Fail (Boxed_Msg (''default upstream '' @ [CHR 0x27] @ ''nonexistent'' @ [CHR 0x27] @ '' not found'' @ m))"
    and "sni \<in> {None, Some [(''www.lirui.tech'', Extended ''ban'' (Some via_default))],
        Some [(''other.example.com'', Simple ''ban'')], Some [(''www.lirui.tech'', Simple ''ban'')]} \<Longrightarrow>
      fst (fst (accept tp (make_proxy True ''ban'' [(''ban'', Ban)] sni) env)) = Ret ()"
    and "fst (accept tp (make_proxy False ''health'' [(''health'', Health [])] None) env) = (Ret (), [Serve_Http])"
proof -
  have log: "accept_log p env = io_ret ()" for p
    using accept_log_cases [of p env] env(1) by auto
  have plain: "accept_snis tp (make_proxy False d u sni) env = io_ret []" for d u sni
    by (simp add: accept_snis_def make_proxy_def)
  have named: "accept_snis tp (make_proxy True d u sni) env = io_ret [''www.lirui.tech'']" for d u sni
    unfolding hello [symmetric] by (rule accept_snis_some [OF _ env(2)]) (simp add: make_proxy_def)
  have ban: "fst (process Ban via target env) = (Ret (), [Shutdown_Client])" for via target
    using env(3) by simp
  show "\<exists>m. fst (fst (accept tp (make_proxy False ''nonexistent'' [] None) env)) =
      Fail (Boxed_Msg (''default upstream '' @ [CHR 0x27] @ ''nonexistent'' @ [CHR 0x27] @ '' not found'' @ m))"
    by (simp add: accept_eq [OF log plain] accept_plan_def route_def select_upstream_def)
      (simp add: make_proxy_def)
  show "sni \<in> {None, Some [(''www.lirui.tech'', Extended ''ban'' (Some via_default))],
        Some [(''other.example.com'', Simple ''ban'')], Some [(''www.lirui.tech'', Simple ''ban'')]} \<Longrightarrow>
      fst (fst (accept tp (make_proxy True ''ban'' [(''ban'', Ban)] sni) env)) = Ret ()"
    by (simp add: accept_eq [OF log named] accept_plan_def route_eq select_upstream_def ban)
      (auto simp: make_proxy_def ban env(3) hm_get_def io_try_def io_ret_def)
  show "fst (accept tp (make_proxy False ''health'' [(''health'', Health [])] None) env) = (Ret (), [Serve_Http])"
    by (simp add: accept_eq [OF log plain] accept_plan_def route_def select_upstream_def)
      (simp add: make_proxy_def hm_get_def)
qed

lemma test_connect_target:
  "connect_target_of (via_default\<lparr>via_use_sni_as_target := True\<rparr>) [''www.lirui.tech''] = Some ''www.lirui.tech:0''"
  "connect_target_of (via_default\<lparr>via_target := ''example.com:443''\<rparr>) [] = Some ''example.com:443''"
  by (simp_all add: connect_target_of_def via_default_def show_nat.simps)

section \<open>main.rs: tests.rs\<close>

lemma test_parse_args:
  "parse_args [] = Inr (Run None)" "parse_args [''--help''] = Inr Help" "parse_args [''-h''] = Inr Help"
  "parse_args [''--config'', ''/etc/tpt.yaml''] = Inr (Run (Some ''/etc/tpt.yaml''))"
  "parse_args [''-c'', ''my.yaml''] = Inr (Run (Some ''my.yaml''))"
  "isl (parse_args [''--config''])" "parse_args [''--foo''] = Inl ''Unknown argument: --foo''"
  by (simp_all add: parse_args_def)

lemma test_find_config:
  "cl_tpt_config env = Inr path \<Longrightarrow> cl_exists env path \<Longrightarrow> find_config env = Inr path"
  "cl_tpt_config env = Inl e \<Longrightarrow> (\<And>p. \<not> cl_exists env p) \<Longrightarrow>
     find_config env = Inl [''/etc/tpt/tpt.yaml'', ''/etc/tpt/config.yaml'', ''tpt.yaml'', ''config.yaml'']"
  by (simp_all add: find_config_def config_paths_def path_join_def)

lemma test_run:
  "fst (cli_run env [''--unknown'']) = Returned (Inl 1)" "fst (cli_run env [''--help'']) = Returned (Inr ())"
  "le_open (cl_load env) ''/nonexistent/path/tpt.yaml'' = Inl e \<Longrightarrow>
     fst (cli_run env [''-c'', ''/nonexistent/path/tpt.yaml'']) = Returned (Inl 1)"
  by (simp_all add: cli_run_def parse_args_def cli_start_def config_new_def load_config_def)

end
