(* ===== verification/Spec2Isabelle.thy ===== *)
theory Spec2Isabelle
  imports Cli Server_Admission Server_Route Unit_Tests
begin

text \<open>
  \<^bold>\<open>tls-proxy-tunnel (tpt).\<close> The program listens on TCP addresses, reads the server name (SNI) out of
  the first bytes of a TLS connection without consuming them, chooses an upstream by that name,
  and connects the client with it: directly, or through an HTTP proxy with a CONNECT handshake.
  This library models the whole path from the command line to the last relayed byte. Paths below
  are relative to \<open>src/src/\<close>.

  \<^bold>\<open>How the parts interact.\<close> \<open>main.rs\<close> finds a configuration file, has it loaded and verified
  (\<open>config/loader.rs\<close>), builds the server from it (\<open>servers/builder.rs\<close>) and runs it
  (\<open>servers/mod.rs\<close>). The server spawns one listener task per listen address
  (\<open>servers/protocol/tcp.rs\<close>); a listener takes a permit of its semaphore for each connection and
  spawns a task that accepts it: peek, parse (\<open>servers/protocol/tls.rs\<close>), route, and process
  (\<open>upstreams/mod.rs\<close>). A proxy upstream resolves its host with a cache
  (\<open>servers/upstream_address/mod.rs\<close>), connects (\<open>connect.rs\<close>), performs the handshake (\<open>http.rs\<close>)
  if it has to, and relays in both directions (\<open>relay.rs\<close>). The map of upstreams, and in it the
  address caches, is shared by all connections; the semaphores are shared by a listener, its
  connections and the metrics page.

  \<^bold>\<open>Theories.\<close>
  \<^item> \<open>Prelude\<close>: bytes and strings (a Rust string is the list of its UTF-8 bytes), machine integers,
    durations in nanoseconds, decimal printing and parsing, the outcome of a task that waits on
    I/O (\<open>Ret\<close>, \<open>Fail\<close>, \<open>Pending\<close>) with the list of its visible actions, and hash maps as lists of
    entries in iteration order (\<open>keyed_store\<close>, interpreted as \<open>hm\<close>).
  \<^item> \<open>Utf8\<close>: \<open>String::from_utf8\<close>, \<open>from_utf8_lossy\<close>, the characters of a string, \<open>split_whitespace\<close>
    of the standard library, with the round trip of the encoder.
  \<^item> \<open>Config_Types\<close> (\<open>config/types.rs\<close>, \<open>config/error.rs\<close>): a \<open>raw_\<close> record is what the document says
    (an option per field), the record without the prefix is the struct after serde has filled the
    defaults. A missing \<open>via\<close> block takes the derived \<open>Default\<close>, an empty one the field defaults.
  \<^item> \<open>Config_Loader\<close> (\<open>config/loader.rs\<close>): \<open>load_config\<close>, \<open>proxy_try_from\<close>, \<open>verify_config\<close>,
    \<open>config_new\<close>. The sets that the code keeps during verification are lists in order of
    insertion; the order in which a hash set is walked is the parameter \<open>le_order\<close>. The warnings are
    part of the result of \<open>verify_config\<close>, \<open>json_log_line\<close> is the frame of a line of the JSON log.
  \<^item> \<open>Upstream_Address\<close>: the cache record, \<open>resolve\<close> and \<open>resolve_run\<close>, and its abstract specification
    \<open>cache_resolve\<close>, a cache that holds an answer until a deadline (locale \<open>address_source\<close>).
  \<^item> \<open>Transitions\<close>: the runs of a labelled transition relation, and the locale \<open>invariant\<close>, which
    lifts an invariant of the steps to every state that a run reaches; \<open>refinement\<close> extends it by an
    abstract relation that every step implements, and carries that over to runs.
  \<^item> \<open>Resolve_Calls\<close>: \<open>resolve\<close> between its locks and awaits (\<open>resolve_pc\<close>, \<open>resolve_step\<close>), and any
    number of such calls interleaved on one cache (\<open>calls_step\<close>); undisturbed, a call is \<open>resolve\<close>.
  \<^item> \<open>Http_Connect\<close>: \<open>resolve_header_value\<close>, \<open>write_loop\<close>, \<open>read_loop\<close>, \<open>parse_connect_status\<close>,
    \<open>http_connect\<close>.
  \<^item> \<open>Relay\<close>: \<open>copy_counted_step\<close> is one turn of a copy loop; \<open>relay_step\<close> interleaves the two loops
    and the statistics task; \<open>relay\<close> runs a schedule. The locale \<open>copy_task\<close> states what a direction
    is, \<open>task_pair\<close> proves that an interleaving of two tasks on disjoint state is determined by
    each task's own events.
  \<^item> \<open>Upstreams\<close>: \<open>connect_upstream\<close>, \<open>proxy_proxy\<close> (\<open>ProxyToUpstream::proxy\<close>), \<open>process\<close>
    (\<open>Upstream::process\<close>), \<open>metrics_body\<close> and \<open>health_handler\<close>. A connection's surroundings are a
    \<open>conn_env\<close>: what the resolver, the sockets and the clock answer to it.
  \<^item> \<open>Tls_Sni\<close>: \<open>get_sni\<close>, over the three functions of \<open>tls_parser\<close>.
  \<^item> \<open>Tcp_Accept\<close>: the struct \<open>Proxy\<close> and \<open>accept\<close>; \<open>accept_plan\<close> is its decision part.
  \<^item> \<open>Connection\<close>: the same path as a machine that takes one answer at a time. \<open>conn_state\<close> names the
    awaits of \<open>accept\<close> and of all it calls, \<open>conn_event\<close> what each can be answered, and \<open>conn_step\<close>,
    put together from a \<open>step_\<close> function per await, is the code from one await to the next.
  \<^item> \<open>Connection_Accept\<close>: the machine against the function. \<open>resume_all\<close> is what is left of \<open>accept\<close> in a
    given state; every step is one unfolding of it, whatever has happened to the caches meanwhile,
    so that every path of a connection (\<open>conn_path\<close>) is a run of \<open>accept\<close> (\<open>path_is_accept\<close>).
  \<^item> \<open>Semaphore\<close>: the interface of \<open>tokio::sync::Semaphore\<close> as the locale \<open>semaphore\<close>, satisfied by a
    counter (\<open>counting\<close>).
  \<^item> \<open>Socket_Addr\<close>: \<open>SocketAddr\<close> of the standard library, as \<open>parse_socket_addr\<close> reads a listen string
    and \<open>display_socket_addr\<close> prints the label of the metrics, for both families.
  \<^item> \<open>Server_Builder\<close>: the three passes of \<open>From<ParsedConfig>\<close> (\<open>build_servers\<close>, \<open>build_metrics\<close>,
    \<open>inject_metrics\<close>) and their composition \<open>server_from\<close>, None where the code panics.
  \<^item> \<open>Server_Tasks\<close>: the running program as labelled steps. \<open>main_step\<close> is the task of \<open>Server::run\<close>
    (spawn, signal, wait for the tracked tasks, return), \<open>proxy_step\<close> the accept loop and the
    connection tasks it spawns, each of which moves by \<open>conn_step\<close> on the shared upstream map;
    \<open>server_step\<close> is either of them until the program has returned. \<open>serving\<close> interprets the locale
    \<open>invariant\<close> for the program: the permits of each semaphore and the admitted connections add
    up to its capacity, the tracked tasks are exactly the listeners and connections alive, the
    shared upstreams keep everything but their caches, and every connection is well-formed and
    has come to where it stands by a path of its own.
  \<^item> \<open>Server_Liveness\<close>: a connection can always end, and the server can always stop.
  \<^item> \<open>Server_Run\<close>: what follows for the server as a whole, in every reachable state.
  \<^item> \<open>Server_Admission\<close>: its specification as an admission machine (\<open>adm_step\<close>), a counter per
    listener against a limit, and the refinement, an interpretation of the locale \<open>refinement\<close>.
  \<^item> \<open>Server_Calls\<close>: seen from one cache, the running server is overlapping calls of \<open>resolve\<close>
    (\<open>runs_calls\<close>), so that \<open>Resolve_Calls\<close> speaks about the connections of the server. \<open>heard\<close> is what
    the resolver has told, in a run, to the connections of an upstream.
  \<^item> \<open>Server_Route\<close>: every lookup and every attempt to connect of a running connection is for the
    upstream that its own server names lead to (\<open>route_inv\<close>, an invariant of the same runs).
    \<open>told\<close> is \<open>heard\<close> by host name, \<open>file_route\<close> the route as a server block of the file says it, and
    \<open>file_attempts\<close> leads from an attempt back to the file.
  \<^item> \<open>Unit_Tests\<close>: the repository's unit tests that do not depend on a network, as facts about the model.
  \<^item> \<open>Cli\<close> (\<open>main.rs\<close>): the arguments, the search for the file, the exit codes.

  \<^bold>\<open>What the properties show.\<close> End to end: only verified configurations are served, and routing
  cannot fail in them; no byte of a client reaches an upstream proxy before a CONNECT request that was
  answered with a success, and that request is complete unless a socket accepts a write of zero bytes; a
  direct connection is transparent; bytes are delivered in order with
  end of stream propagated per direction, and the counters are exact; a connection that has completed
  without a failed write has lost nothing of what it has read; limits are exact and permits never leak
  (health servers are outside both: their connections take no permits), so that the server as a whole refines a
  machine that counts; shutdown waits for the
  connection tasks, without a deadline, though not for the HTTP tasks of health requests, and can complete. Concurrency: connections that are
  interleaved in every way on shared caches each behave as \<open>accept\<close> does alone but for their name lookups, never get
  stuck, and only go where the file sends them: to addresses that the resolver has told in this run for
  the host of the URL, of the family of its scheme, with the timeout of the \<open>via\<close> in force. Per component: the loader accepts
  exactly the well-formed configurations and warns about exactly the upstreams that nothing can be
  routed to, except for those named like a built-in one, a listen string opens a listener exactly if it is an address, and its label in the
  metrics reads back as that address, a request is valid UTF-8 if its parts are, the cache refines its specification, the loops return
  once enough I/O has happened, the result of the handshake does not depend on how the response is
  cut into reads, printing and parsing are inverse to each other. A group of properties states
  behaviour that a reader would not expect: a zero timeout without \<open>via\<close> (unless the
  matched SNI entry has one) and header injection by a server name, as properties; and as lemmas of their components lost early bytes
  (\<open>early_upstream_bytes_are_lost\<close>), revived addresses (\<open>failed_lookup_revives_expired_addresses\<close>), an
  empty list of addresses out of a valid cache when two calls race
  (\<open>overtaken_call_returns_no_addresses\<close>), a hello padded with zeros (\<open>partial_hello_is_zero_padded\<close>),
  health requests that the shutdown abandons (\<open>shutdown_abandons_health_requests\<close>), the same address
  listened on twice (\<open>duplicate_addresses_are_compared_as_strings\<close>), listen strings that the loader
  accepts and the server skips (\<open>ipv4_listeners\<close>) and metric lines made up by a
  server name (\<open>server_name_forges_metric_line\<close>).

  \<^bold>\<open>Events instead of time.\<close> A loop that waits for I/O consumes a list of events: what each system
  call returned. When the list ends before the loop does, the task is still waiting and its outcome
  is \<open>Pending\<close>. The list is thus the bound of every recursion, and termination is a theorem about the
  events: \<open>http_connect\<close> returns once the sockets have accepted the request byte by byte and the
  response has ended, failed or filled the buffer, whatever its bytes. The buffers have
  the sizes of the code: 16384 bytes for the response of a proxy (\<open>inbufs_len\<close>), 4096 for the
  peeked hello (\<open>hello_buf_len\<close>), 16384 per copied chunk (\<open>copy_buf_len\<close>), \<open>max_permits\<close> for a
  semaphore. Byte counters are 64 bit words, as in the code; \<open>usize\<close> values that only count
  what is in memory are natural numbers.

  \<^bold>\<open>Parameters.\<close> Code outside the repository is an argument of the definitions that use it: the
  resolver, clock and sockets (\<open>dns_env\<close>, \<open>conn_env\<close>, event lists), environment variables, \<open>tls_parser\<close>,
  the YAML and URL libraries and the file system (\<open>load_env\<close>), the string printer of \<open>serde_json\<close>, the
  Unicode table of alphanumeric characters above ASCII, and semaphores. Hypotheses
  about them are the documented ones: a hash set yields each element once (\<open>iterates\<close>), the laws of
  the locale \<open>semaphore\<close>, a TLS parser that reports an incomplete record (\<open>rejects_incomplete\<close>).

  \<^bold>\<open>Not modelled.\<close> The wording of log messages; \<open>tokio::io::copy\<close> and the HTTP server around
  \<open>health_handler\<close>, which are library code whose results are inputs; kernel buffers. The clock that a
  connection reads is an input of each reading, without an order between readings. The
  fields of a configuration that the program never reads are kept in the records, without a role.
\<close>

section \<open>From the command line to a connection\<close>

text \<open>
  C9. The program serves only what it has verified: when it enters \<open>Server::run\<close>, whatever the
  arguments and the environment, the server comes from a file that was loaded and accepted, and
  routing cannot fail in it: whatever a client sends to any of its proxies, the upstream it is
  routed to exists, so that neither the fallback to the default upstream nor the missing-default
  error of \<open>accept\<close> is ever taken, and \<open>accept\<close> can only fail with an I/O error of its own socket.
\<close>

theorem served_connections_always_find_their_upstream:
  assumes "iterates (le_order (cl_load env))" and "semaphore (cl_sem env)"
    and "fst (cli_run env args) = Serving sv" and "p \<in> set (sv_proxies sv)"
  shows "(\<exists>path pc. fst (load_config (cl_load env) path) = Inr pc \<and>
      server_from (cl_sem env) pc = Some sv) \<and>
    (\<forall>snis. p_tls p \<or> snis = [] \<longrightarrow>
      (\<exists>u via target. accept_plan p snis = Inr ((fst (route p snis), u), via, target))) \<and>
    (\<forall>e. fst (fst (accept tp p cenv)) = Fail e \<longrightarrow> (\<exists>io. e = Boxed_Io io))"
proof -
  obtain path pc where l: "fst (load_config (cl_load env) path) = Inr pc"
    "server_from (cl_sem env) pc = Some sv"
    using cli_run_Serving [OF assms(3)] by blast
  with accepted_config_always_routes [OF assms(1) l(1) assms(2) l(2) assms(4)] show ?thesis by blast
qed

lemma loaded_server:
  assumes "iterates (le_order env)" and "fst (load_config env path) = Inr pc"
    and "document env path = Some raw" and "hm_ok (rb_servers raw)"
    and "(name, cfg) \<in> set (pc_servers pc)" and "(name, rs) \<in> set (rb_servers raw)"
  shows "cfg = server_of_raw rs"
proof -
  have "pc_servers pc = map (\<lambda>(k, s). (k, server_of_raw s)) (rb_servers raw)"
    using load_config_Inr [OF assms(1), of path pc] assms(2,3) by (auto simp: base_of_raw_def)
  with assms(5) obtain s where "(name, s) \<in> set (rb_servers raw)" "cfg = server_of_raw s" by auto
  with assms(4,6) show ?thesis
    by (metis hm_get_iff option.inject)
qed

text \<open>
  C38. A server block without \<open>via\<close> can in general not use an upstream that is not immediately there: in
  every reachable state of the running program, every connection attempt made for a client of that
  block has a timeout of zero, unless it has the timeout of a \<open>via\<close> that one of the SNI entries of the
  block brings along. If no entry has a \<open>via\<close> of its own, all attempts of the block time out at once.
\<close>

theorem server_block_without_via_has_zero_timeout:
  assumes "iterates (le_order env)" and "fst (load_config env path) = Inr pc"
    and "document env path = Some raw" and "hm_ok (rb_servers raw)"
    and "semaphore S" and "server_from S pc = Some sv"
    and "run (server_step S h tp (sv_proxies sv)) (run_init sv) ls st" and "c \<in> set (rn_conns st)"
    and "(p_name (sv_proxies sv ! cn_proxy c), rs) \<in> set (rb_servers raw)" and "rs_via rs = None"
    and "Connect as d \<in> set (cn_trace c)"
  shows "d = 0 \<or> (\<exists>m k name v. rs_sni rs = Some m \<and> (k, Raw_Extended name (Some v)) \<in> set m \<and>
    d = via_connect_timeout (via_of_raw v))"
proof -
  let ?p = "sv_proxies sv ! cn_proxy c"
  note inv = server_run_inv [OF assms(5-7)]
  have i: "cn_proxy c < length (sv_proxies sv)" using inv(3) assms(8) by (simp add: inv_tasks_def)
  obtain u ref name cfg a where l: "(name, cfg, a) \<in> set (listeners (pc_servers pc))"
    and p: "?p = proxy_of u ref (name, cfg, a)"
    using semaphore.server_from_Some [OF assms(5,6)] nth_mem [OF i] in_proxies_of
    by (metis prod_cases3)
  then have "(p_name ?p, cfg) \<in> set (pc_servers pc)"
    by (simp add: set_listeners proxy_of_def)
  from loaded_server [OF assms(1-4) this assms(9)] have cfg: "cfg = server_of_raw rs" .
  have via: "p_via ?p = sc_via (server_of_raw rs)" and sni: "p_sni ?p = sc_sni (server_of_raw rs)"
    by (simp_all add: p proxy_of_def cfg)
  have up: "upstreams_ok (p_upstream ?p)"
    using inv(1) i server_upstream_from [OF assms(5,6) loaded_upstreams_ok [OF assms(1,2)]]
    by (simp add: server_wf_def)
  from running_conn_attempts [OF assms(1,2,5-8,11)] obtain cenv
    where "Connect as d \<in> set (snd (fst (accept tp ?p cenv)))" by blast
  from server_without_via_timeouts [OF assms(10) via sni up this] show ?thesis .
qed

text \<open>
  C4. From the file to the wire. Take any reachable state of a server that the program runs, whatever the
  command line, and any attempt to connect that one of its connections has made. The proxy of the connection
  is a listen address of a server block of the file that was loaded. The names that the client has sent
  lead, in that block as it is written, to an upstream name that the file declares with a URL, and
  the attempt had the timeout of the \<open>via\<close> that the block gives to these names. The connection looked up
  the host and port of that URL and nothing else; it tried addresses of the family that the scheme of the
  URL asks for, and only such as the resolver has told, in this run, to connections that asked for
  the same host and port, whatever other upstreams and connections did to their caches.
\<close>

theorem connections_go_where_the_file_says:
  assumes "iterates (le_order (cl_load env))" and "semaphore (cl_sem env)"
    and "\<forall>path raw. document (cl_load env) path = Some raw \<longrightarrow> hm_ok (or_else (rb_upstream raw) [])"
    and "fst (cli_run env args) = Serving sv"
    and "run (server_step (cl_sem env) h tp (sv_proxies sv)) (run_init sv) ls st" and "c \<in> set (rn_conns st)"
    and "Connect as d \<in> set (cn_trace c)" and "p = sv_proxies sv ! cn_proxy c"
  shows "\<exists>path raw rs snis url u host port.
    document (cl_load env) path = Some raw \<and>
    (p_name p, rs) \<in> set (rb_servers raw) \<and> (\<exists>l \<in> set (rs_listen rs). parse_socket_addr l = Some (p_listen p)) \<and>
    accept_snis tp p (observed h (cn_events c)) = io_ret snis \<and>
    hm_get (or_else (rb_upstream raw) []) (fst (file_route rs snis)) = Some url \<and>
    le_url (cl_load env) url = Some u \<and> url_host_str u = Some host \<and> url_port_or_known_default u = Some port \<and>
    d = via_connect_timeout (snd (file_route rs snis)) \<and>
    list_all (allowed (mode_from_str (url_scheme u))) as \<and>
    (\<forall>host'. Lookup host' \<in> set (cn_trace c) \<longrightarrow> host' = host @ '':'' @ show_nat (unat port)) \<and>
    set as \<subseteq> told (server_step (cl_sem env) h tp (sv_proxies sv)) (run_init sv) ls (host @ '':'' @ show_nat (unat port))"
proof -
  obtain path pc where l: "fst (load_config (cl_load env) path) = Inr pc"
    "server_from (cl_sem env) pc = Some sv"
    using cli_run_Serving [OF assms(4)] by blast
  then obtain raw where raw: "document (cl_load env) path = Some raw"
    using load_config_Inr [OF assms(1)] by blast
  with assms(3) have "hm_ok (or_else (rb_upstream raw) [])" by blast
  from file_attempts [OF assms(1) l(1) raw this assms(2) l(2) assms(5-8)] raw show ?thesis by blast
qed

section \<open>Witnesses\<close>

lemma cli_ex: "fst (cli_run env_cli [''-c'', ''x'']) = Serving sv_ex"
  by (simp add: cli_run_def parse_args_def cli_start_cases env_cli_def load_ex server_ex)

theorem connections_go_where_the_file_says_witness:
  "\<exists>ls. up4 \<in> told (server_step counting_sem he_ex (sni_parser []) (sv_proxies sv_ex)) (run_init sv_ex) ls ''h:80''"
proof -
  obtain ls st s where run: "run (server_step counting_sem he_ex (sni_parser []) (sv_proxies sv_ex)) (run_init sv_ex) ls st"
    and c: "rn_conns st = [\<lparr>cn_proxy = 0, cn_permit = True, cn_state = C_Relay tn_ex s,
       cn_events = conn_events_ex, cn_trace = conn_trace_ex\<rparr>]" using conn_ex by blast
  have env: "iterates (le_order (cl_load env_cli))" "cl_sem env_cli = counting_sem"
    "\<forall>path raw. document (cl_load env_cli) path = Some raw \<longrightarrow> hm_ok (or_else (rb_upstream raw) [])"
    by (auto simp: env_cli_def iterates_ex document_ex raw_ex_def hm_ok_def)
  have url: "le_url (cl_load env_cli) x = Some \<lparr>url_host_str = Some ''h'', url_port_or_known_default = Some 80,
      url_scheme = ''tcp4''\<rparr>" for x
    by (simp add: env_cli_def env_load_def)
  have attempt: "Connect [up4] 0 \<in> set (cn_trace (rn_conns st ! 0))" by (simp add: c conn_trace_ex_def)
  have "show_nat 80 = ''80''" by (simp add: show_nat.simps)
  with connections_go_where_the_file_says [OF env(1) _ env(3) cli_ex run [folded env(2)] _ attempt refl]
    c counting.semaphore_axioms url show ?thesis unfolding env(2) by auto
qed

theorem served_connections_always_find_their_upstream_witness:
  "\<exists>p u via target. sv_proxies sv_ex = [p] \<and> accept_plan p [] = Inr ((''remote'', u), via, target)"
proof -
  obtain p where p: "sv_proxies sv_ex = [p]" "p_default_action p = ''remote''" using proxies_ex by blast
  from served_connections_always_find_their_upstream [OF _ _ cli_ex, of p] p
  show ?thesis by (fastforce simp: env_cli_def iterates_ex counting.semaphore_axioms route_def)
qed

theorem server_block_without_via_has_zero_timeout_witness:
  "\<exists>d. Connect [up4] d \<in> set conn_trace_ex \<and> d = 0"
proof -
  obtain ls st s where run: "run (server_step counting_sem he_ex (sni_parser []) (sv_proxies sv_ex)) (run_init sv_ex) ls st"
    and c: "rn_conns st = [\<lparr>cn_proxy = 0, cn_permit = True, cn_state = C_Relay tn_ex s,
       cn_events = conn_events_ex, cn_trace = conn_trace_ex\<rparr>]" using conn_ex by blast
  have "hm_ok (rb_servers (raw_ex (raw_server_plain None)))" by (simp add: raw_ex_def hm_ok_def)
  moreover have "(p_name (sv_proxies sv_ex ! 0), raw_server_plain None) \<in>
      set (rb_servers (raw_ex (raw_server_plain None)))"
    using server_ex_proxy by (auto simp: raw_ex_def)
  moreover have "rs_via (raw_server_plain None) = None" "rs_sni (raw_server_plain None) = None"
    by (simp_all add: raw_server_plain_def)
  moreover obtain d where attempt: "Connect [up4] d \<in> set conn_trace_ex" by (auto simp: conn_trace_ex_def)
  ultimately have "d = 0"
    using server_block_without_via_has_zero_timeout [OF iterates_ex load_ex document_ex _
        counting.semaphore_axioms server_ex run, of "rn_conns st ! 0" "raw_server_plain None" "[up4]" d] c
    by auto
  with attempt show ?thesis by blast
qed

end
